(* ===== verification/Czet_Prelude.thy ===== *)
theory Czet_Prelude
  imports Main "HOL-Library.Word"
begin

text \<open>
  Shared vocabulary of the development: machine integer types, C strings and their decimal
  rendering (the \<^verbatim>\<open>%u\<close> and \<^verbatim>\<open>%lu\<close> conversions the sources use to build unique names), spans
  of a vector, and the generic lemmas the component theories use.  The collection
  \<open>span_simps\<close> gathers the rewrite rules on spans, \<open>tok_simps\<close> those on tokens.
\<close>

unbundle bit_operations_syntax

named_theorems span_simps
named_theorems tok_simps

type_synonym u8 = "8 word"
type_synonym u32 = "32 word"
type_synonym u64 = "64 word"

text \<open>The half-open span \<open>[i, j)\<close> of a vector, as the sources address captured tokens.\<close>

definition span :: "'a list \<Rightarrow> nat \<Rightarrow> nat \<Rightarrow> 'a list" where
  "span xs i j = take (j - i) (drop i xs)"

text \<open>Decimal rendering of an unsigned integer, as \<^verbatim>\<open>printf\<close> prints it.\<close>

definition digit_char :: "nat \<Rightarrow> char" where
  "digit_char d = char_of (48 + d)"

fun show_unsigned :: "nat \<Rightarrow> string" where
  "show_unsigned n =
     (if n < 10 then [digit_char n] else show_unsigned (n div 10) @ [digit_char (n mod 10)])"

definition is_digit :: "char \<Rightarrow> bool" where
  "is_digit c \<longleftrightarrow> 48 \<le> (of_char c :: nat) \<and> (of_char c :: nat) \<le> 57"

declare show_unsigned.simps [simp del]

subsection \<open>Spans\<close>

lemma span_empty [span_simps, simp]: "span xs i i = []"
  by (simp add: span_def)

lemma length_span [span_simps]: "j \<le> length xs \<Longrightarrow> length (span xs i j) = j - i"
  by (auto simp: span_def min_def)

lemma span_full [span_simps, simp]: "span xs 0 (length xs) = xs"
  by (simp add: span_def)

lemma set_span: "set (span xs i j) \<subseteq> set xs"
  unfolding span_def by (meson order_trans set_drop_subset set_take_subset)

lemma span_append [span_simps]:
  "i \<le> j \<Longrightarrow> j \<le> k \<Longrightarrow> span xs i j @ span xs j k = span xs i k"
proof -
  assume "i \<le> j" "j \<le> k"
  then obtain a b where j: "j = i + a" and k: "k = j + b"
    using le_Suc_ex by blast
  then show ?thesis
    by (simp add: span_def take_add add.assoc add.commute [of a i])
qed

lemma span_Cons [span_simps]:
  "i < j \<Longrightarrow> i < length xs \<Longrightarrow> span xs i j = xs ! i # span xs (Suc i) j"
  by (simp add: span_def Cons_nth_drop_Suc [symmetric] Suc_diff_Suc [symmetric])

lemma span_one [span_simps]: "i < length xs \<Longrightarrow> span xs i (Suc i) = [xs ! i]"
  by (simp add: span_Cons)

lemma drop_span: "i \<le> j \<Longrightarrow> j \<le> length xs \<Longrightarrow> drop i xs = span xs i j @ drop j xs"
  by (metis add.commute append_take_drop_id drop_drop le_add_diff_inverse2 span_def)

lemma drop_eq_append:
  assumes "drop i xs = ys @ zs"
  shows "span xs i (i + length ys) = ys" and "drop (i + length ys) xs = zs"
  using assms by (simp add: span_def, metis add.commute append_eq_conv_conj drop_drop)

lemma nth_span [span_simps]: "k < j - i \<Longrightarrow> j \<le> length xs \<Longrightarrow> span xs i j ! k = xs ! (i + k)"
  by (simp add: span_def)

lemma span_to_end: "span xs i (length xs) = drop i xs"
  by (simp add: span_def)

text \<open>Reading a vector after a write, for an index that is in range.\<close>

lemma nth_upd: "j < length xs \<Longrightarrow> xs[i := x] ! j = (if i = j then x else xs ! j)"
  by (cases "i = j") auto

subsection \<open>Decimal rendering\<close>

lemma of_char_digit_char [simp]: "d < 10 \<Longrightarrow> (of_char (digit_char d) :: nat) = 48 + d"
  by (simp add: digit_char_def)

lemma is_digit_digit_char [simp]: "d < 10 \<Longrightarrow> is_digit (digit_char d)"
  by (simp add: is_digit_def)

lemma digit_char_inject: "a < 10 \<Longrightarrow> b < 10 \<Longrightarrow> digit_char a = digit_char b \<longleftrightarrow> a = b"
  by (metis add_left_cancel of_char_digit_char)

lemma show_unsigned_not_Nil [simp]: "show_unsigned n \<noteq> []"
  by (subst show_unsigned.simps) simp

lemma show_unsigned_digits: "\<forall>c \<in> set (show_unsigned n). is_digit c"
proof (induction n rule: show_unsigned.induct)
  case (1 n)
  then show ?case
    by (subst show_unsigned.simps) auto
qed

lemma show_unsigned_inject: "show_unsigned m = show_unsigned n \<longleftrightarrow> m = n"
proof (induction m arbitrary: n rule: show_unsigned.induct)
  case (1 m)
  have long: "show_unsigned k = [digit_char d] \<longleftrightarrow> k = d" if "d < 10" for k d
    using that
    by (subst show_unsigned.simps) (auto simp: digit_char_inject)
  show ?case
  proof (cases "m < 10")
    case True
    then show ?thesis
      using long [of m n] by (subst show_unsigned.simps) auto
  next
    case False
    show ?thesis
    proof (cases "n < 10")
      case True
      then show ?thesis
        using long [of n m] by (subst (2) show_unsigned.simps) auto
    next
      case nbig: False
      have "show_unsigned m = show_unsigned n \<longleftrightarrow>
            show_unsigned (m div 10) = show_unsigned (n div 10) \<and> m mod 10 = n mod 10"
        using False nbig
        by (subst (1 2) show_unsigned.simps) (simp add: digit_char_inject)
      also have "\<dots> \<longleftrightarrow> m div 10 = n div 10 \<and> m mod 10 = n mod 10"
        using 1 [OF False] by simp
      also have "\<dots> \<longleftrightarrow> m = n"
        by (metis div_mult_mod_eq)
      finally show ?thesis .
    qed
  qed
qed

text \<open>A name ending in a non-digit followed by a rendered number determines the number.\<close>

lemma takeWhile_digits_rev:
  assumes "\<not> is_digit c"
  shows "takeWhile is_digit (rev (s @ c # show_unsigned n)) = rev (show_unsigned n)"
  using assms show_unsigned_digits [of n]
  by (simp add: takeWhile_append2 takeWhile_append)

lemma numbered_suffix_inject:
  assumes "\<not> is_digit c" and "s @ c # show_unsigned m = s' @ c # show_unsigned n"
  shows "m = n"
proof -
  have "rev (show_unsigned m) = rev (show_unsigned n)"
    using assms takeWhile_digits_rev by metis
  then show ?thesis
    by (simp add: show_unsigned_inject)
qed

subsection \<open>Words\<close>

lemma unat_pow2: "k < 64 \<Longrightarrow> unat ((2 :: u64) ^ k) = 2 ^ k"
proof -
  assume k: "k < 64"
  then have "(2 :: nat) ^ k < 2 ^ 64" by (rule power_strict_increasing) auto
  moreover have "(2 :: u64) ^ k = of_nat (2 ^ k)" by simp
  ultimately show ?thesis
    using k by (simp only: unsigned_of_nat) (simp add: take_bit_nat_eq_self)
qed

lemma unat_less64: "unat (x :: u64) < 2 ^ 64"
proof -
  have "unat x < 2 ^ LENGTH(64)" by (rule unsigned_less)
  then show ?thesis by simp
qed

subsection \<open>Options as results of loops that may not return\<close>

lemma bind_Some_iff: "Option.bind x f = Some y \<longleftrightarrow> (\<exists>a. x = Some a \<and> f a = Some y)"
  by (cases x) auto

lemma bind_not_None_I:
  "x = Some a \<Longrightarrow> f a \<noteq> None \<Longrightarrow> Option.bind x f \<noteq> None"
  by simp

end
