(* ===== verification/Tokens.thy ===== *)
theory Tokens
  imports Czet_Prelude
begin

text \<open>
  The tokens of the C front end (\<^verbatim>\<open>struct c_token\<close> of c-parser.h, \<^verbatim>\<open>enum cpp_ttype\<close> of cpplib.h)
  and the token predicates of the macro engine (c-parser.cc): literal tokens, nesting deltas,
  \<^verbatim>\<open>$name\<close> references, the lone \<^verbatim>\<open>$\<close> and the literal-token equality.  Token kinds the macro engine
  never names are \<open>CPP_rest n\<close>, with \<open>n\<close> the position in the enumeration.  The \<^verbatim>\<open>value\<close> of a token
  is its spelling: the identifier of a name or keyword, the text of a literal.
\<close>

datatype cpp_ttype =
    CPP_EQ | CPP_GREATER | CPP_LESS | CPP_PLUS | CPP_MULT | CPP_RSHIFT | CPP_LSHIFT
  | CPP_QUERY | CPP_COLON | CPP_COMMA | CPP_OPEN_PAREN | CPP_CLOSE_PAREN | CPP_EOF
  | CPP_OPEN_SQUARE | CPP_CLOSE_SQUARE | CPP_OPEN_BRACE | CPP_CLOSE_BRACE | CPP_SEMICOLON
  | CPP_NAME | CPP_NUMBER | CPP_CHAR | CPP_WCHAR | CPP_CHAR16 | CPP_CHAR32 | CPP_UTF8CHAR
  | CPP_STRING | CPP_WSTRING | CPP_STRING16 | CPP_STRING32 | CPP_UTF8STRING | CPP_OBJC_STRING
  | CPP_UNEVAL_STRING | CPP_CHAR_USERDEF | CPP_WCHAR_USERDEF | CPP_CHAR16_USERDEF
  | CPP_CHAR32_USERDEF | CPP_UTF8CHAR_USERDEF | CPP_STRING_USERDEF | CPP_WSTRING_USERDEF
  | CPP_STRING16_USERDEF | CPP_STRING32_USERDEF | CPP_UTF8STRING_USERDEF | CPP_KEYWORD
  | CPP_rest nat

datatype c_id_kind = C_ID_ID | C_ID_TYPENAME | C_ID_CLASSNAME | C_ID_ADDRSPACE | C_ID_NONE

record c_token =
  tk_type :: cpp_ttype
  tk_id_kind :: c_id_kind
  tk_keyword :: nat
  tk_pragma_kind :: nat
  tk_location :: nat
  tk_value :: string
  tk_flags :: u8

type_synonym tokens = "c_token list"

definition c_czet_is_literal_token :: "c_token \<Rightarrow> bool" where
  "c_czet_is_literal_token t = (case tk_type t of
     CPP_NUMBER \<Rightarrow> True | CPP_CHAR \<Rightarrow> True | CPP_CHAR16 \<Rightarrow> True | CPP_CHAR32 \<Rightarrow> True
   | CPP_WCHAR \<Rightarrow> True | CPP_UTF8CHAR \<Rightarrow> True | CPP_STRING \<Rightarrow> True | CPP_WSTRING \<Rightarrow> True
   | CPP_STRING16 \<Rightarrow> True | CPP_STRING32 \<Rightarrow> True | CPP_UTF8STRING \<Rightarrow> True
   | CPP_OBJC_STRING \<Rightarrow> True | CPP_UNEVAL_STRING \<Rightarrow> True | CPP_CHAR_USERDEF \<Rightarrow> True
   | CPP_WCHAR_USERDEF \<Rightarrow> True | CPP_CHAR16_USERDEF \<Rightarrow> True | CPP_CHAR32_USERDEF \<Rightarrow> True
   | CPP_UTF8CHAR_USERDEF \<Rightarrow> True | CPP_STRING_USERDEF \<Rightarrow> True | CPP_WSTRING_USERDEF \<Rightarrow> True
   | CPP_STRING16_USERDEF \<Rightarrow> True | CPP_STRING32_USERDEF \<Rightarrow> True
   | CPP_UTF8STRING_USERDEF \<Rightarrow> True
   | _ \<Rightarrow> False)"

definition c_czet_delta :: "c_token \<Rightarrow> int" where
  "c_czet_delta t = (case tk_type t of
     CPP_OPEN_PAREN \<Rightarrow> 1 | CPP_OPEN_SQUARE \<Rightarrow> 1 | CPP_OPEN_BRACE \<Rightarrow> 1
   | CPP_CLOSE_PAREN \<Rightarrow> -1 | CPP_CLOSE_SQUARE \<Rightarrow> -1 | CPP_CLOSE_BRACE \<Rightarrow> -1
   | _ \<Rightarrow> 0)"

text \<open>\<^verbatim>\<open>IDENTIFIER_POINTER (t->value)[0] == '$'\<close>; an identifier is NUL-terminated, so reading
  position 0 of an empty spelling gives the terminator.\<close>

definition starts_dollar :: "string \<Rightarrow> bool" where
  "starts_dollar s = (case s of [] \<Rightarrow> False | c # _ \<Rightarrow> c = CHR ''$'')"

definition c_czet_is_param_ref :: "c_token \<Rightarrow> bool" where
  "c_czet_is_param_ref t \<longleftrightarrow> tk_type t = CPP_NAME \<and> starts_dollar (tk_value t)"

definition c_czet_is_rep_start :: "c_token \<Rightarrow> bool" where
  "c_czet_is_rep_start t \<longleftrightarrow> tk_type t = CPP_NAME \<and> tk_value t = ''$''"

definition c_czet_tok_eq :: "c_token \<Rightarrow> c_token \<Rightarrow> bool" where
  "c_czet_tok_eq ptok itok =
     (if tk_type ptok = CPP_NAME then
        tk_type itok = CPP_NAME \<and> tk_value ptok = tk_value itok
      else if tk_type ptok = CPP_KEYWORD then
        tk_type itok = CPP_KEYWORD \<and> tk_keyword ptok = tk_keyword itok
      else tk_type ptok = tk_type itok)"

text \<open>Token constructors; \<open>eof_tok\<close> is a zeroed token of type \<^verbatim>\<open>CPP_EOF\<close>, the "no separator" value.\<close>

definition mk_tok :: "cpp_ttype \<Rightarrow> string \<Rightarrow> c_token" where
  "mk_tok ty v = \<lparr>tk_type = ty, tk_id_kind = C_ID_NONE, tk_keyword = 0, tk_pragma_kind = 0,
     tk_location = 0, tk_value = v, tk_flags = 0\<rparr>"

definition name_tok :: "string \<Rightarrow> c_token" where
  "name_tok v = (mk_tok CPP_NAME v)\<lparr>tk_id_kind := C_ID_ID\<rparr>"

definition eof_tok :: c_token where
  "eof_tok = (mk_tok CPP_EOF [])\<lparr>tk_id_kind := C_ID_ID\<rparr>"

subsection \<open>Nesting depth\<close>

text \<open>
  The sources count nesting in two ways: an \<^verbatim>\<open>int\<close> that fails on the first negative prefix, and
  an \<^verbatim>\<open>unsigned\<close> that wraps around.  \<open>balanced\<close> is the abstract notion both approximate.
\<close>

definition depth_of :: "tokens \<Rightarrow> int" where
  "depth_of ts = (\<Sum>t \<leftarrow> ts. c_czet_delta t)"

definition balanced :: "tokens \<Rightarrow> bool" where
  "balanced ts \<longleftrightarrow> depth_of ts = 0 \<and> (\<forall>k \<le> length ts. 0 \<le> depth_of (take k ts))"

lemma depth_of_simps [tok_simps, simp]:
  "depth_of [] = 0"
  "depth_of (t # ts) = c_czet_delta t + depth_of ts"
  "depth_of (ts @ us) = depth_of ts + depth_of us"
  by (simp_all add: depth_of_def)

lemma delta_cases: "c_czet_delta t = -1 \<or> c_czet_delta t = 0 \<or> c_czet_delta t = 1"
  by (simp add: c_czet_delta_def split: cpp_ttype.split)

lemma depth_of_bound: "\<bar>depth_of ts\<bar> \<le> int (length ts)"
proof (induction ts)
  case (Cons t ts)
  then show ?case
    using delta_cases [of t] by auto
qed simp

lemma balanced_Nil [simp]: "balanced []"
  by (simp add: balanced_def)

lemma balanced_append: "balanced a \<Longrightarrow> balanced b \<Longrightarrow> balanced (a @ b)"
  unfolding balanced_def
proof (intro conjI allI impI; elim conjE)
  fix k
  assume a: "depth_of a = 0" "\<forall>k\<le>length a. 0 \<le> depth_of (take k a)"
    and b: "\<forall>k\<le>length b. 0 \<le> depth_of (take k b)" and k: "k \<le> length (a @ b)"
  show "0 \<le> depth_of (take k (a @ b))"
    using a b k by (cases "k \<le> length a") auto
qed simp

lemma balanced_single: "c_czet_delta t = 0 \<Longrightarrow> balanced [t]"
  by (auto simp: balanced_def take_Cons split: nat.split)

text \<open>The wrapping counter agrees with the integer depth on fewer than \<open>2 ^ 32\<close> tokens.\<close>

lemma word_depth_zero_iff:
  assumes "length ts < 2 ^ 32"
  shows "(word_of_int (depth_of ts) :: u32) = 0 \<longleftrightarrow> depth_of ts = 0"
proof
  assume "(word_of_int (depth_of ts) :: u32) = 0"
  then have "uint (word_of_int (depth_of ts) :: u32) = 0"
    by simp
  then have "depth_of ts mod 2 ^ 32 = 0"
    by (simp add: uint_word_of_int)
  moreover have "\<bar>depth_of ts\<bar> < 2 ^ 32"
    using depth_of_bound [of ts] assms by simp
  ultimately show "depth_of ts = 0"
    by (metis abs_dvd_iff dvd_abs_iff abs_of_nonneg mod_eq_0_iff_dvd zdvd_not_zless zero_less_abs_iff)
qed simp

end
