(* ===== verification/Macro_Data.thy ===== *)
theory Macro_Data
  imports Tokens
begin

text \<open>
  The data of the \<^verbatim>\<open>_Macro\<close> engine (c-parser.cc): fragment kinds, parameters, pattern and
  expansion trees, arms, definitions, the registry, and the scanning loops that both matchers
  share (block end, longest run, balanced-cut test).  A kind code below 0x100 is
  \<open>CZET_KIND f\<close>, a code \<^verbatim>\<open>CZET_MACRO_KIND_REPEAT_BASE + f\<close> is \<open>CZET_KIND_REPEAT f\<close>.
\<close>

datatype macro_frag =
    KIND_IDENT | KIND_EXPR | KIND_TYPE | KIND_STMT | KIND_BLOCK | KIND_TOKENS
  | KIND_NUMBER | KIND_STRING | KIND_LITERAL

datatype czet_macro_kind = CZET_KIND macro_frag | CZET_KIND_REPEAT macro_frag

fun CZET_MACRO_KIND_BASE :: "czet_macro_kind \<Rightarrow> macro_frag" where
  "CZET_MACRO_KIND_BASE (CZET_KIND f) = f"
| "CZET_MACRO_KIND_BASE (CZET_KIND_REPEAT f) = f"

fun CZET_MACRO_KIND_IS_REPEAT :: "czet_macro_kind \<Rightarrow> bool" where
  "CZET_MACRO_KIND_IS_REPEAT (CZET_KIND f) = False"
| "CZET_MACRO_KIND_IS_REPEAT (CZET_KIND_REPEAT f) = True"

record c_macro_param =
  mp_name :: string
  mp_kind :: czet_macro_kind
  mp_repeat_mod :: char
  mp_repeat_sep :: c_token
  mp_rep_depth :: int

datatype czet_rep_node =
    CZET_RN_TOK c_token
  | CZET_RN_CAP nat
  | CZET_RN_REP (rn_kids: "czet_rep_node list") (rn_mod: char) (rn_sep: c_token)
      (rn_uses: "nat list")

record c_macro_arm =
  arm_pattern :: tokens
  arm_expansion :: tokens
  arm_pattern_tree :: "czet_rep_node list option"
  arm_expansion_tree :: "czet_rep_node list option"

record c_macro_def =
  md_name :: string
  md_params :: "c_macro_param list"
  md_arms :: "c_macro_arm list"

type_synonym macro_map = "string \<rightharpoonup> c_macro_def"

definition c_czet_macro_lookup :: "macro_map \<Rightarrow> string \<Rightarrow> c_macro_def option" where
  "c_czet_macro_lookup m name = m name"

definition c_czet_macro_register :: "macro_map \<Rightarrow> string \<Rightarrow> c_macro_def \<Rightarrow> macro_map" where
  "c_czet_macro_register m name def = m(name \<mapsto> def)"

text \<open>Index of parameter \<open>$NAME\<close>, the loop over the parameter vector; \<^verbatim>\<open>-1\<close> is \<open>None\<close>.\<close>

fun find_param_from :: "c_macro_param list \<Rightarrow> nat \<Rightarrow> string \<Rightarrow> nat option" where
  "find_param_from [] i name = None"
| "find_param_from (p # ps) i name =
     (if mp_name p = name then Some i else find_param_from ps (Suc i) name)"

definition c_czet_find_param :: "c_macro_param list \<Rightarrow> string \<Rightarrow> nat option" where
  "c_czet_find_param params name = find_param_from params 0 name"

definition c_czet_macro_kind_from_name :: "string \<Rightarrow> macro_frag option" where
  "c_czet_macro_kind_from_name s =
     (if s = ''ident'' then Some KIND_IDENT
      else if s = ''expr'' then Some KIND_EXPR
      else if s = ''type'' then Some KIND_TYPE
      else if s = ''stmt'' then Some KIND_STMT
      else if s = ''block'' then Some KIND_BLOCK
      else if s = ''tokens'' then Some KIND_TOKENS
      else if s = ''number'' then Some KIND_NUMBER
      else if s = ''string'' then Some KIND_STRING
      else if s = ''literal'' then Some KIND_LITERAL
      else None)"

text \<open>
  A captured node and a capture slot.  The vectors of \<^verbatim>\<open>czet_cap_node *\<close> live in a store (a list
  of vectors, the address is the position), because a slot's \<^verbatim>\<open>cur\<close> aliases either the top-level
  vector or the \<^verbatim>\<open>kids\<close> of a node inside it.
\<close>

datatype czet_cap_node = CapLeaf nat nat | CapInner nat

record c_macro_capture =
  cap_start :: nat
  cap_end :: nat
  cap_iters :: "nat option"
  cap_cur :: "nat option"

definition zero_capture :: c_macro_capture where
  "zero_capture = \<lparr>cap_start = 0, cap_end = 0, cap_iters = None, cap_cur = None\<rparr>"

definition put_span :: "nat \<Rightarrow> nat \<Rightarrow> nat \<Rightarrow> c_macro_capture list \<Rightarrow> c_macro_capture list" where
  "put_span p i j caps = caps[p := (caps ! p)\<lparr>cap_start := i, cap_end := j\<rparr>]"

subsection \<open>Scanning loops shared by the two matchers\<close>

text \<open>\<^verbatim>\<open>do { depth += delta (input[e]); e++; } while (depth > 0 && e < ni);\<close>\<close>

function block_end :: "tokens \<Rightarrow> nat \<Rightarrow> u32 \<Rightarrow> u32 \<times> nat" where
  "block_end input e depth =
     (let depth' = depth + word_of_int (c_czet_delta (input ! e)); e' = e + 1 in
      if 0 < depth' \<and> e' < length input then block_end input e' depth' else (depth', e'))"
  by pat_completeness auto
termination
  by (relation "measure (\<lambda>(input, e, depth). length input - e)") auto

text \<open>
  The loop that bounds a run: the first position at nesting depth zero whose token satisfies
  \<open>stop\<close>, else the length of the input.
\<close>

function scan_maxcut :: "(c_token \<Rightarrow> bool) \<Rightarrow> tokens \<Rightarrow> nat \<Rightarrow> u32 \<Rightarrow> nat" where
  "scan_maxcut stop input k depth =
     (if k < length input then
        let depth' = depth + word_of_int (c_czet_delta (input ! k)) in
        if depth' = 0 \<and> stop (input ! k) then k
        else scan_maxcut stop input (Suc k) depth'
      else length input)"
  by pat_completeness auto
termination
  by (relation "measure (\<lambda>(stop, input, k, depth). length input - k)") auto

text \<open>\<^verbatim>\<open>for (k = ii; k < cut && ok; k++) { d += delta; if (d < 0) ok = false; }\<close>, then
  \<^verbatim>\<open>!ok || d != 0\<close> rejects the cut.\<close>

fun balanced_run :: "tokens \<Rightarrow> int \<Rightarrow> bool" where
  "balanced_run [] d = (d = 0)"
| "balanced_run (t # ts) d =
     (let d' = d + c_czet_delta t in if d' < 0 then False else balanced_run ts d')"

definition lit_ok :: "macro_frag \<Rightarrow> c_token \<Rightarrow> bool" where
  "lit_ok kind itk =
     (case kind of KIND_NUMBER \<Rightarrow> tk_type itk = CPP_NUMBER
      | KIND_STRING \<Rightarrow> tk_type itk = CPP_STRING
      | _ \<Rightarrow> c_czet_is_literal_token itk)"

text \<open>
  The fragments that capture in one way only (\<^verbatim>\<open>ident\<close>, \<^verbatim>\<open>block\<close> and the literal kinds): the end
  of the capture that starts at \<open>ii\<close>, or \<open>None\<close> when the fragment does not match there.  The
  other fragments capture a run of variable length.
\<close>

definition det_end :: "macro_frag \<Rightarrow> tokens \<Rightarrow> nat \<Rightarrow> nat option" where
  "det_end kind input ii =
     (if kind = KIND_IDENT then
        (if length input \<le> ii \<or> tk_type (input ! ii) \<noteq> CPP_NAME then None else Some (ii + 1))
      else if kind = KIND_BLOCK then
        (if length input \<le> ii \<or> tk_type (input ! ii) \<noteq> CPP_OPEN_BRACE then None
         else (case block_end input ii 0 of (depth, e) \<Rightarrow> if depth \<noteq> 0 then None else Some e))
      else
        (if length input \<le> ii then None
         else if \<not> lit_ok kind (input ! ii) then None else Some (ii + 1)))"

definition is_run_kind :: "macro_frag \<Rightarrow> bool" where
  "is_run_kind kind \<longleftrightarrow> kind \<in> {KIND_EXPR, KIND_TYPE, KIND_STMT, KIND_TOKENS}"

definition comma_bounded :: "macro_frag \<Rightarrow> bool" where
  "comma_bounded kind \<longleftrightarrow> kind = KIND_EXPR \<or> kind = KIND_TYPE"

declare block_end.simps [simp del] scan_maxcut.simps [simp del]

subsection \<open>What the scanning loops compute\<close>

definition stop_free :: "(c_token \<Rightarrow> bool) \<Rightarrow> tokens \<Rightarrow> bool" where
  "stop_free stop ts \<longleftrightarrow> (\<forall>k < length ts. stop (ts ! k) \<longrightarrow> depth_of (take (Suc k) ts) \<noteq> 0)"

definition block_shape :: "tokens \<Rightarrow> bool" where
  "block_shape ts \<longleftrightarrow> ts \<noteq> [] \<and> tk_type (hd ts) = CPP_OPEN_BRACE \<and> depth_of ts = 0
     \<and> (\<forall>k. 0 < k \<and> k < length ts \<longrightarrow> depth_of (take k ts) \<noteq> 0)"

lemma find_param_from_Some:
  "find_param_from ps i name = Some k \<Longrightarrow>
     i \<le> k \<and> k < i + length ps \<and> mp_name (ps ! (k - i)) = name"
proof (induction ps arbitrary: i)
  case (Cons p ps)
  show ?case
  proof (cases "mp_name p = name")
    case False
    with Cons.prems have "Suc i \<le> k \<and> k < Suc i + length ps \<and> mp_name (ps ! (k - Suc i)) = name"
      by (intro Cons.IH) simp
    then show ?thesis
      by (auto simp: nth_Cons' Suc_diff_Suc)
  qed (use Cons.prems in auto)
qed simp

lemma find_param_Some:
  "c_czet_find_param ps name = Some k \<Longrightarrow> k < length ps \<and> mp_name (ps ! k) = name"
  using find_param_from_Some [of ps 0 name k] by (simp add: c_czet_find_param_def)

lemma find_param_from_None:
  "find_param_from ps i name = None \<longleftrightarrow> (\<forall>p \<in> set ps. mp_name p \<noteq> name)"
  by (induction ps arbitrary: i) auto

lemma find_param_None:
  "c_czet_find_param ps name = None \<longleftrightarrow> (\<forall>p \<in> set ps. mp_name p \<noteq> name)"
  by (simp add: c_czet_find_param_def find_param_from_None)

lemma balanced_run_iff:
  "balanced_run ts d \<longleftrightarrow> d + depth_of ts = 0 \<and> (\<forall>k. 0 < k \<and> k \<le> length ts \<longrightarrow> 0 \<le> d + depth_of (take k ts))"
proof (induction ts arbitrary: d)
  case Nil
  then show ?case by auto
next
  case (Cons t ts)
  have split: "(\<forall>k. 0 < k \<and> k \<le> length (t # ts) \<longrightarrow> 0 \<le> d + depth_of (take k (t # ts)))
    \<longleftrightarrow> 0 \<le> d + c_czet_delta t
      \<and> (\<forall>k. 0 < k \<and> k \<le> length ts \<longrightarrow> 0 \<le> d + c_czet_delta t + depth_of (take k ts))" (is "?L = ?R")
  proof
    assume L: ?L
    show ?R
    proof (intro conjI allI impI)
      show "0 \<le> d + c_czet_delta t"
        using L [rule_format, of 1] by simp
      fix k
      assume "0 < k \<and> k \<le> length ts"
      then show "0 \<le> d + c_czet_delta t + depth_of (take k ts)"
        using L [rule_format, of "Suc k"] by simp
    qed
  next
    assume R: ?R
    show ?L
    proof (intro allI impI)
      fix k
      assume "0 < k \<and> k \<le> length (t # ts)"
      then obtain m where "k = Suc m" "m \<le> length ts"
        by (cases k) auto
      then show "0 \<le> d + depth_of (take k (t # ts))"
        using R by (cases "m = 0") (auto simp: add.assoc)
    qed
  qed
  show ?case
    by (simp only: split balanced_run.simps Let_def Cons.IH) (auto simp: add.assoc)
qed

lemma balanced_run_balanced: "balanced_run ts 0 \<longleftrightarrow> balanced ts"
proof -
  have "(\<forall>k \<le> length ts. 0 \<le> depth_of (take k ts)) \<longleftrightarrow>
        (\<forall>k. 0 < k \<and> k \<le> length ts \<longrightarrow> 0 \<le> depth_of (take k ts))"
    by (metis depth_of_simps(1) gr0I order_refl take_0)
  then show ?thesis
    by (simp add: balanced_run_iff balanced_def)
qed

lemma word_span_step:
  assumes "ii \<le> k" "k < length input"
  shows "(word_of_int (depth_of (span input ii k)) :: u32) + word_of_int (c_czet_delta (input ! k))
       = word_of_int (depth_of (span input ii (Suc k)))"
proof -
  have "span input ii (Suc k) = span input ii k @ [input ! k]"
    using assms span_append [of ii k "Suc k" input] by (simp add: span_one)
  then show ?thesis
    by simp
qed

lemma word_span_zero_iff:
  assumes "length input < 2 ^ 32" "k \<le> length input"
  shows "(word_of_int (depth_of (span input ii k)) :: u32) = 0 \<longleftrightarrow> depth_of (span input ii k) = 0"
proof (rule word_depth_zero_iff)
  show "length (span input ii k) < 2 ^ 32"
    using assms by (simp add: length_span)
qed

lemma scan_maxcut_bounds:
  "k \<le> length input \<Longrightarrow> k \<le> scan_maxcut stop input k d \<and> scan_maxcut stop input k d \<le> length input"
proof (induction stop input k d rule: scan_maxcut.induct)
  case (1 stop input k d)
  show ?case
  proof (cases "k < length input \<and> \<not> (d + word_of_int (c_czet_delta (input ! k)) = 0 \<and> stop (input ! k))")
    case True
    with "1.IH" [OF _ refl] have "Suc k \<le> scan_maxcut stop input (Suc k) (d + word_of_int (c_czet_delta (input ! k)))
        \<and> scan_maxcut stop input (Suc k) (d + word_of_int (c_czet_delta (input ! k))) \<le> length input"
      by simp
    with True show ?thesis
      by (subst (1 2) scan_maxcut.simps) (auto simp: Let_def)
  qed (use "1.prems" in \<open>subst (1 2) scan_maxcut.simps, auto simp: Let_def\<close>)
qed

text \<open>A cu is within the bound exactly when no stop token at depth zero lies before it.\<close>

lemma scan_maxcut_iff:
  assumes "ii \<le> k" "k \<le> cu" "cu \<le> length input" "length input < 2 ^ 32"
  shows "cu \<le> scan_maxcut stop input k (word_of_int (depth_of (span input ii k))) \<longleftrightarrow>
    (\<forall>m. k \<le> m \<and> m < cu \<and> stop (input ! m) \<longrightarrow> depth_of (span input ii (Suc m)) \<noteq> 0)"
  using assms
proof (induction "cu - k" arbitrary: k)
  case 0
  then show ?case
    using scan_maxcut_bounds [of k input] by auto
next
  case (Suc n)
  then have k: "k < length input" and lt: "k < cu" by auto
  let ?d = "word_of_int (depth_of (span input ii k)) + word_of_int (c_czet_delta (input ! k)) :: u32"
  have d: "?d = word_of_int (depth_of (span input ii (Suc k)))"
    using Suc.prems k by (simp add: word_span_step)
  have z: "?d = 0 \<longleftrightarrow> depth_of (span input ii (Suc k)) = 0"
    unfolding d using Suc.prems k by (intro word_span_zero_iff) auto
  have IH: "cu \<le> scan_maxcut stop input (Suc k) ?d \<longleftrightarrow>
    (\<forall>m. Suc k \<le> m \<and> m < cu \<and> stop (input ! m) \<longrightarrow> depth_of (span input ii (Suc m)) \<noteq> 0)"
    unfolding d using Suc lt by (intro Suc.hyps(1)) auto
  have range: "(\<forall>m. k \<le> m \<and> m < cu \<and> stop (input ! m) \<longrightarrow> depth_of (span input ii (Suc m)) \<noteq> 0)
    \<longleftrightarrow> (stop (input ! k) \<longrightarrow> depth_of (span input ii (Suc k)) \<noteq> 0)
      \<and> (\<forall>m. Suc k \<le> m \<and> m < cu \<and> stop (input ! m) \<longrightarrow> depth_of (span input ii (Suc m)) \<noteq> 0)"
    using lt by (metis Suc_leD Suc_leI le_neq_implies_less order_refl)
  show ?case
    using k lt z IH range by (subst scan_maxcut.simps) (auto simp: Let_def)
qed

lemma stop_free_span:
  assumes "ii \<le> cu" "cu \<le> length input"
  shows "stop_free stop (span input ii cu) \<longleftrightarrow>
    (\<forall>m. ii \<le> m \<and> m < cu \<and> stop (input ! m) \<longrightarrow> depth_of (span input ii (Suc m)) \<noteq> 0)"
proof -
  have take: "take (Suc k) (span input ii cu) = span input ii (Suc (ii + k))" if "k < cu - ii" for k
    using that by (simp add: span_def min_def)
  have "stop_free stop (span input ii cu) \<longleftrightarrow>
    (\<forall>k < cu - ii. stop (input ! (ii + k)) \<longrightarrow> depth_of (span input ii (Suc (ii + k))) \<noteq> 0)"
    using assms by (simp add: stop_free_def length_span nth_span take)
  also have "\<dots> \<longleftrightarrow> (\<forall>m. ii \<le> m \<and> m < cu \<and> stop (input ! m) \<longrightarrow> depth_of (span input ii (Suc m)) \<noteq> 0)"
    by (metis add.commute add_less_cancel_right le_add1 le_add_diff_inverse less_diff_conv)
  finally show ?thesis .
qed

lemma maxcut_stop_free:
  assumes "ii \<le> cu" "cu \<le> length input" "length input < 2 ^ 32"
  shows "cu \<le> scan_maxcut stop input ii 0 \<longleftrightarrow> stop_free stop (span input ii cu)"
  using scan_maxcut_iff [of ii ii cu input stop] stop_free_span [of ii cu input stop] assms
  by simp

text \<open>The block loop stops at the first position where the depth returns to zero.\<close>

lemma block_end_iff:
  assumes "ii \<le> e" "e < length input" "length input < 2 ^ 32"
  shows "block_end input e (word_of_int (depth_of (span input ii e))) = (0, e') \<longleftrightarrow>
    e < e' \<and> e' \<le> length input \<and> depth_of (span input ii e') = 0
    \<and> (\<forall>m. e < m \<and> m < e' \<longrightarrow> depth_of (span input ii m) \<noteq> 0)"
  using assms
proof (induction "length input - e" arbitrary: e)
  case (Suc n)
  let ?d = "word_of_int (depth_of (span input ii e)) + word_of_int (c_czet_delta (input ! e)) :: u32"
  have d: "?d = word_of_int (depth_of (span input ii (Suc e)))"
    using Suc.prems by (simp add: word_span_step)
  have z: "?d = 0 \<longleftrightarrow> depth_of (span input ii (Suc e)) = 0"
    unfolding d using Suc.prems by (intro word_span_zero_iff) auto
  have pos: "0 < ?d \<longleftrightarrow> ?d \<noteq> 0"
    by (rule word_neq_0_conv [symmetric])
  show ?case
  proof (cases "?d \<noteq> 0 \<and> Suc e < length input")
    case True
    have "block_end input e (word_of_int (depth_of (span input ii e))) = block_end input (Suc e) ?d"
      using True pos by (subst block_end.simps) (simp add: Let_def)
    moreover have "block_end input (Suc e) ?d = (0, e') \<longleftrightarrow>
      Suc e < e' \<and> e' \<le> length input \<and> depth_of (span input ii e') = 0
      \<and> (\<forall>m. Suc e < m \<and> m < e' \<longrightarrow> depth_of (span input ii m) \<noteq> 0)"
      unfolding d using Suc True by (intro Suc.hyps(1)) auto
    moreover have "(Suc e < e' \<and> (\<forall>m. Suc e < m \<and> m < e' \<longrightarrow> depth_of (span input ii m) \<noteq> 0)) \<longleftrightarrow>
      (e < e' \<and> e' \<noteq> Suc e \<and> (\<forall>m. e < m \<and> m < e' \<longrightarrow> depth_of (span input ii m) \<noteq> 0))"
      using True z by (auto simp: less_Suc_eq) (metis Suc_lessI)
    ultimately show ?thesis
      using True z by auto
  next
    case False
    have "block_end input e (word_of_int (depth_of (span input ii e))) = (?d, Suc e)"
      using False pos by (subst block_end.simps) (auto simp: Let_def)
    moreover have "(?d, Suc e) = (0, e') \<longleftrightarrow>
      e < e' \<and> e' \<le> length input \<and> depth_of (span input ii e') = 0
      \<and> (\<forall>m. e < m \<and> m < e' \<longrightarrow> depth_of (span input ii m) \<noteq> 0)" (is "_ \<longleftrightarrow> ?R")
    proof
      assume "(?d, Suc e) = (0, e')"
      then show ?R
        using z Suc.prems by auto
    next
      assume R: ?R
      have "e' = Suc e"
      proof (rule ccontr)
        assume "e' \<noteq> Suc e"
        with R have "Suc e < e'" by linarith
        with R False z show False by auto
      qed
      with R z show "(?d, Suc e) = (0, e')" by simp
    qed
    ultimately show ?thesis by simp
  qed
qed simp

text \<open>The token sequences a fragment accepts, for a given choice of run terminators.\<close>

definition run_lang :: "(c_token \<Rightarrow> bool) \<Rightarrow> tokens \<Rightarrow> bool" where
  "run_lang stop ts \<longleftrightarrow> ts \<noteq> [] \<and> balanced ts \<and> stop_free stop ts"

definition frag_lang :: "(macro_frag \<Rightarrow> c_token \<Rightarrow> bool) \<Rightarrow> macro_frag \<Rightarrow> tokens \<Rightarrow> bool" where
  "frag_lang stop f ts =
     (if is_run_kind f then run_lang (stop f) ts
      else if f = KIND_IDENT then (\<exists>t. ts = [t] \<and> tk_type t = CPP_NAME)
      else if f = KIND_BLOCK then block_shape ts
      else (\<exists>t. ts = [t] \<and> lit_ok f t))"

lemma run_kind_simps [simp]:
  "is_run_kind KIND_EXPR" "is_run_kind KIND_TYPE" "is_run_kind KIND_STMT" "is_run_kind KIND_TOKENS"
  "\<not> is_run_kind KIND_IDENT" "\<not> is_run_kind KIND_BLOCK" "\<not> is_run_kind KIND_NUMBER"
  "\<not> is_run_kind KIND_STRING" "\<not> is_run_kind KIND_LITERAL"
  by (simp_all add: is_run_kind_def)

lemma span_single_iff:
  assumes "i < j" "j \<le> length xs"
  shows "span xs i j = [x] \<longleftrightarrow> j = Suc i \<and> x = xs ! i"
proof
  assume "span xs i j = [x]"
  then have "length (span xs i j) = 1" by simp
  with assms have "j = Suc i" by (simp add: length_span)
  with \<open>span xs i j = [x]\<close> assms show "j = Suc i \<and> x = xs ! i"
    by (simp add: span_one)
qed (use assms in \<open>simp add: span_one\<close>)

lemma span_take: "i + k \<le> j \<Longrightarrow> take k (span xs i j) = span xs i (i + k)"
  by (simp add: span_def min_def)

lemma block_shape_span:
  assumes "ii < e" "e \<le> length input"
  shows "block_shape (span input ii e) \<longleftrightarrow> tk_type (input ! ii) = CPP_OPEN_BRACE
    \<and> depth_of (span input ii e) = 0
    \<and> (\<forall>m. ii < m \<and> m < e \<longrightarrow> depth_of (span input ii m) \<noteq> 0)"
proof -
  have ne: "span input ii e \<noteq> []" and hd: "hd (span input ii e) = input ! ii"
    using assms by (simp_all add: span_Cons)
  have "(\<forall>k. 0 < k \<and> k < length (span input ii e) \<longrightarrow> depth_of (take k (span input ii e)) \<noteq> 0) \<longleftrightarrow>
    (\<forall>k. 0 < k \<and> k < e - ii \<longrightarrow> depth_of (span input ii (ii + k)) \<noteq> 0)"
    using assms by (intro iff_allI imp_cong) (auto simp: length_span span_take)
  also have "\<dots> \<longleftrightarrow> (\<forall>m. ii < m \<and> m < e \<longrightarrow> depth_of (span input ii m) \<noteq> 0)" (is "?A = ?B")
  proof
    assume A: ?A
    show ?B
    proof (intro allI impI)
      fix m
      assume "ii < m \<and> m < e"
      then show "depth_of (span input ii m) \<noteq> 0"
        using A [rule_format, of "m - ii"] by (simp add: diff_less_mono)
    qed
  qed auto
  finally show ?thesis
    using ne hd by (simp add: block_shape_def)
qed

lemma det_end_iff:
  assumes "\<not> is_run_kind f" "length input < 2 ^ 32"
  shows "det_end f input ii = Some e \<longleftrightarrow> ii < e \<and> e \<le> length input \<and> frag_lang stop f (span input ii e)"
proof (cases "ii < length input")
  case False
  then show ?thesis by (auto simp: det_end_def)
next
  case True
  show ?thesis
  proof (cases "f = KIND_BLOCK")
    case blk: True
    have "block_end input ii 0 = (0, e) \<longleftrightarrow> ii < e \<and> e \<le> length input \<and> depth_of (span input ii e) = 0
      \<and> (\<forall>m. ii < m \<and> m < e \<longrightarrow> depth_of (span input ii m) \<noteq> 0)"
      using block_end_iff [of ii ii input e] True assms by simp
    moreover have "det_end f input ii = Some e \<longleftrightarrow>
      tk_type (input ! ii) = CPP_OPEN_BRACE \<and> block_end input ii 0 = (0, e)"
      using True blk by (auto simp: det_end_def split: prod.splits)
    ultimately show ?thesis
      using True blk block_shape_span [of ii e input] assms(1) by (auto simp: frag_lang_def)
  next
    case False
    have "det_end f input ii = Some e \<longleftrightarrow> e = Suc ii \<and>
       (if f = KIND_IDENT then tk_type (input ! ii) = CPP_NAME else lit_ok f (input ! ii))"
      using True False by (auto simp: det_end_def)
    moreover have "ii < e \<and> e \<le> length input \<and> frag_lang stop f (span input ii e) \<longleftrightarrow> e = Suc ii \<and>
       (if f = KIND_IDENT then tk_type (input ! ii) = CPP_NAME else lit_ok f (input ! ii))"
      using True False assms(1)
      by (auto simp: frag_lang_def span_one span_single_iff)
    ultimately show ?thesis by simp
  qed
qed

lemma det_end_progress:
  assumes "\<not> is_run_kind f" "det_end f input ii = Some e" "length input < 2 ^ 32"
  shows "ii < e" "e \<le> length input"
  using det_end_iff [OF assms(1,3), where stop = undefined] assms(2) by auto

text \<open>What a deterministic fragment captures is balanced; runs are balanced by definition.\<close>

lemma depth_step: "k < length ts \<Longrightarrow> depth_of (take (Suc k) ts) = depth_of (take k ts) + c_czet_delta (ts ! k)"
  by (simp add: take_Suc_conv_app_nth)

lemma block_shape_pos:
  assumes "block_shape ts" "0 < k" "k < length ts"
  shows "0 < depth_of (take k ts)"
  using assms(2,3)
proof (induction k)
  case (Suc k)
  show ?case
  proof (cases "k = 0")
    case True
    have "c_czet_delta (ts ! 0) = 1"
      using assms(1) by (auto simp: block_shape_def hd_conv_nth c_czet_delta_def)
    then show ?thesis
      using True Suc.prems depth_step [of 0 ts] by fastforce
  next
    case False
    then have "0 < depth_of (take k ts)"
      using Suc by simp
    moreover have "depth_of (take (Suc k) ts) \<noteq> 0"
      using assms(1) Suc.prems by (auto simp: block_shape_def)
    ultimately show ?thesis
      using depth_step [of k ts] delta_cases [of "ts ! k"] Suc.prems by auto
  qed
qed simp

lemma block_shape_balanced: "block_shape ts \<Longrightarrow> balanced ts"
  unfolding balanced_def
proof (intro conjI allI impI)
  fix k
  assume *: "block_shape ts" "k \<le> length ts"
  then consider "k = 0" | "0 < k" "k < length ts" | "k = length ts" by linarith
  then show "0 \<le> depth_of (take k ts)"
  proof cases
    case 2
    with * block_shape_pos [of ts k] show ?thesis by simp
  qed (use * in \<open>auto simp: block_shape_def\<close>)
qed (simp add: block_shape_def)

lemma lit_ok_delta:
  "lit_ok KIND_NUMBER t \<Longrightarrow> c_czet_delta t = 0"
  "lit_ok KIND_STRING t \<Longrightarrow> c_czet_delta t = 0"
  "lit_ok KIND_LITERAL t \<Longrightarrow> c_czet_delta t = 0"
  by (auto simp: lit_ok_def c_czet_is_literal_token_def c_czet_delta_def split: cpp_ttype.splits)

lemma frag_lang_balanced: "frag_lang stop f ts \<Longrightarrow> ts \<noteq> [] \<and> balanced ts"
proof (cases f)
  case KIND_IDENT
  then show "frag_lang stop f ts \<Longrightarrow> ?thesis"
    by (auto simp: frag_lang_def intro!: balanced_single simp: c_czet_delta_def)
next
  case KIND_BLOCK
  then show "frag_lang stop f ts \<Longrightarrow> ?thesis"
    by (auto simp: frag_lang_def block_shape_balanced) (simp add: block_shape_def)
qed (auto simp: frag_lang_def run_lang_def intro!: balanced_single dest: lit_ok_delta)

end
