(* ===== verification/Macro_Flat.thy ===== *)
theory Macro_Flat
  imports Macro_Data
begin

text \<open>
  The flat matcher and the flat substitution of the macro engine (\<^verbatim>\<open>c_czet_matcher\<close>,
  \<^verbatim>\<open>c_czet_build_expansion\<close>), used for arms without a pattern tree.  The pattern position is the
  remaining pattern list, the capture array is passed and returned, also when the match fails.
  The declarative counterpart is \<open>flat_lang\<close>; the main result is that the backtracking search
  decides it, and \<open>matcher_captures\<close> that every span it leaves is one its fragment accepts.
\<close>

type_synonym captures = "c_macro_capture list"

definition flat_stop :: "macro_frag \<Rightarrow> c_token \<Rightarrow> bool" where
  "flat_stop f t \<longleftrightarrow> comma_bounded f \<and> tk_type t = CPP_COMMA"

text \<open>\<^verbatim>\<open>for (cut = maxcut; cut > ii; cut--)\<close>, with \<open>n = cut - ii\<close>.\<close>

fun flat_cuts :: "(nat \<Rightarrow> captures \<Rightarrow> bool \<times> captures) \<Rightarrow> tokens \<Rightarrow> nat \<Rightarrow> nat \<Rightarrow> nat
    \<Rightarrow> captures \<Rightarrow> bool \<times> captures" where
  "flat_cuts rest input p ii 0 caps = (False, caps)"
| "flat_cuts rest input p ii (Suc n) caps =
     (if \<not> balanced_run (span input ii (ii + Suc n)) 0 then flat_cuts rest input p ii n caps
      else (case rest (ii + Suc n) (put_span p ii (ii + Suc n) caps) of
              (True, caps') \<Rightarrow> (True, caps')
            | (False, caps') \<Rightarrow> flat_cuts rest input p ii n (put_span p 0 0 caps')))"

fun c_czet_matcher :: "c_macro_param list \<Rightarrow> tokens \<Rightarrow> tokens \<Rightarrow> nat \<Rightarrow> captures
    \<Rightarrow> bool \<times> captures" where
  "c_czet_matcher params [] input ii caps = (ii = length input, caps)"
| "c_czet_matcher params (ptok # ps) input ii caps =
     (if c_czet_is_param_ref ptok then
        (case c_czet_find_param params (tk_value ptok) of
           None \<Rightarrow> (False, caps)
         | Some p \<Rightarrow>
             (case mp_kind (params ! p) of
                CZET_KIND f \<Rightarrow>
                  if is_run_kind f then
                    flat_cuts (\<lambda>cut caps'. c_czet_matcher params ps input cut caps') input p ii
                      (scan_maxcut (flat_stop f) input ii 0 - ii) caps
                  else (case det_end f input ii of
                          None \<Rightarrow> (False, caps)
                        | Some e \<Rightarrow> c_czet_matcher params ps input e (put_span p ii e caps))
              | CZET_KIND_REPEAT f \<Rightarrow>
                  flat_cuts (\<lambda>cut caps'. c_czet_matcher params ps input cut caps') input p ii
                    (scan_maxcut (\<lambda>_. False) input ii 0 - ii) caps))
      else if length input \<le> ii then (False, caps)
      else if \<not> c_czet_tok_eq ptok (input ! ii) then (False, caps)
      else c_czet_matcher params ps input (ii + 1) caps)"

text \<open>The substitution: the output tokens and, in lockstep, the provenance marks.\<close>

fun c_czet_build_expansion :: "c_macro_param list \<Rightarrow> tokens \<Rightarrow> captures \<Rightarrow> tokens
    \<Rightarrow> tokens \<times> bool list" where
  "c_czet_build_expansion params [] caps args = ([], [])"
| "c_czet_build_expansion params (t # ts) caps args =
     (let (out, mark) = c_czet_build_expansion params ts caps args;
          own = (t # out, False # mark)
      in if c_czet_is_param_ref t then
           (case c_czet_find_param params (tk_value t) of
              None \<Rightarrow> own
            | Some p \<Rightarrow>
                let cap = span args (cap_start (caps ! p)) (cap_end (caps ! p))
                in (cap @ out, replicate (length cap) True @ mark))
         else own)"

subsection \<open>The language of a flat pattern\<close>

fun flat_kind_lang :: "czet_macro_kind \<Rightarrow> tokens \<Rightarrow> bool" where
  "flat_kind_lang (CZET_KIND f) ts = frag_lang flat_stop f ts"
| "flat_kind_lang (CZET_KIND_REPEAT f) ts = run_lang (\<lambda>_. False) ts"

primrec flat_lang :: "c_macro_param list \<Rightarrow> tokens \<Rightarrow> tokens \<Rightarrow> bool" where
  "flat_lang params [] ts = (ts = [])"
| "flat_lang params (q # qs) ts =
     (if c_czet_is_param_ref q then
        (case c_czet_find_param params (tk_value q) of
           None \<Rightarrow> False
         | Some p \<Rightarrow> \<exists>ys zs. ts = ys @ zs \<and> flat_kind_lang (mp_kind (params ! p)) ys
                        \<and> flat_lang params qs zs)
      else \<exists>t zs. ts = t # zs \<and> c_czet_tok_eq q t \<and> flat_lang params qs zs)"

definition flat_refs :: "c_macro_param list \<Rightarrow> tokens \<Rightarrow> nat set" where
  "flat_refs params pat =
     {p. \<exists>q \<in> set pat. c_czet_is_param_ref q \<and> c_czet_find_param params (tk_value q) = Some p}"

definition good_capture :: "c_macro_param list \<Rightarrow> tokens \<Rightarrow> captures \<Rightarrow> nat \<Rightarrow> bool" where
  "good_capture params input caps p \<longleftrightarrow>
     cap_start (caps ! p) < cap_end (caps ! p) \<and> cap_end (caps ! p) \<le> length input
     \<and> flat_kind_lang (mp_kind (params ! p)) (span input (cap_start (caps ! p)) (cap_end (caps ! p)))"

subsection \<open>The cut loop tries every admissible cut\<close>

lemma put_span_simps [simp]:
  "length (put_span p i j caps) = length caps"
  "p \<noteq> q \<Longrightarrow> put_span p i j caps ! q = caps ! q"
  "p < length caps \<Longrightarrow> cap_start (put_span p i j caps ! p) = i"
  "p < length caps \<Longrightarrow> cap_end (put_span p i j caps ! p) = j"
  by (simp_all add: put_span_def)

lemma flat_cuts_True:
  assumes "\<And>cu caps. ii < cu \<Longrightarrow> cu \<le> ii + n \<Longrightarrow> fst (rest cu caps) \<longleftrightarrow> R cu"
  shows "fst (flat_cuts rest input p ii n caps) \<longleftrightarrow>
    (\<exists>cu. ii < cu \<and> cu \<le> ii + n \<and> balanced (span input ii cu) \<and> R cu)"
  using assms
proof (induction n arbitrary: caps)
  case (Suc n)
  have IH: "fst (flat_cuts rest input p ii n c) \<longleftrightarrow>
    (\<exists>cu. ii < cu \<and> cu \<le> ii + n \<and> balanced (span input ii cu) \<and> R cu)" for c
    using Suc.prems by (intro Suc.IH) auto
  have step: "(\<exists>cu. ii < cu \<and> cu \<le> ii + Suc n \<and> balanced (span input ii cu) \<and> R cu) \<longleftrightarrow>
    balanced (span input ii (ii + Suc n)) \<and> R (ii + Suc n)
    \<or> (\<exists>cu. ii < cu \<and> cu \<le> ii + n \<and> balanced (span input ii cu) \<and> R cu)"
    by (metis add_Suc_right le_SucI le_Suc_eq less_add_Suc1 order_refl)
  show ?case
  proof (cases "balanced (span input ii (ii + Suc n))")
    case True
    show ?thesis
      using IH True Suc.prems [of "ii + Suc n" "put_span p ii (ii + Suc n) caps"]
      by (subst step)
         (auto simp: balanced_run_balanced split: prod.split bool.split)
  next
    case False
    then show ?thesis
      using IH by (subst step) (simp add: balanced_run_balanced)
  qed
qed simp

lemma cuts_are_run_splits:
  assumes "ii \<le> length input" "length input < 2 ^ 32"
  shows "(\<exists>cu. ii < cu \<and> cu \<le> ii + (scan_maxcut stop input ii 0 - ii)
            \<and> balanced (span input ii cu) \<and> P (drop cu input))
    \<longleftrightarrow> (\<exists>ys zs. drop ii input = ys @ zs \<and> run_lang stop ys \<and> P zs)" (is "?L \<longleftrightarrow> ?R")
proof
  have b: "ii \<le> scan_maxcut stop input ii 0" "scan_maxcut stop input ii 0 \<le> length input"
    using scan_maxcut_bounds [of ii input stop 0] assms by auto
  {
    assume ?L
    then obtain cu where cu: "ii < cu" "cu \<le> scan_maxcut stop input ii 0"
      "balanced (span input ii cu)" "P (drop cu input)"
      using b by auto
    then have "stop_free stop (span input ii cu)"
      using maxcut_stop_free [of ii cu input stop] b assms by simp
    then have "run_lang stop (span input ii cu)"
      using cu b by (auto simp: run_lang_def length_span simp flip: length_greater_0_conv)
    then show ?R
      using cu b drop_span [of ii cu input] by auto
  }
  {
    assume ?R
    then obtain ys zs where yz: "drop ii input = ys @ zs" "run_lang stop ys" "P zs" by blast
    define cu where "cu = ii + length ys"
    have len: "length input = ii + length ys + length zs"
      using arg_cong [OF yz(1), of length] assms(1) by simp
    have ys: "span input ii cu = ys" and zs: "drop cu input = zs"
      unfolding cu_def using drop_eq_append [OF yz(1)] by auto
    have "ii < cu"
      using yz(2) by (auto simp: cu_def run_lang_def)
    moreover have "cu \<le> scan_maxcut stop input ii 0"
      using maxcut_stop_free [of ii cu input stop] yz(2) ys len assms
      by (simp add: cu_def run_lang_def)
    ultimately show ?L
      using b ys zs yz by (intro exI [of _ cu]) (auto simp: run_lang_def)
  }
qed

lemma det_end_split:
  assumes "\<not> is_run_kind f" "ii \<le> length input" "length input < 2 ^ 32"
  shows "(\<exists>e. det_end f input ii = Some e \<and> P (drop e input)) \<longleftrightarrow>
    (\<exists>ys zs. drop ii input = ys @ zs \<and> frag_lang stop f ys \<and> P zs)"
proof
  assume "\<exists>e. det_end f input ii = Some e \<and> P (drop e input)"
  then obtain e where e: "det_end f input ii = Some e" "P (drop e input)" by blast
  then have "ii < e \<and> e \<le> length input \<and> frag_lang stop f (span input ii e)"
    using det_end_iff [OF assms(1,3)] by blast
  then show "\<exists>ys zs. drop ii input = ys @ zs \<and> frag_lang stop f ys \<and> P zs"
    using e drop_span [of ii e input] by auto
next
  assume "\<exists>ys zs. drop ii input = ys @ zs \<and> frag_lang stop f ys \<and> P zs"
  then obtain ys zs where yz: "drop ii input = ys @ zs" "frag_lang stop f ys" "P zs" by blast
  define e where "e = ii + length ys"
  have len: "length input = ii + length ys + length zs"
    using arg_cong [OF yz(1), of length] assms(2) by simp
  have ys: "span input ii e = ys" and zs: "drop e input = zs"
    unfolding e_def using drop_eq_append [OF yz(1)] by auto
  have "ys \<noteq> []"
    using yz(2) frag_lang_balanced by blast
  then have "det_end f input ii = Some e"
    using det_end_iff [OF assms(1,3), of ii e stop] yz(2) ys len by (simp add: e_def)
  then show "\<exists>e. det_end f input ii = Some e \<and> P (drop e input)"
    using zs yz by blast
qed

lemma drop_Cons_iff:
  "(\<exists>t zs. drop ii input = t # zs \<and> Q t \<and> P zs) \<longleftrightarrow>
     ii < length input \<and> Q (input ! ii) \<and> P (drop (Suc ii) input)"
  by (cases "ii < length input") (auto simp: Cons_nth_drop_Suc [symmetric])

text \<open>
  C19. The backtracking search of the flat matcher decides the declarative language of the pattern, from
  any position and whatever the captures hold.
\<close>

theorem matcher_iff:
  assumes "length input < 2 ^ 32" "ii \<le> length input"
  shows "fst (c_czet_matcher params pat input ii caps) \<longleftrightarrow> flat_lang params pat (drop ii input)"
  using assms(2)
proof (induction pat arbitrary: ii caps)
  case Nil
  then show ?case by auto
next
  case (Cons q qs)
  let ?go = "\<lambda>cu c. c_czet_matcher params qs input cu c"
  let ?P = "\<lambda>ts. flat_lang params qs ts"
  have cuts: "fst (flat_cuts ?go input p ii (scan_maxcut stop input ii 0 - ii) caps) \<longleftrightarrow>
    (\<exists>ys zs. drop ii input = ys @ zs \<and> run_lang stop ys \<and> ?P zs)" for p stop
    using flat_cuts_True [of ii "scan_maxcut stop input ii 0 - ii" ?go "\<lambda>cu. ?P (drop cu input)" input p caps]
      Cons.IH scan_maxcut_bounds [of ii input stop 0] Cons.prems
      cuts_are_run_splits [OF Cons.prems assms(1), of stop ?P]
    by fastforce
  have det: "(case det_end f input ii of None \<Rightarrow> False
      | Some e \<Rightarrow> fst (?go e (put_span p ii e caps))) \<longleftrightarrow>
    (\<exists>ys zs. drop ii input = ys @ zs \<and> frag_lang flat_stop f ys \<and> ?P zs)"
    if "\<not> is_run_kind f" for f p
    using det_end_split [OF that Cons.prems assms(1), of ?P flat_stop] Cons.IH
      det_end_progress [OF that _ assms(1)]
    by (auto split: option.split)
  show ?case
  proof (cases "c_czet_is_param_ref q")
    case False
    then show ?thesis
      using Cons.IH Cons.prems drop_Cons_iff [of ii input "c_czet_tok_eq q" ?P] by auto
  next
    case ref: True
    show ?thesis
    proof (cases "c_czet_find_param params (tk_value q)")
      case None
      with ref show ?thesis by simp
    next
      case (Some p)
      show ?thesis
      proof (cases "mp_kind (params ! p)")
        case (CZET_KIND f)
        show ?thesis
        proof (cases "is_run_kind f")
          case True
          then show ?thesis
            using ref Some CZET_KIND cuts [of p "flat_stop f"] by (simp add: frag_lang_def)
        next
          case False
          then show ?thesis
            using ref Some CZET_KIND det [OF False, of p] by (simp split: option.splits)
        qed
      next
        case (CZET_KIND_REPEAT f)
        then show ?thesis
          using ref Some cuts [of p "\<lambda>_. False"] by simp
      qed
    qed
  qed
qed

theorem matcher_iff_witness:
  "fst (c_czet_matcher [] [name_tok ''m''] [name_tok ''m''] 0 []) \<longleftrightarrow> flat_lang [] [name_tok ''m''] (drop 0 [name_tok ''m''])"
  by (rule matcher_iff) simp_all

subsection \<open>Captures\<close>

lemma flat_cuts_length:
  assumes "\<And>cu c. length (snd (rest cu c)) = length c"
  shows "length (snd (flat_cuts rest input p ii n caps)) = length caps"
proof (induction n arbitrary: caps)
  case (Suc n)
  show ?case
    using Suc.IH assms [of "ii + Suc n" "put_span p ii (ii + Suc n) caps"]
    by (auto split: prod.split bool.split)
qed simp

lemma flat_cuts_frame:
  assumes "\<And>cu c. snd (rest cu c) ! q = c ! q" "q \<noteq> p"
  shows "snd (flat_cuts rest input p ii n caps) ! q = caps ! q"
proof (induction n arbitrary: caps)
  case (Suc n)
  show ?case
    using Suc.IH assms(2) assms(1) [of "ii + Suc n" "put_span p ii (ii + Suc n) caps"]
    by (auto split: prod.split bool.split)
qed simp

lemma flat_cuts_success:
  assumes "flat_cuts rest input p ii n caps = (True, caps')"
    and "\<And>cu c. length (snd (rest cu c)) = length c"
  shows "\<exists>cu c. ii < cu \<and> cu \<le> ii + n \<and> balanced (span input ii cu) \<and> length c = length caps
    \<and> rest cu (put_span p ii cu c) = (True, caps')"
  using assms(1)
proof (induction n arbitrary: caps)
  case (Suc n)
  have deeper: "\<exists>cu c. ii < cu \<and> cu \<le> ii + Suc n \<and> balanced (span input ii cu)
    \<and> length c = length caps \<and> rest cu (put_span p ii cu c) = (True, caps')"
    if "flat_cuts rest input p ii n c0 = (True, caps')" "length c0 = length caps" for c0
    using Suc.IH [OF that(1)] that(2) by (metis add_Suc_right le_SucI)
  show ?case
  proof (cases "balanced (span input ii (ii + Suc n))")
    case False
    then show ?thesis
      using Suc.prems deeper [of caps] by (simp add: balanced_run_balanced)
  next
    case True
    obtain b c1 where rest: "rest (ii + Suc n) (put_span p ii (ii + Suc n) caps) = (b, c1)"
      by fastforce
    have "length c1 = length caps"
      using assms(2) [of "ii + Suc n" "put_span p ii (ii + Suc n) caps"] rest by simp
    then show ?thesis
      using Suc.prems True rest deeper [of "put_span p 0 0 c1"]
      by (cases b) (auto simp: balanced_run_balanced intro!: exI [of _ "ii + Suc n"] exI [of _ caps])
  qed
qed simp

lemma flat_refs_Cons:
  "flat_refs params (q # qs) = (if c_czet_is_param_ref q
     then set_option (c_czet_find_param params (tk_value q)) else {}) \<union> flat_refs params qs"
  by (auto simp: flat_refs_def)

lemma matcher_length [simp]:
  "length (snd (c_czet_matcher params pat input ii caps)) = length caps"
  by (induction pat arbitrary: ii caps)
     (auto split: option.split czet_macro_kind.split simp: flat_cuts_length)

lemma matcher_frame:
  "q \<notin> flat_refs params pat \<Longrightarrow> snd (c_czet_matcher params pat input ii caps) ! q = caps ! q"
proof (induction pat arbitrary: ii caps)
  case (Cons x xs)
  then show ?case
    by (auto simp: flat_refs_Cons split: option.split czet_macro_kind.split if_splits
        intro!: flat_cuts_frame)
qed simp

lemma good_capture_put_span:
  assumes "p < length c" "ii < cu" "cu \<le> length input" "flat_kind_lang (mp_kind (params ! p)) (span input ii cu)"
  shows "good_capture params input (put_span p ii cu c) p"
  using assms by (simp add: good_capture_def)

lemma matcher_captures:
  assumes "c_czet_matcher params pat input ii caps = (True, caps')"
    and "length input < 2 ^ 32" "ii \<le> length input" "length caps = length params"
    and "p \<in> flat_refs params pat"
  shows "good_capture params input caps' p"
  using assms(1,3-5)
proof (induction pat arbitrary: ii caps)
  case (Cons x xs)
  have tail: "good_capture params input caps' p"
    if "c_czet_matcher params xs input e c = (True, caps')" "e \<le> length input"
       "length c = length params" "p \<notin> flat_refs params xs \<longrightarrow> good_capture params input c p" for e c
    using Cons.IH [OF that(1,2,3)] that matcher_frame [of p params xs input e c]
    by (cases "p \<in> flat_refs params xs") (auto simp: good_capture_def)
  show ?case
  proof (cases "c_czet_is_param_ref x")
    case False
    with Cons.prems have "c_czet_matcher params xs input (ii + 1) caps = (True, caps')"
      and "p \<in> flat_refs params xs" and "ii < length input"
      by (auto simp: flat_refs_Cons split: if_splits)
    with Cons.prems tail [of "ii + 1" caps] show ?thesis by auto
  next
    case True
    with Cons.prems(1) obtain r where r: "c_czet_find_param params (tk_value x) = Some r"
      by (auto split: option.splits)
    then have rl: "r < length params" using find_param_Some by blast
    have pr: "p \<notin> flat_refs params xs \<longrightarrow> p = r"
      using Cons.prems(4) True r by (auto simp: flat_refs_Cons)
    have run: ?thesis
      if A: "flat_cuts (\<lambda>cu c. c_czet_matcher params xs input cu c) input r ii (scan_maxcut stop input ii 0 - ii) caps
          = (True, caps')" and B: "\<And>ts. run_lang stop ts \<Longrightarrow> flat_kind_lang (mp_kind (params ! r)) ts" for stop
    proof -
      obtain cu c where cu: "ii < cu" "cu \<le> ii + (scan_maxcut stop input ii 0 - ii)"
        "balanced (span input ii cu)" "length c = length caps"
        "c_czet_matcher params xs input cu (put_span r ii cu c) = (True, caps')"
        using flat_cuts_success [OF A] by auto
      have b: "ii \<le> scan_maxcut stop input ii 0" "scan_maxcut stop input ii 0 \<le> length input"
        using scan_maxcut_bounds [of ii input stop 0] Cons.prems(2) by auto
      then have "stop_free stop (span input ii cu)"
        using maxcut_stop_free [of ii cu input stop] cu assms(2) by simp
      then have "run_lang stop (span input ii cu)"
        using cu b by (auto simp: run_lang_def length_span simp flip: length_greater_0_conv)
      then have "good_capture params input (put_span r ii cu c) r"
        using B cu b rl Cons.prems(3) by (intro good_capture_put_span) auto
      then show ?thesis
        using tail [OF cu(5)] cu b Cons.prems(3) pr by auto
    qed
    show ?thesis
    proof (cases "mp_kind (params ! r)")
      case (CZET_KIND f)
      show ?thesis
      proof (cases "is_run_kind f")
        case rk: True
        show ?thesis
          using Cons.prems(1) True r CZET_KIND rk by (intro run [of "flat_stop f"]) (auto simp: frag_lang_def)
      next
        case False
        with Cons.prems(1) True r CZET_KIND obtain e where e: "det_end f input ii = Some e"
          "c_czet_matcher params xs input e (put_span r ii e caps) = (True, caps')"
          by (auto split: option.splits)
        have "ii < e \<and> e \<le> length input \<and> frag_lang flat_stop f (span input ii e)"
          using det_end_iff [OF False assms(2)] e(1) by blast
        moreover from this have "good_capture params input (put_span r ii e caps) r"
          using rl Cons.prems(3) CZET_KIND by (intro good_capture_put_span) auto
        ultimately show ?thesis
          using tail [OF e(2)] Cons.prems(3) pr by auto
      qed
    next
      case (CZET_KIND_REPEAT f)
      then show ?thesis
        using Cons.prems(1) True r by (intro run [of "\<lambda>_. False"]) auto
    qed
  qed
qed (simp add: flat_refs_def)

subsection \<open>The substitution keeps marks in lockstep and provenance honest\<close>

definition body_token :: "c_macro_param list \<Rightarrow> c_token \<Rightarrow> bool" where
  "body_token params t \<longleftrightarrow> \<not> (c_czet_is_param_ref t \<and> c_czet_find_param params (tk_value t) \<noteq> None)"

lemma build_expansion_lockstep:
  "length (fst (c_czet_build_expansion params e caps args))
     = length (snd (c_czet_build_expansion params e caps args))"
  by (induction e) (auto simp: Let_def split: prod.split option.split)

lemma build_expansion_body:
  "map fst (filter (\<lambda>(t, m). \<not> m) (case_prod zip (c_czet_build_expansion params e caps args)))
     = filter (body_token params) e"
proof (induction e)
  case (Cons t ts)
  obtain out mark where r: "c_czet_build_expansion params ts caps args = (out, mark)"
    by fastforce
  have cap: "filter (\<lambda>(t, m). \<not> m) (zip (c @ out) (replicate (length c) True @ mark))
      = filter (\<lambda>(t, m). \<not> m) (zip out mark)" for c
    by (induction c) auto
  show ?case
    using Cons.IH r by (auto simp: Let_def cap body_token_def simp del: zip_append split: option.split)
qed simp

lemma build_expansion_marked:
  "(t, True) \<in> set (case_prod zip (c_czet_build_expansion params e caps args)) \<Longrightarrow> t \<in> set args"
proof (induction e)
  case (Cons x xs)
  obtain out mark where r: "c_czet_build_expansion params xs caps args = (out, mark)"
    by fastforce
  then have l: "length out = length mark"
    using build_expansion_lockstep [of params xs caps args] by simp
  have split: "set (zip (c @ out) (replicate (length c) True @ mark))
      = set (zip c (replicate (length c) True)) \<union> set (zip out mark)" for c
    by (simp add: zip_append)
  have sp: "t \<in> set args" if "(t, b) \<in> set (zip (span args i j) ms)" for i j b ms
    using that set_span [of args i j] by (meson in_set_zipE subsetD)
  show ?case
    using Cons r split sp by (auto simp: Let_def split: if_splits option.splits)
qed simp

end
