(* ===== verification/Macro_Tree.thy ===== *)
theory Macro_Tree
  imports Macro_Flat
begin

text \<open>
  Repetition trees of the macro engine: \<^verbatim>\<open>c_czet_parse_tree\<close> (patterns and expansions with
  \<^verbatim>\<open>$( ... ) sep? op\<close> groups) and \<^verbatim>\<open>c_czet_collect_uses_seq\<close>.  Token ranges \<open>[first, last)\<close> are token
  lists; the parameter vector is threaded, because a pattern records the nesting depth of each
  repeated parameter in it.  A reported diagnostic is a value of \<open>tree_error\<close>.
\<close>

datatype tree_error =
    Stray_dollar
  | Unbalanced_group
  | Missing_operator
  | Empty_matcher
  | Undeclared_param string
  | Repeated_outside string
  | Not_repeated_inside string
  | Inconsistent_depth string

text \<open>\<open>c_czet_collect_uses_seq\<close>: append the parameter indices referenced, without duplicates.\<close>

fun c_czet_collect_uses_node :: "czet_rep_node \<Rightarrow> nat list \<Rightarrow> nat list"
  and c_czet_collect_uses_seq :: "czet_rep_node list \<Rightarrow> nat list \<Rightarrow> nat list" where
  "c_czet_collect_uses_node (CZET_RN_TOK t) out = out"
| "c_czet_collect_uses_node (CZET_RN_CAP p) out = (if p \<in> set out then out else out @ [p])"
| "c_czet_collect_uses_node (CZET_RN_REP kids m s u) out = c_czet_collect_uses_seq kids out"
| "c_czet_collect_uses_seq [] out = out"
| "c_czet_collect_uses_seq (n # ns) out =
     c_czet_collect_uses_seq ns (c_czet_collect_uses_node n out)"

text \<open>The scan for the delimiter that closes a group opened by \<^verbatim>\<open>$(\<close>: content and remainder.\<close>

fun rep_close :: "tokens \<Rightarrow> u32 \<Rightarrow> (tokens \<times> tokens) option" where
  "rep_close [] depth = None"
| "rep_close (t # ts) depth =
     (let depth' = depth + word_of_int (c_czet_delta t) in
      if depth' = 0 then Some ([], ts)
      else map_option (\<lambda>(inner, rest). (t # inner, rest)) (rep_close ts depth'))"

definition is_rep_op :: "c_token \<Rightarrow> bool" where
  "is_rep_op t \<longleftrightarrow> tk_type t = CPP_MULT \<or> tk_type t = CPP_PLUS \<or> tk_type t = CPP_QUERY"

definition rep_mod :: "c_token \<Rightarrow> char" where
  "rep_mod t = (if tk_type t = CPP_MULT then CHR ''*''
                else if tk_type t = CPP_PLUS then CHR ''+'' else CHR ''?'')"

text \<open>The optional separator between \<^verbatim>\<open>)\<close> and the operator.\<close>

fun take_sep :: "tokens \<Rightarrow> c_token \<times> tokens" where
  "take_sep [] = (eof_tok, [])"
| "take_sep (m # ts) = (if is_rep_op m then (eof_tok, m # ts) else (m, ts))"

lemma rep_close_length:
  "rep_close ts d = Some (inner, rest) \<Longrightarrow> length inner + length rest < length ts"
proof (induction ts arbitrary: d inner rest)
  case (Cons t ts)
  then show ?case
    by (fastforce simp: Let_def split: if_splits)
qed simp

lemma take_sep_length: "length (snd (take_sep ts)) \<le> length ts"
  by (cases ts) auto

lemma take_sep_lengthD: "(s, ts') = take_sep ts \<Longrightarrow> length ts' \<le> length ts"
  by (metis take_sep_length snd_conv)

text \<open>A \<open>$name\<close> reference at nesting depth \<open>rdep\<close>: the checks and the depth record.\<close>

definition parse_cap :: "c_macro_param list \<Rightarrow> c_token \<Rightarrow> nat \<Rightarrow> bool
    \<Rightarrow> tree_error + (c_macro_param list \<times> czet_rep_node)" where
  "parse_cap params t rdep is_pattern =
     (case c_czet_find_param params (tk_value t) of
        None \<Rightarrow> if is_pattern then Inl (Undeclared_param (tk_value t))
                else Inr (params, CZET_RN_TOK t)
      | Some p \<Rightarrow>
          let rep = CZET_MACRO_KIND_IS_REPEAT (mp_kind (params ! p)) in
          if is_pattern \<and> rep \<and> rdep = 0 then Inl (Repeated_outside (tk_value t))
          else if \<not> rep \<and> 0 < rdep then Inl (Not_repeated_inside (tk_value t))
          else if is_pattern \<and> rep \<and> 0 < rdep then
            (if mp_rep_depth (params ! p) < 0 then
               Inr (params[p := (params ! p)\<lparr>mp_rep_depth := int rdep\<rparr>], CZET_RN_CAP p)
             else if mp_rep_depth (params ! p) \<noteq> int rdep then
               Inl (Inconsistent_depth (tk_value t))
             else Inr (params, CZET_RN_CAP p))
          else Inr (params, CZET_RN_CAP p))"

function c_czet_parse_tree :: "c_macro_param list \<Rightarrow> tokens \<Rightarrow> nat \<Rightarrow> bool
    \<Rightarrow> tree_error + (c_macro_param list \<times> czet_rep_node list)" where
  "c_czet_parse_tree params [] rdep is_pattern = Inr (params, [])"
| "c_czet_parse_tree params (t # ts) rdep is_pattern =
     (if c_czet_is_rep_start t then
        (case ts of
           [] \<Rightarrow> Inl Stray_dollar
         | open # ts' \<Rightarrow>
             if tk_type open \<noteq> CPP_OPEN_PAREN then Inl Stray_dollar
             else (case rep_close ts' 1 of
                None \<Rightarrow> Inl Unbalanced_group
              | Some (inner, rest) \<Rightarrow>
                  (case c_czet_parse_tree params inner (rdep + 1) is_pattern of
                     Inl e \<Rightarrow> Inl e
                   | Inr (params1, kids) \<Rightarrow>
                       (case take_sep rest of (sep, rest1) \<Rightarrow>
                          (case rest1 of
                             [] \<Rightarrow> Inl Missing_operator
                           | oper # rest2 \<Rightarrow>
                               if \<not> is_rep_op oper then Inl Missing_operator
                               else if kids = [] then Inl Empty_matcher
                               else (case c_czet_parse_tree params1 rest2 rdep is_pattern of
                                       Inl e \<Rightarrow> Inl e
                                     | Inr (params2, nodes) \<Rightarrow>
                                         Inr (params2, CZET_RN_REP kids (rep_mod oper) sep
                                           (c_czet_collect_uses_seq kids []) # nodes)))))))
      else
        (case (if c_czet_is_param_ref t then parse_cap params t rdep is_pattern
               else Inr (params, CZET_RN_TOK t)) of
           Inl e \<Rightarrow> Inl e
         | Inr (params1, node) \<Rightarrow>
             (case c_czet_parse_tree params1 ts rdep is_pattern of
                Inl e \<Rightarrow> Inl e
              | Inr (params2, nodes) \<Rightarrow> Inr (params2, node # nodes))))"
  by pat_completeness auto
termination
  by (relation "measure (\<lambda>(params, ts, rdep, is_pattern). length ts)")
     (auto dest!: rep_close_length take_sep_lengthD)

declare c_czet_parse_tree.simps(2) [simp del]

subsection \<open>What a successful parse guarantees\<close>

text \<open>
  The invariant of a parsed tree at nesting depth \<open>r\<close>: references are in range and used at a
  legal depth, groups are non-empty, carry an operator and list exactly their parameters.
\<close>

fun node_ok :: "bool \<Rightarrow> c_macro_param list \<Rightarrow> nat \<Rightarrow> czet_rep_node \<Rightarrow> bool" where
  "node_ok isp P r (CZET_RN_TOK t) = (isp \<longrightarrow> \<not> c_czet_is_param_ref t)"
| "node_ok isp P r (CZET_RN_CAP p) =
     (p < length P
      \<and> (if CZET_MACRO_KIND_IS_REPEAT (mp_kind (P ! p))
         then isp \<longrightarrow> 0 < r \<and> mp_rep_depth (P ! p) = int r else r = 0))"
| "node_ok isp P r (CZET_RN_REP kids m s u) =
     (kids \<noteq> [] \<and> m \<in> {CHR ''*'', CHR ''+'', CHR ''?''} \<and> u = c_czet_collect_uses_seq kids []
      \<and> list_all (node_ok isp P (Suc r)) kids)"

definition depth_extends :: "c_macro_param list \<Rightarrow> c_macro_param list \<Rightarrow> bool" where
  "depth_extends P P' \<longleftrightarrow> length P' = length P
     \<and> (\<forall>i < length P. mp_name (P' ! i) = mp_name (P ! i) \<and> mp_kind (P' ! i) = mp_kind (P ! i)
          \<and> (0 \<le> mp_rep_depth (P ! i) \<longrightarrow> mp_rep_depth (P' ! i) = mp_rep_depth (P ! i)))"

lemma depth_extends_refl [simp]: "depth_extends P P"
  by (simp add: depth_extends_def)

lemma depth_extends_trans: "depth_extends P Q \<Longrightarrow> depth_extends Q R \<Longrightarrow> depth_extends P R"
  by (auto simp: depth_extends_def)

lemma node_ok_extends: "node_ok isp P r n \<Longrightarrow> depth_extends P P' \<Longrightarrow> node_ok isp P' r n"
proof (induction isp P r n rule: node_ok.induct)
  case (3 isp P r kids m s u)
  then show ?case by (auto simp: list_all_iff)
qed (auto simp: depth_extends_def)

lemma nodes_ok_extends:
  "list_all (node_ok isp P r) ns \<Longrightarrow> depth_extends P P' \<Longrightarrow> list_all (node_ok isp P' r) ns"
  by (auto simp: list_all_iff intro: node_ok_extends)

lemma rep_mod_cases: "is_rep_op t \<Longrightarrow> rep_mod t \<in> {CHR ''*'', CHR ''+'', CHR ''?''}"
  by (auto simp: is_rep_op_def rep_mod_def)

lemma parse_cap_ok:
  assumes "parse_cap P t r isp = Inr (P', n)"
  shows "depth_extends P P' \<and> node_ok isp P' r n"
proof (cases "c_czet_find_param P (tk_value t)")
  case None
  with assms show ?thesis
    by (auto simp: parse_cap_def split: if_splits)
next
  case (Some p)
  then have "p < length P" using find_param_Some by blast
  with assms Some show ?thesis
    by (auto simp: parse_cap_def Let_def depth_extends_def nth_list_update split: if_splits)
qed

lemma parse_tree_ok:
  assumes "c_czet_parse_tree P ts r isp = Inr (P', ns)"
  shows "depth_extends P P' \<and> list_all (node_ok isp P' r) ns"
  using assms
proof (induction P ts r isp arbitrary: P' ns rule: c_czet_parse_tree.induct)
  case (1 P r isp)
  then show ?case by simp
next
  case (2 P t ts r isp)
  show ?case
  proof (cases "c_czet_is_rep_start t")
    case True
    with "2.prems" obtain opn ts' inner rest P1 kids sep oper rest2 nodes where
      ts: "ts = opn # ts'" "tk_type opn = CPP_OPEN_PAREN" "rep_close ts' 1 = Some (inner, rest)"
      and k: "c_czet_parse_tree P inner (r + 1) isp = Inr (P1, kids)"
      and o: "take_sep rest = (sep, oper # rest2)" "is_rep_op oper" "kids \<noteq> []"
      and n: "c_czet_parse_tree P1 rest2 r isp = Inr (P', nodes)"
      and res: "ns = CZET_RN_REP kids (rep_mod oper) sep (c_czet_collect_uses_seq kids []) # nodes"
      by (auto simp: c_czet_parse_tree.simps(2) [of P t] split: list.splits option.splits prod.splits
          sum.splits if_splits)
    have kid: "depth_extends P P1 \<and> list_all (node_ok isp P1 (r + 1)) kids"
      using "2.IH"(1) True ts k by fastforce
    have nod: "depth_extends P1 P' \<and> list_all (node_ok isp P' r) nodes"
      using "2.IH"(2) True ts k o n by fastforce
    show ?thesis
      using kid nod res o(2,3) rep_mod_cases nodes_ok_extends [of isp P1 "Suc r" kids P']
      by (auto intro: depth_extends_trans)
  next
    case False
    let ?one = "if c_czet_is_param_ref t then parse_cap P t r isp else Inr (P, CZET_RN_TOK t)"
    from False "2.prems" obtain P1 node nodes where
      one: "?one = Inr (P1, node)" and n: "c_czet_parse_tree P1 ts r isp = Inr (P', nodes)"
      and res: "ns = node # nodes"
      by (auto simp: c_czet_parse_tree.simps(2) [of P t] split: sum.splits)
    have "depth_extends P P1 \<and> node_ok isp P1 r node"
      using one parse_cap_ok by (auto split: if_splits)
    moreover have "depth_extends P1 P' \<and> list_all (node_ok isp P' r) nodes"
      using "2.IH"(3) [OF False one refl n] by simp
    ultimately show ?thesis
      using res by (auto intro: depth_extends_trans node_ok_extends)
  qed
qed

subsection \<open>The uses of a group\<close>

fun node_params :: "czet_rep_node \<Rightarrow> nat set" where
  "node_params (CZET_RN_TOK t) = {}"
| "node_params (CZET_RN_CAP p) = {p}"
| "node_params (CZET_RN_REP kids m s u) = (\<Union>k \<in> set kids. node_params k)"

lemma collect_uses:
  "set (c_czet_collect_uses_node n out) = set out \<union> node_params n
     \<and> (distinct out \<longrightarrow> distinct (c_czet_collect_uses_node n out))"
  "set (c_czet_collect_uses_seq ns out) = set out \<union> (\<Union>n \<in> set ns. node_params n)
     \<and> (distinct out \<longrightarrow> distinct (c_czet_collect_uses_seq ns out))"
  by (induction n out and ns out rule: c_czet_collect_uses_node_c_czet_collect_uses_seq.induct) auto

subsection \<open>Printing a tree and parsing it back\<close>

definition mod_tok :: "char \<Rightarrow> c_token" where
  "mod_tok m = mk_tok (if m = CHR ''*'' then CPP_MULT else if m = CHR ''+'' then CPP_PLUS
                       else CPP_QUERY) []"

fun print_node :: "c_macro_param list \<Rightarrow> czet_rep_node \<Rightarrow> tokens" where
  "print_node P (CZET_RN_TOK t) = [t]"
| "print_node P (CZET_RN_CAP p) = [name_tok (mp_name (P ! p))]"
| "print_node P (CZET_RN_REP kids m s u) =
     [name_tok ''$'', mk_tok CPP_OPEN_PAREN []] @ concat (map (print_node P) kids)
     @ [mk_tok CPP_CLOSE_PAREN []] @ (if tk_type s = CPP_EOF then [] else [s]) @ [mod_tok m]"

definition print_tree :: "c_macro_param list \<Rightarrow> czet_rep_node list \<Rightarrow> tokens" where
  "print_tree P ns = concat (map (print_node P) ns)"

text \<open>A tree whose printed groups can be delimited: balanced contents, a legal separator.\<close>

fun printable :: "c_macro_param list \<Rightarrow> czet_rep_node \<Rightarrow> bool" where
  "printable P (CZET_RN_TOK t) = True"
| "printable P (CZET_RN_CAP p) = (starts_dollar (mp_name (P ! p)) \<and> mp_name (P ! p) \<noteq> ''$'')"
| "printable P (CZET_RN_REP kids m s u) =
     (balanced (print_tree P kids) \<and> (if tk_type s = CPP_EOF then s = eof_tok else \<not> is_rep_op s)
      \<and> list_all (printable P) kids)"

lemma word_nonzero_bounds: "0 < (d :: int) \<Longrightarrow> d < 2 ^ 32 \<Longrightarrow> (word_of_int d :: u32) \<noteq> 0"
proof
  assume *: "0 < d" "d < 2 ^ 32" "(word_of_int d :: u32) = 0"
  have "uint (word_of_int d :: u32) = d"
    using *(1,2) by (simp add: uint_word_of_int)
  with * show False by simp
qed

lemma rep_close_split:
  assumes "\<And>k. k \<le> length xs \<Longrightarrow> 0 < d + depth_of (take k xs)"
    and "d + depth_of xs = 1" and "c_czet_delta c = -1" and "d + int (length xs) < 2 ^ 32"
  shows "rep_close (xs @ c # rest) (word_of_int d) = Some (xs, rest)"
  using assms
proof (induction xs arbitrary: d)
  case (Cons t ts)
  have step: "(word_of_int d :: u32) + word_of_int (c_czet_delta t) = word_of_int (d + c_czet_delta t)"
    by simp
  have pos: "0 < d + c_czet_delta t"
    using Cons.prems(1) [of 1] by simp
  moreover have "d + c_czet_delta t < 2 ^ 32"
    using Cons.prems(4) delta_cases [of t] by auto
  ultimately have "(word_of_int (d + c_czet_delta t) :: u32) \<noteq> 0"
    by (rule word_nonzero_bounds)
  moreover have "rep_close (ts @ c # rest) (word_of_int (d + c_czet_delta t)) = Some (ts, rest)"
  proof (rule Cons.IH)
    show "0 < d + c_czet_delta t + depth_of (take k ts)" if "k \<le> length ts" for k
      using Cons.prems(1) [of "Suc k"] that by (simp add: add.assoc)
    show "d + c_czet_delta t + depth_of ts = 1" "c_czet_delta c = -1"
      using Cons.prems(2,3) by (simp_all add: add.assoc)
    show "d + c_czet_delta t + int (length ts) < 2 ^ 32"
      using Cons.prems(4) delta_cases [of t] by auto
  qed
  ultimately show ?case
    by (simp add: Let_def del: of_int_add) (simp only: step, simp)
qed simp

lemma rep_close_balanced:
  assumes "balanced xs" "c_czet_delta c = -1" "length xs < 2 ^ 32 - 1"
  shows "rep_close (xs @ c # rest) 1 = Some (xs, rest)"
proof -
  have "0 < 1 + depth_of (take k xs)" if "k \<le> length xs" for k
    using assms(1) that unfolding balanced_def by fastforce
  moreover have "1 + depth_of xs = 1" "1 + int (length xs) < 2 ^ 32"
    using assms by (simp_all add: balanced_def)
  ultimately show ?thesis
    using rep_close_split [of xs 1 c rest] assms(2) by simp
qed

lemma rep_start_param_ref: "c_czet_is_rep_start t \<Longrightarrow> c_czet_is_param_ref t"
  by (simp add: c_czet_is_rep_start_def c_czet_is_param_ref_def starts_dollar_def)

lemma name_tok_simps [simp]:
  "tk_type (name_tok v) = CPP_NAME" "tk_value (name_tok v) = v"
  "tk_type (mk_tok ty w) = ty" "tk_value (mk_tok ty w) = w"
  by (simp_all add: name_tok_def mk_tok_def)

lemma rep_mod_mod_tok:
  "m \<in> {CHR ''*'', CHR ''+'', CHR ''?''} \<Longrightarrow> is_rep_op (mod_tok m) \<and> rep_mod (mod_tok m) = m"
  by (auto simp: is_rep_op_def rep_mod_def mod_tok_def)

lemma print_tree_Cons [simp]: "print_tree P (n # ns) = print_node P n @ print_tree P ns"
  and print_tree_Nil [simp]: "print_tree P [] = []"
  by (simp_all add: print_tree_def)

lemma parse_print_token:
  assumes "node_ok True P r n" "printable P n" "distinct (map mp_name P)"
    and "n = CZET_RN_TOK t \<or> n = CZET_RN_CAP p" "c_czet_parse_tree P rest r True = Inr (P, ns)"
  shows "c_czet_parse_tree P (print_node P n @ rest) r True = Inr (P, n # ns)"
  using assms(4)
proof
  assume "n = CZET_RN_TOK t"
  then show ?thesis
    using assms rep_start_param_ref [of t] by (auto simp: c_czet_parse_tree.simps(2) [of P t])
next
  assume n: "n = CZET_RN_CAP p"
  let ?t = "name_tok (mp_name (P ! p))"
  have p: "p < length P" and nm: "starts_dollar (mp_name (P ! p))" "mp_name (P ! p) \<noteq> ''$''"
    using assms(1,2) n by auto
  obtain q where q: "c_czet_find_param P (mp_name (P ! p)) = Some q"
    using p find_param_None [of P "mp_name (P ! p)"] by (cases "c_czet_find_param P (mp_name (P ! p))") auto
  then have "q = p"
    using find_param_Some [OF q] p assms(3) by (auto simp: distinct_conv_nth)
  then have "parse_cap P ?t r True = Inr (P, CZET_RN_CAP p)"
    using q assms(1) n by (auto simp: parse_cap_def Let_def split: if_splits)
  then show ?thesis
    using assms(5) n nm
    by (simp add: c_czet_parse_tree.simps(2) [of P ?t] c_czet_is_param_ref_def c_czet_is_rep_start_def)
qed

text \<open>
  C18. Printing a well-formed pattern tree and parsing the tokens gives the tree back and leaves the
  parameters as they are.
\<close>

theorem parse_print:
  assumes "distinct (map mp_name P)"
  shows "list_all (node_ok True P r) ns \<Longrightarrow> list_all (printable P) ns
    \<Longrightarrow> length (print_tree P ns) < 2 ^ 32 - 1
    \<Longrightarrow> c_czet_parse_tree P (print_tree P ns) r True = Inr (P, ns)"
proof (induction "size_list size ns" arbitrary: ns r rule: less_induct)
  case less
  show ?case
  proof (cases ns)
    case (Cons n ns')
    have rest: "c_czet_parse_tree P (print_tree P ns') r True = Inr (P, ns')"
      using less.prems Cons by (intro less.hyps) auto
    show ?thesis
    proof (cases n)
      case (CZET_RN_REP kids m s u)
      have ok: "kids \<noteq> []" "m \<in> {CHR ''*'', CHR ''+'', CHR ''?''}" "u = c_czet_collect_uses_seq kids []"
        "list_all (node_ok True P (Suc r)) kids"
        and pr: "balanced (print_tree P kids)" "if tk_type s = CPP_EOF then s = eof_tok else \<not> is_rep_op s"
        "list_all (printable P) kids"
        using less.prems Cons CZET_RN_REP by auto
      have len: "length (print_tree P kids) < 2 ^ 32 - 1"
        using less.prems(3) Cons CZET_RN_REP by (simp add: print_tree_def)
      have kids: "c_czet_parse_tree P (print_tree P kids) (r + 1) True = Inr (P, kids)"
        using ok pr len Cons CZET_RN_REP by (intro less.hyps) auto
      let ?tail = "(if tk_type s = CPP_EOF then [] else [s]) @ mod_tok m # print_tree P ns'"
      have close: "rep_close (print_tree P kids @ mk_tok CPP_CLOSE_PAREN [] # ?tail) 1
          = Some (print_tree P kids, ?tail)"
        using pr len by (intro rep_close_balanced) (auto simp: c_czet_delta_def)
      have sep: "take_sep ?tail = (s, mod_tok m # print_tree P ns')"
        using pr(2) rep_mod_mod_tok [OF ok(2)] by auto
      have shape: "print_tree P ns = name_tok ''$'' # mk_tok CPP_OPEN_PAREN []
          # print_tree P kids @ mk_tok CPP_CLOSE_PAREN [] # ?tail"
        by (simp add: Cons CZET_RN_REP print_tree_def)
      have start: "c_czet_is_rep_start (name_tok ''$'')"
        by (simp add: c_czet_is_rep_start_def)
      show ?thesis
        unfolding shape c_czet_parse_tree.simps(2)
        using start close kids sep rep_mod_mod_tok [OF ok(2)] rest ok Cons CZET_RN_REP by simp
    next
      case (CZET_RN_TOK t)
      then show ?thesis
        using parse_print_token [OF _ _ assms _ rest, of n t] less.prems Cons by simp
    next
      case (CZET_RN_CAP p)
      then show ?thesis
        using parse_print_token [OF _ _ assms _ rest, of n _ p] less.prems Cons by simp
    qed
  qed simp
qed

theorem parse_print_witness:
  "c_czet_parse_tree [] (print_tree [] [CZET_RN_REP [CZET_RN_TOK (name_tok ''x'')] CHR ''*'' (mk_tok CPP_COMMA []) []]) 0 True
     = Inr ([], [CZET_RN_REP [CZET_RN_TOK (name_tok ''x'')] CHR ''*'' (mk_tok CPP_COMMA []) []])"
  by (rule parse_print)
    (simp_all add: print_tree_def is_rep_op_def rep_mod_def c_czet_is_param_ref_def starts_dollar_def balanced_def depth_of_def
      c_czet_delta_def le_Suc_eq)

end
