(* ===== verification/Macro_Match.thy ===== *)
theory Macro_Match
  imports Macro_Tree
begin

text \<open>
  The repetition matcher of the macro engine: \<^verbatim>\<open>c_czet_mt_nodes\<close>, \<^verbatim>\<open>c_czet_matcher_tree\<close> and the
  capture constructors \<^verbatim>\<open>czet_cap_top\<close>, \<^verbatim>\<open>czet_cap_leaf\<close>, \<^verbatim>\<open>czet_cap_wrap\<close>.  The vectors of
  captured nodes live in \<open>ms_store\<close>.  The iteration loop of a group has no bound of its own, but the
  vector \<^verbatim>\<open>pos_after\<close> it fills does: \<^verbatim>\<open>create (8)\<close> reserves eight elements and \<^verbatim>\<open>quick_push\<close> never
  grows it.  A ninth push writes past the vector; the model has no result then, and \<open>None\<close> stands
  for this and nothing else.
  \<open>pat_lang\<close> is the declarative meaning of a pattern tree.
\<close>

record mstate =
  ms_caps :: captures
  ms_store :: "czet_cap_node list list"

type_synonym mresult = "(bool \<times> nat \<times> mstate) option"

definition POS_AFTER_CAP :: nat where
  "POS_AFTER_CAP = 8"

definition tree_stop :: "macro_frag \<Rightarrow> c_token \<Rightarrow> bool" where
  "tree_stop f t \<longleftrightarrow> (comma_bounded f \<and> tk_type t = CPP_COMMA) \<or> tk_type t = CPP_SEMICOLON"

subsection \<open>Capture containers\<close>

definition cap_iters_of :: "mstate \<Rightarrow> nat \<Rightarrow> nat \<times> mstate" where
  "cap_iters_of st p =
     (case cap_iters (ms_caps st ! p) of
        Some a \<Rightarrow> (a, st)
      | None \<Rightarrow> (length (ms_store st),
           st\<lparr>ms_caps := (ms_caps st)[p := (ms_caps st ! p)\<lparr>cap_iters := Some (length (ms_store st))\<rparr>],
              ms_store := ms_store st @ [[]]\<rparr>))"

definition set_cur :: "nat \<Rightarrow> nat \<Rightarrow> mstate \<Rightarrow> mstate" where
  "set_cur p a st = st\<lparr>ms_caps := (ms_caps st)[p := (ms_caps st ! p)\<lparr>cap_cur := Some a\<rparr>]\<rparr>"

definition czet_cap_top :: "mstate \<Rightarrow> nat \<Rightarrow> nat \<times> mstate" where
  "czet_cap_top st p =
     (case cap_iters_of st p of (a, st1) \<Rightarrow>
        (case cap_cur (ms_caps st1 ! p) of
           Some b \<Rightarrow> (b, st1)
         | None \<Rightarrow> (a, set_cur p a st1)))"

definition store_push :: "nat \<Rightarrow> czet_cap_node \<Rightarrow> mstate \<Rightarrow> mstate" where
  "store_push a n st = st\<lparr>ms_store := (ms_store st)[a := ms_store st ! a @ [n]]\<rparr>"

definition czet_cap_leaf :: "mstate \<Rightarrow> nat \<Rightarrow> nat \<Rightarrow> nat \<Rightarrow> mstate" where
  "czet_cap_leaf st p s e =
     (case czet_cap_top st p of (a, st1) \<Rightarrow> store_push a (CapLeaf s e) st1)"

definition czet_cap_wrap :: "mstate \<Rightarrow> nat \<Rightarrow> mstate" where
  "czet_cap_wrap st p =
     (let st1 = (if cap_cur (ms_caps st ! p) = None then snd (czet_cap_top st p) else st);
          k = length (ms_store st1);
          st2 = store_push (the (cap_cur (ms_caps st1 ! p))) (CapInner k) st1
      in set_cur p k (st2\<lparr>ms_store := ms_store st2 @ [[]]\<rparr>))"

subsection \<open>The per-group helpers\<close>

text \<open>\<open>saved\<close> and \<open>saved_len\<close> of the source, one triple \<open>(p, address, length)\<close> per use.\<close>

type_synonym saved = "(nat \<times> nat \<times> nat) list"

fun save_tops :: "nat list \<Rightarrow> mstate \<Rightarrow> saved \<times> mstate" where
  "save_tops [] st = ([], st)"
| "save_tops (p # ps) st =
     (let (a, st1) = czet_cap_top st p;
          l = length (ms_store st1 ! a);
          (sv, st2) = save_tops ps st1
      in ((p, a, l) # sv, st2))"

definition wrap_iter :: "nat list \<Rightarrow> mstate \<Rightarrow> mstate" where
  "wrap_iter uses st = foldl czet_cap_wrap st uses"

fun pop_iter :: "saved \<Rightarrow> mstate \<Rightarrow> mstate" where
  "pop_iter [] st = st"
| "pop_iter ((p, a, l) # sv) st = pop_iter sv (set_cur p a st)"

fun restore_len :: "nat \<Rightarrow> saved \<Rightarrow> mstate \<Rightarrow> mstate" where
  "restore_len t [] st = st"
| "restore_len t ((p, a, l) # sv) st =
     restore_len t sv
       (set_cur p a (if l + t < length (ms_store st ! a)
                     then st\<lparr>ms_store := (ms_store st)[a := take (l + t) (ms_store st ! a)]\<rparr>
                     else st))"

definition upd_span :: "nat \<Rightarrow> nat \<Rightarrow> nat \<Rightarrow> mstate \<Rightarrow> mstate" where
  "upd_span p i j st = st\<lparr>ms_caps := put_span p i j (ms_caps st)\<rparr>"

definition leaf_if :: "bool \<Rightarrow> nat \<Rightarrow> nat \<Rightarrow> nat \<Rightarrow> mstate \<Rightarrow> mstate" where
  "leaf_if rep p s e st = (if rep then czet_cap_leaf st p s e else st)"

subsection \<open>The loops of the matcher\<close>

text \<open>\<^verbatim>\<open>for (cut = maxcut; cut > *ii; cut--)\<close>: the leaf is recorded after the rest has matched.\<close>

fun mt_cuts :: "(nat \<Rightarrow> mstate \<Rightarrow> mresult) \<Rightarrow> tokens \<Rightarrow> nat \<Rightarrow> bool \<Rightarrow> nat \<Rightarrow> nat \<Rightarrow> mstate
    \<Rightarrow> mresult" where
  "mt_cuts rest input p rep ii 0 st = Some (False, ii, st)"
| "mt_cuts rest input p rep ii (Suc n) st =
     (if \<not> balanced_run (span input ii (ii + Suc n)) 0 then mt_cuts rest input p rep ii n st
      else (case rest (ii + Suc n) (upd_span p ii (ii + Suc n) st) of
              None \<Rightarrow> None
            | Some (True, after, st') \<Rightarrow> Some (True, after, leaf_if rep p ii (ii + Suc n) st')
            | Some (False, _, st') \<Rightarrow> mt_cuts rest input p rep ii n (upd_span p 0 0 st')))"

text \<open>
  \<^verbatim>\<open>for (;;)\<close> over the iterations of a group; \<open>pos\<close> is \<^verbatim>\<open>pos_after\<close>, newest position last, and a
  push needs a free slot.
\<close>

function rep_iters :: "(nat \<Rightarrow> mstate \<Rightarrow> mresult) \<Rightarrow> nat list \<Rightarrow> saved \<Rightarrow> c_token \<Rightarrow> tokens
    \<Rightarrow> nat \<Rightarrow> bool \<Rightarrow> nat list \<Rightarrow> mstate \<Rightarrow> (nat list \<times> mstate) option" where
  "rep_iters body uses sv sep input cur need_sep pos st =
     (if need_sep \<and> (length input \<le> cur \<or> \<not> c_czet_tok_eq sep (input ! cur)) then Some (pos, st)
      else
        let probe = (if need_sep then cur + 1 else cur) in
        (case body probe (wrap_iter uses st) of
           None \<Rightarrow> None
         | Some (False, _, st') \<Rightarrow> Some (pos, restore_len (length pos - 1) sv st')
         | Some (True, probe', st') \<Rightarrow>
             if length pos < POS_AFTER_CAP
             then rep_iters body uses sv sep input probe' (tk_type sep \<noteq> CPP_EOF) (pos @ [probe']) (pop_iter sv st')
             else None))"
  by pat_completeness auto
termination
  by (relation "measure (\<lambda>(body, uses, sv, sep, input, cur, need_sep, pos, st). POS_AFTER_CAP - length pos)") auto

declare rep_iters.simps [simp del]

text \<open>Induction over the pushes into the vector, and the three ways in which the loop goes on.\<close>

lemma vector_induct [case_names push]:
  assumes "\<And>pos. (\<And>k. length pos < POS_AFTER_CAP \<Longrightarrow> P (pos @ [k])) \<Longrightarrow> P pos"
  shows "P pos"
  by (induction "POS_AFTER_CAP - length pos" arbitrary: pos rule: less_induct) (auto intro: assms)

lemma rep_iters_again:
  assumes "need_sep \<longrightarrow> cur < length input \<and> c_czet_tok_eq sep (input ! cur)"
    and "body (if need_sep then cur + 1 else cur) (wrap_iter uses st) = Some (True, k, s)"
  shows "rep_iters body uses sv sep input cur need_sep pos st =
    (if length pos < POS_AFTER_CAP
     then rep_iters body uses sv sep input k (tk_type sep \<noteq> CPP_EOF) (pos @ [k]) (pop_iter sv s) else None)"
  using assms by (subst rep_iters.simps) (auto simp: Let_def)

lemma rep_iters_last:
  assumes "need_sep \<longrightarrow> cur < length input \<and> c_czet_tok_eq sep (input ! cur)"
    and "body (if need_sep then cur + 1 else cur) (wrap_iter uses st) = Some (False, k, s)"
  shows "rep_iters body uses sv sep input cur need_sep pos st = Some (pos, restore_len (length pos - 1) sv s)"
  using assms by (subst rep_iters.simps) (auto simp: Let_def)

lemma rep_itersE [consumes 1, case_names no_sep last again]:
  assumes "rep_iters body uses sv sep input cur need_sep pos st = Some (pos', st')"
  obtains "need_sep" "pos' = pos" "st' = st"
  | k s where "need_sep \<longrightarrow> cur < length input \<and> c_czet_tok_eq sep (input ! cur)"
      "body (if need_sep then cur + 1 else cur) (wrap_iter uses st) = Some (False, k, s)"
      "pos' = pos" "st' = restore_len (length pos - 1) sv s"
  | k s where "need_sep \<longrightarrow> cur < length input \<and> c_czet_tok_eq sep (input ! cur)"
      "body (if need_sep then cur + 1 else cur) (wrap_iter uses st) = Some (True, k, s)"
      "length pos < POS_AFTER_CAP"
      "rep_iters body uses sv sep input k (tk_type sep \<noteq> CPP_EOF) (pos @ [k]) (pop_iter sv s) = Some (pos', st')"
proof (cases "need_sep \<and> (length input \<le> cur \<or> \<not> c_czet_tok_eq sep (input ! cur))")
  case True
  with assms that(1) show thesis by (simp add: rep_iters.simps)
next
  case False
  then obtain b k s where "body (if need_sep then cur + 1 else cur) (wrap_iter uses st) = Some (b, k, s)"
    using assms by (subst (asm) rep_iters.simps) (auto simp: Let_def split: option.splits)
  with False assms that(2,3) show thesis
    using rep_iters_again [of need_sep cur input sep body uses st k s sv pos]
      rep_iters_last [of need_sep cur input sep body uses st k s sv pos]
    by (cases b) (auto split: if_splits)
qed

text \<open>\<^verbatim>\<open>for (t = m + 1; t-- > min_it; )\<close>, with \<open>n = t - min_it\<close> iterations left to drop.\<close>

fun rep_back :: "(nat \<Rightarrow> mstate \<Rightarrow> mresult) \<Rightarrow> saved \<Rightarrow> nat list \<Rightarrow> nat \<Rightarrow> nat \<Rightarrow> nat \<Rightarrow> mstate
    \<Rightarrow> mresult" where
  "rep_back rest sv pos min_it ii 0 st = Some (False, ii, st)"
| "rep_back rest sv pos min_it ii (Suc n) st =
     (let t = min_it + n in
      case rest (pos ! t) (restore_len t sv st) of
        None \<Rightarrow> None
      | Some (True, j, st') \<Rightarrow> Some (True, j, st')
      | Some (False, _, st') \<Rightarrow> rep_back rest sv pos min_it ii n st')"

definition rep_opt :: "(nat \<Rightarrow> mstate \<Rightarrow> mresult) \<Rightarrow> (nat \<Rightarrow> mstate \<Rightarrow> mresult) \<Rightarrow> nat list \<Rightarrow> saved
    \<Rightarrow> nat \<Rightarrow> mstate \<Rightarrow> mresult" where
  "rep_opt body rest uses sv ii st =
     (case body ii (wrap_iter uses st) of
        None \<Rightarrow> None
      | Some (False, _, st1) \<Rightarrow> rest ii (restore_len 0 sv st1)
      | Some (True, probe, st1) \<Rightarrow>
          (case rest probe (pop_iter sv st1) of
             None \<Rightarrow> None
           | Some (True, after, st2) \<Rightarrow> Some (True, after, st2)
           | Some (False, _, st2) \<Rightarrow> rest ii (restore_len 0 sv st2)))"

definition rep_loop :: "(nat \<Rightarrow> mstate \<Rightarrow> mresult) \<Rightarrow> (nat \<Rightarrow> mstate \<Rightarrow> mresult) \<Rightarrow> char
    \<Rightarrow> nat list \<Rightarrow> saved \<Rightarrow> c_token \<Rightarrow> tokens \<Rightarrow> nat \<Rightarrow> mstate \<Rightarrow> mresult" where
  "rep_loop body rest m uses sv sep input ii st =
     (case rep_iters body uses sv sep input ii False [ii] st of
        None \<Rightarrow> None
      | Some (pos, st1) \<Rightarrow>
          let min_it = (if m = CHR ''+'' then 1 else 0)
          in rep_back rest sv pos min_it ii (length pos - min_it) st1)"

fun c_czet_mt_nodes :: "c_macro_param list \<Rightarrow> czet_rep_node list \<Rightarrow> tokens \<Rightarrow> nat \<Rightarrow> mstate
    \<Rightarrow> mresult" where
  "c_czet_mt_nodes params [] input ii st = Some (True, ii, st)"
| "c_czet_mt_nodes params (CZET_RN_TOK q # ns) input ii st =
     (if length input \<le> ii \<or> \<not> c_czet_tok_eq q (input ! ii) then Some (False, ii, st)
      else c_czet_mt_nodes params ns input (ii + 1) st)"
| "c_czet_mt_nodes params (CZET_RN_CAP p # ns) input ii st =
     (if length params \<le> p then Some (False, ii, st)
      else
        let kind = mp_kind (params ! p);
            rep = CZET_MACRO_KIND_IS_REPEAT kind;
            base = CZET_MACRO_KIND_BASE kind
        in if is_run_kind base then
             mt_cuts (\<lambda>j st'. c_czet_mt_nodes params ns input j st') input p rep ii
               (scan_maxcut (tree_stop base) input ii 0 - ii) st
           else (case det_end base input ii of
                   None \<Rightarrow> Some (False, ii, st)
                 | Some e \<Rightarrow> c_czet_mt_nodes params ns input e
                               (leaf_if rep p ii e (upd_span p ii e st))))"
| "c_czet_mt_nodes params (CZET_RN_REP kids m sep uses # ns) input ii st =
     (let (sv, st1) = save_tops uses st;
          body = (\<lambda>j st'. c_czet_mt_nodes params kids input j st');
          rest = (\<lambda>j st'. c_czet_mt_nodes params ns input j st')
      in if m = CHR ''?'' then rep_opt body rest uses sv ii st1
         else rep_loop body rest m uses sv sep input ii st1)"

definition c_czet_matcher_tree :: "c_macro_param list \<Rightarrow> czet_rep_node list \<Rightarrow> tokens \<Rightarrow> nat
    \<Rightarrow> mstate \<Rightarrow> (bool \<times> mstate) option" where
  "c_czet_matcher_tree params tree input ii st =
     (case c_czet_mt_nodes params tree input ii st of
        None \<Rightarrow> None
      | Some (True, j, st') \<Rightarrow> Some (j = length input, st')
      | Some (False, _, st') \<Rightarrow> Some (False, st'))"

text \<open>The state the invocation code prepares: cleared capture slots, no containers.\<close>

definition init_mstate :: "nat \<Rightarrow> mstate" where
  "init_mstate n = \<lparr>ms_caps = replicate n zero_capture, ms_store = []\<rparr>"

subsection \<open>The declarative meaning of a pattern tree\<close>

definition mod_ok :: "char \<Rightarrow> nat \<Rightarrow> bool" where
  "mod_ok m n \<longleftrightarrow> (m = CHR ''?'' \<longrightarrow> n \<le> 1) \<and> (m = CHR ''+'' \<longrightarrow> 1 \<le> n)"

definition sep_lang :: "c_token \<Rightarrow> nat \<Rightarrow> tokens \<Rightarrow> bool" where
  "sep_lang sep n w =
     (if n = 0 \<or> tk_type sep = CPP_EOF then w = [] else \<exists>t. w = [t] \<and> c_czet_tok_eq sep t)"

inductive pat_lang :: "c_macro_param list \<Rightarrow> czet_rep_node list \<Rightarrow> tokens \<Rightarrow> bool"
  and iters_lang :: "c_macro_param list \<Rightarrow> czet_rep_node list \<Rightarrow> c_token \<Rightarrow> nat \<Rightarrow> tokens \<Rightarrow> bool"
  for params where
  pat_Nil: "pat_lang params [] []"
| pat_TOK: "c_czet_tok_eq q t \<Longrightarrow> pat_lang params ns ts \<Longrightarrow> pat_lang params (CZET_RN_TOK q # ns) (t # ts)"
| pat_CAP: "p < length params \<Longrightarrow> frag_lang tree_stop (CZET_MACRO_KIND_BASE (mp_kind (params ! p))) ys
    \<Longrightarrow> pat_lang params ns zs \<Longrightarrow> pat_lang params (CZET_RN_CAP p # ns) (ys @ zs)"
| pat_REP: "iters_lang params kids sep n ys \<Longrightarrow> mod_ok m n \<Longrightarrow> pat_lang params ns zs
    \<Longrightarrow> pat_lang params (CZET_RN_REP kids m sep u # ns) (ys @ zs)"
| it_0: "iters_lang params kids sep 0 []"
| it_Suc: "iters_lang params kids sep n ys \<Longrightarrow> sep_lang sep n w \<Longrightarrow> pat_lang params kids zs
    \<Longrightarrow> iters_lang params kids sep (Suc n) (ys @ w @ zs)"

inductive_simps pat_lang_simps [simp]:
  "pat_lang params [] ts"
  "pat_lang params (CZET_RN_TOK q # ns) ts"

subsection \<open>Soundness of the search\<close>

text \<open>A matching continuation advances within the input over a word of \<open>L\<close>.\<close>

definition matches :: "tokens \<Rightarrow> (nat \<Rightarrow> mstate \<Rightarrow> mresult) \<Rightarrow> (tokens \<Rightarrow> bool) \<Rightarrow> bool" where
  "matches input f L \<longleftrightarrow> (\<forall>ii st j st'. ii \<le> length input \<longrightarrow> f ii st = Some (True, j, st') \<longrightarrow>
     ii \<le> j \<and> j \<le> length input \<and> L (span input ii j))"

lemma matchesD:
  assumes "matches input f L" "f ii st = Some (True, j, st')" "ii \<le> length input"
  shows "ii \<le> j" "j \<le> length input" "L (span input ii j)"
  using assms unfolding matches_def by blast+

lemma mt_cuts_sound:
  assumes "matches input rest L" "mt_cuts rest input p rep ii n st = Some (True, j, st')"
    and "ii + n \<le> length input"
  shows "\<exists>cu. ii < cu \<and> cu \<le> ii + n \<and> balanced (span input ii cu)
    \<and> cu \<le> j \<and> j \<le> length input \<and> L (span input cu j)"
  using assms(2,3)
proof (induction n arbitrary: st)
  case (Suc n)
  have weaken: ?case if "mt_cuts rest input p rep ii n s = Some (True, j, st')" for s
    using Suc.IH [OF that] Suc.prems(2) by fastforce
  show ?case
  proof (cases "balanced_run (span input ii (ii + Suc n)) 0")
    case False
    with Suc.prems weaken show ?thesis by auto
  next
    case True
    show ?thesis
    proof (cases "rest (ii + Suc n) (upd_span p ii (ii + Suc n) st)")
      case (Some r)
      obtain b k s where r: "r = (b, k, s)" by (cases r)
      show ?thesis
      proof (cases b)
        case T: True
        with Some r True Suc.prems have "rest (ii + Suc n) (upd_span p ii (ii + Suc n) st) = Some (True, j, s)"
          by simp
        from matchesD [OF assms(1) this] Suc.prems(2) True show ?thesis
          by (intro exI [of _ "ii + Suc n"]) (auto simp: balanced_run_balanced)
      next
        case F: False
        with Some r True Suc.prems weaken show ?thesis by auto
      qed
    qed (use True Suc.prems in simp)
  qed
qed simp

lemma frag_run_I:
  assumes "is_run_kind f" "ii < cu" "cu \<le> scan_maxcut (stop f) input ii 0"
    and "balanced (span input ii cu)" "ii \<le> length input" "length input < 2 ^ 32"
  shows "frag_lang stop f (span input ii cu)"
proof -
  have le: "cu \<le> length input"
    using scan_maxcut_bounds [of ii input "stop f" 0] assms by linarith
  then have "stop_free (stop f) (span input ii cu)" "span input ii cu \<noteq> []"
    using maxcut_stop_free [of ii cu input "stop f"] assms
    by (auto simp: length_span simp flip: length_greater_0_conv)
  with assms show ?thesis
    by (simp add: frag_lang_def run_lang_def)
qed

definition iters_ok :: "(nat \<Rightarrow> tokens \<Rightarrow> bool) \<Rightarrow> tokens \<Rightarrow> nat \<Rightarrow> nat list \<Rightarrow> bool" where
  "iters_ok I input ii pos \<longleftrightarrow> pos \<noteq> [] \<and>
     (\<forall>t < length pos. ii \<le> pos ! t \<and> pos ! t \<le> length input \<and> I t (span input ii (pos ! t)))"

lemma iters_ok_snoc:
  "iters_ok I input ii pos \<Longrightarrow> ii \<le> k \<Longrightarrow> k \<le> length input \<Longrightarrow> I (length pos) (span input ii k)
     \<Longrightarrow> iters_ok I input ii (pos @ [k])"
  by (auto simp: iters_ok_def nth_append less_Suc_eq)

lemma iters_ok_last:
  "iters_ok I input ii pos \<Longrightarrow> ii \<le> last pos \<and> last pos \<le> length input
     \<and> I (length pos - 1) (span input ii (last pos))"
  by (auto simp: iters_ok_def last_conv_nth)

lemma rep_iters_sound:
  assumes "matches input body (pat_lang params kids)"
    and "rep_iters body uses sv sep input cur need_sep pos st = Some (pos', st')"
    and "iters_ok (iters_lang params kids sep) input ii pos" "cur = last pos"
    and "need_sep \<longleftrightarrow> 1 < length pos \<and> tk_type sep \<noteq> CPP_EOF"
  shows "iters_ok (iters_lang params kids sep) input ii pos'"
  using assms(2-)
proof (induction pos arbitrary: cur need_sep st rule: vector_induct)
  case (push pos)
  let ?probe = "if need_sep then cur + 1 else cur"
  have last: "ii \<le> cur" "cur \<le> length input" "iters_lang params kids sep (length pos - 1) (span input ii cur)"
    and ne: "pos \<noteq> []"
    using iters_ok_last [OF push.prems(2)] push.prems(2,3) by (auto simp: iters_ok_def)
  from push.prems(1) show ?case
  proof (cases rule: rep_itersE)
    case (again k s)
    have le: "?probe \<le> length input" using again(1) last by auto
    have k: "?probe \<le> k" "k \<le> length input" "pat_lang params kids (span input ?probe k)"
      using matchesD [OF assms(1) again(2) le] by auto
    have "sep_lang sep (length pos - 1) (span input cur ?probe)"
      using again(1) push.prems(4) ne last
      by (cases "length pos") (auto simp: sep_lang_def span_one)
    from it_Suc [OF last(3) this k(3)]
    have "iters_lang params kids sep (length pos) (span input ii k)"
      using k(1) last ne by (simp add: span_append split: if_splits)
    then have ok: "iters_ok (iters_lang params kids sep) input ii (pos @ [k])"
      using k last by (intro iters_ok_snoc push.prems(2)) (auto split: if_splits)
    from push.IH [OF again(3,4) ok] ne show ?thesis by simp
  qed (use push.prems in auto)
qed

lemma rep_back_sound:
  assumes "matches input rest L" "rep_back rest sv pos min_it ii n st = Some (True, j, st')"
    and "iters_ok I input ii pos" "min_it + n \<le> length pos"
  shows "\<exists>t. min_it \<le> t \<and> t < min_it + n \<and> pos ! t \<le> j \<and> j \<le> length input \<and> L (span input (pos ! t) j)"
  using assms(2-)
proof (induction n arbitrary: st)
  case (Suc n)
  obtain b k s where r: "rest (pos ! (min_it + n)) (restore_len (min_it + n) sv st) = Some (b, k, s)"
    using Suc.prems(1) by (auto simp: Let_def split: option.splits)
  show ?case
  proof (cases b)
    case True
    have "pos ! (min_it + n) \<le> length input"
      using Suc.prems by (simp add: iters_ok_def)
    with r True Suc.prems matchesD [OF assms(1)] show ?thesis
      by (intro exI [of _ "min_it + n"]) (auto simp: Let_def)
  next
    case False
    with r Suc.prems(1) have "rep_back rest sv pos min_it ii n s = Some (True, j, st')"
      by (simp add: Let_def)
    from Suc.IH [OF this] Suc.prems show ?thesis by fastforce
  qed
qed simp

lemma rep_opt_sound:
  assumes "matches input body B" "matches input rest L" "ii \<le> length input"
    and "rep_opt body rest uses sv ii st = Some (True, j, st')"
  shows "j \<le> length input \<and> (ii \<le> j \<and> L (span input ii j)
    \<or> (\<exists>k. ii \<le> k \<and> k \<le> j \<and> B (span input ii k) \<and> L (span input k j)))"
proof -
  obtain b k s where r: "body ii (wrap_iter uses st) = Some (b, k, s)"
    using assms(4) by (auto simp: rep_opt_def split: option.splits)
  show ?thesis
  proof (cases b)
    case False
    with r assms matchesD [OF assms(2)] show ?thesis by (auto simp: rep_opt_def)
  next
    case True
    with r have k: "ii \<le> k" "k \<le> length input" "B (span input ii k)"
      using matchesD [OF assms(1)] assms(3) by auto
    obtain b' k' s' where r': "rest k (pop_iter sv s) = Some (b', k', s')"
      using assms(4) r True by (auto simp: rep_opt_def split: option.splits)
    show ?thesis
    proof (cases b')
      case T: True
      with r r' True assms(4) have "k' = j" by (simp add: rep_opt_def)
      with r' T have "rest k (pop_iter sv s) = Some (True, j, s')" by simp
      from matchesD [OF assms(2) this k(2)] k show ?thesis by blast
    next
      case F: False
      with r r' True assms(4) have "rest ii (restore_len 0 sv s') = Some (True, j, st')"
        by (simp add: rep_opt_def)
      with matchesD [OF assms(2)] assms(3) show ?thesis by blast
    qed
  qed
qed

lemma iters_0: "iters_lang params kids sep 0 ts \<longleftrightarrow> ts = []"
  by (auto elim: iters_lang.cases intro: it_0)

lemma iters_1: "pat_lang params kids zs \<Longrightarrow> iters_lang params kids sep 1 zs"
  using it_Suc [OF it_0, of sep "[]" params kids zs] by (simp add: sep_lang_def)

text \<open>Induction over pattern trees: the nodes of a sequence, the contents of its groups.\<close>

lemma rep_seq_induct [case_names Nil TOK CAP REP]:
  assumes "P []"
    and "\<And>q ns. P ns \<Longrightarrow> P (CZET_RN_TOK q # ns)"
    and "\<And>p ns. P ns \<Longrightarrow> P (CZET_RN_CAP p # ns)"
    and "\<And>kids m sep u ns. P kids \<Longrightarrow> P ns \<Longrightarrow> P (CZET_RN_REP kids m sep u # ns)"
  shows "P ns"
proof (induction "size_list size ns" arbitrary: ns rule: less_induct)
  case less
  show ?case
  proof (cases ns)
    case (Cons n ns')
    then have rest: "P ns'" by (intro less) simp
    then show ?thesis
    proof (cases n)
      case (CZET_RN_REP kids m sep u)
      then have "P kids" using Cons by (intro less) simp
      with rest assms(4) Cons CZET_RN_REP show ?thesis by simp
    qed (use Cons assms(2,3) in auto)
  qed (simp add: assms(1))
qed

lemma mt_cap_matches:
  assumes "length input < 2 ^ 32"
    and "matches input (c_czet_mt_nodes params ns input) (pat_lang params ns)"
  shows "matches input (c_czet_mt_nodes params (CZET_RN_CAP p # ns) input)
    (pat_lang params (CZET_RN_CAP p # ns))"
  unfolding matches_def
proof (intro allI impI)
  fix ii st j st'
  let ?f = "CZET_MACRO_KIND_BASE (mp_kind (params ! p))"
  assume ii: "ii \<le> length input"
    and run: "c_czet_mt_nodes params (CZET_RN_CAP p # ns) input ii st = Some (True, j, st')"
  then have p: "p < length params" by (auto split: if_splits)
  have "\<exists>cu. ii < cu \<and> frag_lang tree_stop ?f (span input ii cu) \<and> cu \<le> j \<and> j \<le> length input
    \<and> pat_lang params ns (span input cu j)"
  proof (cases "is_run_kind ?f")
    case True
    have b: "ii \<le> scan_maxcut (tree_stop ?f) input ii 0" "scan_maxcut (tree_stop ?f) input ii 0 \<le> length input"
      using scan_maxcut_bounds [OF ii] by auto
    have "mt_cuts (c_czet_mt_nodes params ns input) input p (CZET_MACRO_KIND_IS_REPEAT (mp_kind (params ! p)))
        ii (scan_maxcut (tree_stop ?f) input ii 0 - ii) st = Some (True, j, st')"
      using run True p by (simp add: Let_def)
    from mt_cuts_sound [OF assms(2) this] b frag_run_I [OF True, where stop = tree_stop] ii assms(1)
    show ?thesis by fastforce
  next
    case False
    then obtain e s where e: "det_end ?f input ii = Some e"
      "c_czet_mt_nodes params ns input e s = Some (True, j, st')"
      using run p by (auto simp: Let_def split: option.splits)
    then show ?thesis
      using det_end_iff [OF False assms(1), of ii e tree_stop] matchesD [OF assms(2) e(2)] by blast
  qed
  then obtain cu where cu: "ii < cu" "frag_lang tree_stop ?f (span input ii cu)" "cu \<le> j"
    "j \<le> length input" "pat_lang params ns (span input cu j)" by blast
  from pat_CAP [OF p cu(2,5)] cu
  show "ii \<le> j \<and> j \<le> length input \<and> pat_lang params (CZET_RN_CAP p # ns) (span input ii j)"
    by (simp add: span_append)
qed

lemma rep_loop_sound:
  assumes "matches input body (pat_lang params kids)" "matches input rest L" "ii \<le> length input"
    and "rep_loop body rest m uses sv sep input ii st = Some (True, j, st')" "m \<noteq> CHR ''?''"
  shows "\<exists>n k. mod_ok m n \<and> ii \<le> k \<and> k \<le> j \<and> j \<le> length input
    \<and> iters_lang params kids sep n (span input ii k) \<and> L (span input k j)"
proof -
  let ?mi = "if m = CHR ''+'' then 1 else 0 :: nat"
  obtain pos st1 where iter: "rep_iters body uses sv sep input ii False [ii] st = Some (pos, st1)"
    and bk: "rep_back rest sv pos ?mi ii (length pos - ?mi) st1 = Some (True, j, st')"
    using assms(4) by (auto simp: rep_loop_def Let_def split: option.splits)
  have ok: "iters_ok (iters_lang params kids sep) input ii pos"
  proof (rule rep_iters_sound [OF assms(1) iter])
    show "iters_ok (iters_lang params kids sep) input ii [ii]"
      using assms(3) by (simp add: iters_ok_def iters_0)
  qed auto
  then have "1 \<le> length pos" by (cases pos) (auto simp: iters_ok_def)
  then obtain t where "?mi \<le> t" "t < length pos" "pos ! t \<le> j" "j \<le> length input" "L (span input (pos ! t) j)"
    using rep_back_sound [OF assms(2) bk ok] by auto
  with ok assms(5) show ?thesis
    by (intro exI [of _ t] exI [of _ "pos ! t"]) (auto simp: iters_ok_def mod_ok_def)
qed

lemma mt_rep_matches:
  assumes kids: "matches input (c_czet_mt_nodes params kids input) (pat_lang params kids)"
    and rest: "matches input (c_czet_mt_nodes params ns input) (pat_lang params ns)"
  shows "matches input (c_czet_mt_nodes params (CZET_RN_REP kids m sep u # ns) input)
    (pat_lang params (CZET_RN_REP kids m sep u # ns))"
  unfolding matches_def
proof (intro allI impI)
  fix ii st j st'
  let ?body = "c_czet_mt_nodes params kids input" and ?rest = "c_czet_mt_nodes params ns input"
  assume ii: "ii \<le> length input"
    and run: "c_czet_mt_nodes params (CZET_RN_REP kids m sep u # ns) input ii st = Some (True, j, st')"
  obtain sv st1 where sv: "save_tops u st = (sv, st1)" by (cases "save_tops u st")
  have "\<exists>n k. mod_ok m n \<and> ii \<le> k \<and> k \<le> j \<and> j \<le> length input
    \<and> iters_lang params kids sep n (span input ii k) \<and> pat_lang params ns (span input k j)"
  proof (cases "m = CHR ''?''")
    case True
    with run sv have "rep_opt ?body ?rest u sv ii st1 = Some (True, j, st')" by simp
    from rep_opt_sound [OF kids rest ii this] show ?thesis
    proof (elim conjE disjE exE)
      assume "j \<le> length input" "ii \<le> j" "pat_lang params ns (span input ii j)"
      then show ?thesis
        by (intro exI [of _ 0] exI [of _ ii]) (simp add: iters_0 mod_ok_def True)
    next
      fix k
      assume "j \<le> length input" "ii \<le> k" "k \<le> j" "pat_lang params kids (span input ii k)"
        "pat_lang params ns (span input k j)"
      then show ?thesis
        using iters_1 by (intro exI [of _ 1] exI [of _ k]) (simp add: mod_ok_def True)
    qed
  next
    case False
    with run sv have "rep_loop ?body ?rest m u sv sep input ii st1 = Some (True, j, st')" by simp
    from rep_loop_sound [OF kids rest ii this False] show ?thesis .
  qed
  then obtain n k where "mod_ok m n" "ii \<le> k" "k \<le> j" "j \<le> length input"
    "iters_lang params kids sep n (span input ii k)" "pat_lang params ns (span input k j)" by blast
  with pat_REP [of params kids sep n "span input ii k" m ns "span input k j" u]
  show "ii \<le> j \<and> j \<le> length input \<and> pat_lang params (CZET_RN_REP kids m sep u # ns) (span input ii j)"
    by (simp add: span_append)
qed

lemma mt_nodes_matches:
  assumes "length input < 2 ^ 32"
  shows "matches input (c_czet_mt_nodes params ns input) (pat_lang params ns)"
proof (induction ns rule: rep_seq_induct)
  case (TOK q ns)
  show ?case
    unfolding matches_def
  proof (intro allI impI)
    fix ii st j st'
    assume "c_czet_mt_nodes params (CZET_RN_TOK q # ns) input ii st = Some (True, j, st')"
    then have ok: "ii < length input" "c_czet_tok_eq q (input ! ii)"
      and run: "c_czet_mt_nodes params ns input (Suc ii) st = Some (True, j, st')"
      by (auto split: if_splits)
    with matchesD [OF TOK run]
    show "ii \<le> j \<and> j \<le> length input \<and> pat_lang params (CZET_RN_TOK q # ns) (span input ii j)"
      by (simp add: span_Cons)
  qed
next
  case Nil
  then show ?case by (simp add: matches_def)
qed (rule mt_cap_matches [OF assms] mt_rep_matches; assumption)+

lemma matcher_tree_sound:
  assumes "length input < 2 ^ 32" "c_czet_matcher_tree params tree input 0 st = Some (True, st')"
  shows "pat_lang params tree input"
proof -
  obtain j where "c_czet_mt_nodes params tree input 0 st = Some (True, j, st')" "j = length input"
    using assms(2) by (auto simp: c_czet_matcher_tree_def split: option.splits bool.splits)
  then show ?thesis
    using matchesD(3) [OF mt_nodes_matches [OF assms(1)]] by fastforce
qed

subsection \<open>Iterations that fit the vector\<close>

fun nullable :: "czet_rep_node \<Rightarrow> bool" where
  "nullable (CZET_RN_TOK q) = False"
| "nullable (CZET_RN_CAP p) = False"
| "nullable (CZET_RN_REP kids m sep u) = (m \<noteq> CHR ''+'' \<or> list_all nullable kids)"

text \<open>
  A group is never asked for more iterations than \<^verbatim>\<open>pos_after\<close> has slots left for: with a separator it
  iterates once more than there are separators in the input, without one every iteration has to
  consume a token.
\<close>

definition group_fits :: "czet_rep_node list \<Rightarrow> c_token \<Rightarrow> tokens \<Rightarrow> bool" where
  "group_fits kids sep input =
     (if tk_type sep = CPP_EOF then \<not> list_all nullable kids \<and> length input < POS_AFTER_CAP
      else length (filter (c_czet_tok_eq sep) input) + 1 < POS_AFTER_CAP)"

fun fits :: "tokens \<Rightarrow> czet_rep_node \<Rightarrow> bool" where
  "fits input (CZET_RN_TOK q) = True"
| "fits input (CZET_RN_CAP p) = True"
| "fits input (CZET_RN_REP kids m sep u) =
     ((m = CHR ''?'' \<or> group_fits kids sep input) \<and> list_all (fits input) kids)"

lemma pat_lang_nullable:
  "pat_lang params ns ts \<Longrightarrow> ts = [] \<longrightarrow> list_all nullable ns"
  "iters_lang params kids sep n ts \<Longrightarrow> ts = [] \<and> 0 < n \<longrightarrow> list_all nullable kids"
proof (induction rule: pat_lang_iters_lang.inducts)
  case (pat_CAP p ys ns zs)
  then show ?case using frag_lang_balanced by auto
qed (auto simp: mod_ok_def)

definition returns :: "tokens \<Rightarrow> (nat \<Rightarrow> mstate \<Rightarrow> mresult) \<Rightarrow> bool" where
  "returns input f \<longleftrightarrow> (\<forall>ii st. ii \<le> length input \<longrightarrow> f ii st \<noteq> None)"

lemma returnsE:
  assumes "returns input f" "ii \<le> length input"
  obtains b k s where "f ii st = Some (b, k, s)"
  using assms unfolding returns_def by (metis not_None_eq prod_cases3)

lemma mt_cuts_returns:
  assumes "returns input rest" "ii + n \<le> length input"
  shows "mt_cuts rest input p rep ii n st \<noteq> None"
  using assms(2)
proof (induction n arbitrary: st)
  case (Suc n)
  obtain b k s where "rest (ii + Suc n) (upd_span p ii (ii + Suc n) st) = Some (b, k, s)"
    using returnsE [OF assms(1) Suc.prems] by blast
  with Suc show ?case by (cases b) auto
qed simp

text \<open>How many more iterations the rest of the input can hold.\<close>

definition iters_left :: "c_token \<Rightarrow> tokens \<Rightarrow> nat \<Rightarrow> bool \<Rightarrow> nat" where
  "iters_left sep input cur need_sep =
     (if tk_type sep = CPP_EOF then length input - cur
      else length (filter (c_czet_tok_eq sep) (drop cur input)) + (if need_sep then 0 else 1))"

lemma filter_drop_le: "i \<le> j \<Longrightarrow> length (filter P (drop j xs)) \<le> length (filter P (drop i xs))"
  using drop_drop [of "j - i" i xs] by (metis append_take_drop_id filter_append le_add2 le_add_diff_inverse2 length_append)

lemma iters_left_step:
  assumes "need_sep \<longrightarrow> cur < length input \<and> c_czet_tok_eq sep (input ! cur)"
    and "(if need_sep then cur + 1 else cur) \<le> k" "k \<le> length input"
    and "tk_type sep = CPP_EOF \<longrightarrow> \<not> need_sep \<and> cur \<noteq> k"
  shows "iters_left sep input k (tk_type sep \<noteq> CPP_EOF) < iters_left sep input cur need_sep"
proof (cases "tk_type sep = CPP_EOF")
  case False
  show ?thesis
  proof (cases need_sep)
    case True
    with assms(1) have "filter (c_czet_tok_eq sep) (drop cur input) = input ! cur # filter (c_czet_tok_eq sep) (drop (cur + 1) input)"
      by (simp add: Cons_nth_drop_Suc [symmetric])
    with False True assms(2) filter_drop_le [of "cur + 1" k] show ?thesis by (simp add: iters_left_def less_Suc_eq_le)
  qed (use False assms(2) filter_drop_le [of cur k] in \<open>simp add: iters_left_def less_Suc_eq_le\<close>)
qed (use assms in \<open>auto simp: iters_left_def\<close>)

lemma rep_iters_returns:
  assumes "returns input body" "matches input body L" "cur \<le> length input"
    and "tk_type sep \<noteq> CPP_EOF \<or> (\<forall>ts. L ts \<longrightarrow> ts \<noteq> [])"
    and "need_sep \<longrightarrow> tk_type sep \<noteq> CPP_EOF"
    and "length pos + iters_left sep input cur need_sep \<le> POS_AFTER_CAP"
  shows "rep_iters body uses sv sep input cur need_sep pos st \<noteq> None"
  using assms(3,5,6)
proof (induction pos arbitrary: cur need_sep st rule: vector_induct)
  case (push pos)
  let ?probe = "if need_sep then cur + 1 else cur"
  show ?case
  proof (cases "need_sep \<and> (length input \<le> cur \<or> \<not> c_czet_tok_eq sep (input ! cur))")
    case go: False
    then have le: "?probe \<le> length input" using push.prems(1) by auto
    obtain b k s where r: "body ?probe (wrap_iter uses st) = Some (b, k, s)"
      using returnsE [OF assms(1) le] by blast
    show ?thesis
    proof (cases b)
      case True
      have k: "?probe \<le> k" "k \<le> length input" "L (span input ?probe k)"
        using matchesD [OF assms(2), of ?probe _ k s] r le True by auto
      have "iters_left sep input k (tk_type sep \<noteq> CPP_EOF) < iters_left sep input cur need_sep"
        using go k assms(4) push.prems(2) by (intro iters_left_step) auto
      then have room: "length pos < POS_AFTER_CAP"
        "length (pos @ [k]) + iters_left sep input k (tk_type sep \<noteq> CPP_EOF) \<le> POS_AFTER_CAP"
        using push.prems(3) by auto
      have "rep_iters body uses sv sep input cur need_sep pos st
        = rep_iters body uses sv sep input k (tk_type sep \<noteq> CPP_EOF) (pos @ [k]) (pop_iter sv s)"
        using rep_iters_again [of need_sep cur input sep body uses st k s sv pos] go r True room(1) by auto
      with push.IH [OF room(1) k(2) _ room(2)] show ?thesis by simp
    qed (use go r in \<open>auto simp: rep_iters.simps [of _ _ _ _ _ cur] Let_def\<close>)
  qed (simp add: rep_iters.simps)
qed

lemma rep_back_returns:
  assumes "returns input rest" "iters_ok I input ii pos" "min_it + n \<le> length pos"
  shows "rep_back rest sv pos min_it ii n st \<noteq> None"
  using assms(3)
proof (induction n arbitrary: st)
  case (Suc n)
  then have "pos ! (min_it + n) \<le> length input" using assms(2) by (simp add: iters_ok_def)
  then obtain b k s where "rest (pos ! (min_it + n)) (restore_len (min_it + n) sv st) = Some (b, k, s)"
    using returnsE [OF assms(1)] by blast
  with Suc show ?case by (cases b) (auto simp: Let_def)
qed simp

lemma rep_opt_returns:
  assumes "returns input body" "returns input rest" "matches input body L" "ii \<le> length input"
  shows "rep_opt body rest uses sv ii st \<noteq> None"
proof -
  obtain b k s where r: "body ii (wrap_iter uses st) = Some (b, k, s)"
    using returnsE [OF assms(1,4)] by blast
  have rest: "rest ii s' \<noteq> None" for s' using assms(2,4) by (simp add: returns_def)
  show ?thesis
  proof (cases b)
    case True
    with r have "k \<le> length input" using matchesD [OF assms(3)] assms(4) by auto
    then obtain b' k' s' where "rest k (pop_iter sv s) = Some (b', k', s')"
      using returnsE [OF assms(2)] by blast
    with r True rest show ?thesis by (cases b') (auto simp: rep_opt_def)
  qed (use r rest in \<open>auto simp: rep_opt_def\<close>)
qed

lemma rep_loop_returns:
  assumes "returns input body" "returns input rest" "matches input body (pat_lang params kids)"
    and "ii \<le> length input" "group_fits kids sep input"
  shows "rep_loop body rest m uses sv sep input ii st \<noteq> None"
proof -
  have prog: "tk_type sep \<noteq> CPP_EOF \<or> (\<forall>ts. pat_lang params kids ts \<longrightarrow> ts \<noteq> [])"
    using assms(5) pat_lang_nullable(1) by (auto simp: group_fits_def split: if_splits)
  have "length [ii] + iters_left sep input ii False \<le> POS_AFTER_CAP"
    using assms(5) filter_drop_le [of 0 ii "c_czet_tok_eq sep" input]
    by (auto simp: group_fits_def iters_left_def split: if_splits)
  then have "rep_iters body uses sv sep input ii False [ii] st \<noteq> None"
    using assms(4) by (intro rep_iters_returns [OF assms(1,3) _ prog]) auto
  then obtain pos st1 where it: "rep_iters body uses sv sep input ii False [ii] st = Some (pos, st1)"
    by auto
  have ok: "iters_ok (iters_lang params kids sep) input ii pos"
    using assms(4) by (intro rep_iters_sound [OF assms(3) it]) (auto simp: iters_ok_def iters_0)
  then have "1 \<le> length pos" by (cases pos) (auto simp: iters_ok_def)
  with it rep_back_returns [OF assms(2) ok] show ?thesis
    by (auto simp: rep_loop_def Let_def)
qed

lemma mt_nodes_returns:
  assumes "length input < 2 ^ 32"
  shows "list_all (fits input) ns \<Longrightarrow> returns input (c_czet_mt_nodes params ns input)"
proof (induction ns rule: rep_seq_induct)
  case (CAP p ns)
  show ?case
    unfolding returns_def
  proof (intro allI impI)
    fix ii st
    let ?f = "CZET_MACRO_KIND_BASE (mp_kind (params ! p))"
    assume ii: "ii \<le> length input"
    have rest: "returns input (c_czet_mt_nodes params ns input)" using CAP by simp
    have "mt_cuts (c_czet_mt_nodes params ns input) input p r ii
        (scan_maxcut (tree_stop ?f) input ii 0 - ii) st \<noteq> None" for r
      using scan_maxcut_bounds [OF ii, of "tree_stop ?f" 0] by (intro mt_cuts_returns [OF rest]) auto
    moreover have "c_czet_mt_nodes params ns input e s \<noteq> None"
      if "det_end ?f input ii = Some e" "\<not> is_run_kind ?f" for e s
      using det_end_progress [OF that(2,1) assms(1)] rest by (simp add: returns_def)
    ultimately show "c_czet_mt_nodes params (CZET_RN_CAP p # ns) input ii st \<noteq> None"
      by (auto simp: Let_def split: option.split)
  qed
next
  case (REP kids m sep u ns)
  then have "returns input (c_czet_mt_nodes params kids input)"
    "returns input (c_czet_mt_nodes params ns input)" by auto
  note ret = this mt_nodes_matches [OF assms(1), of params kids]
  show ?case
    unfolding returns_def
  proof (intro allI impI)
    fix ii st
    assume ii: "ii \<le> length input"
    obtain sv st1 where sv: "save_tops u st = (sv, st1)" by (cases "save_tops u st")
    show "c_czet_mt_nodes params (CZET_RN_REP kids m sep u # ns) input ii st \<noteq> None"
    proof (cases "m = CHR ''?''")
      case True
      then show ?thesis using rep_opt_returns [OF ret ii] sv by simp
    next
      case False
      then show ?thesis
        using rep_loop_returns [OF ret ii] REP.prems sv by simp
    qed
  qed
qed (auto simp: returns_def)

subsection \<open>Groups that overflow the vector\<close>

lemma rep_iters_overflows:
  assumes "tk_type sep = CPP_EOF" "\<And>st b k s. body cur st = Some (b, k, s) \<Longrightarrow> b \<and> k = cur"
  shows "rep_iters body uses sv sep input cur False pos st = None"
proof (induction pos arbitrary: st rule: vector_induct)
  case (push pos)
  show ?case
  proof (cases "body cur (wrap_iter uses st)")
    case (Some r)
    obtain b k s where r: "r = (b, k, s)" by (cases r)
    then have "b" "k = cur" using assms(2) Some by auto
    with Some r push.IH assms(1) rep_iters_again [of False cur input sep body uses st cur s sv pos] show ?thesis
      by simp
  qed (simp add: rep_iters.simps)
qed

definition hits :: "(nat \<Rightarrow> mstate \<Rightarrow> mresult) \<Rightarrow> bool" where
  "hits f \<longleftrightarrow> (\<forall>st b k s. f 0 st = Some (b, k, s) \<longrightarrow> b \<and> k = 0)"

lemma hitsD: "hits f \<Longrightarrow> f 0 st = Some (b, k, s) \<Longrightarrow> b \<and> k = 0"
  unfolding hits_def by blast

lemma rep_iters_grows:
  "rep_iters body uses sv sep input cur need_sep pos st = Some (pos', st') \<Longrightarrow>
     \<exists>ks. pos' = pos @ ks"
proof (induction pos arbitrary: cur need_sep st rule: vector_induct)
  case (push pos)
  from push.prems show ?case
    by (cases rule: rep_itersE) (use push.IH in fastforce)+
qed

lemma rep_iters_first:
  assumes "hits body" "rep_iters body uses sv sep input 0 False [0] st = Some (pos, st')"
  shows "2 \<le> length pos"
  using assms(2)
proof (cases rule: rep_itersE)
  case (again k s)
  then show ?thesis using rep_iters_grows [OF again(4)] by auto
qed (use assms(1) in \<open>auto dest: hitsD\<close>)

lemma rep_back_hits:
  assumes "hits rest" "pos ! (min_it + n) = 0" "rep_back rest sv pos min_it ii (Suc n) st = Some (b, k, s)"
  shows "b \<and> k = 0"
proof -
  obtain b' k' s' where "rest 0 (restore_len (min_it + n) sv st) = Some (b', k', s')"
    using assms(2,3) by (auto simp: Let_def split: option.splits)
  with hitsD [OF assms(1) this] show ?thesis
    using assms by (auto simp: Let_def)
qed

lemma hits_opt:
  assumes "hits rest" "matches [] body L" "rep_opt body rest uses sv 0 st = Some (b, k, s)"
  shows "b \<and> k = 0"
proof -
  obtain b1 k1 s1 where r: "body 0 (wrap_iter uses st) = Some (b1, k1, s1)"
    using assms(3) by (auto simp: rep_opt_def split: option.splits)
  show "b \<and> k = 0"
  proof (cases b1)
    case True
    with r have "k1 = 0" using matchesD(2) [OF assms(2)] by fastforce
    with r True assms(3) show ?thesis
      by (auto simp: rep_opt_def split: option.splits bool.splits dest!: hitsD [OF assms(1)])
  qed (use r assms(3) in \<open>auto simp: rep_opt_def dest: hitsD [OF assms(1)]\<close>)
qed

lemma hits_loop:
  assumes "hits rest" "matches [] body (pat_lang params kids)" "m \<noteq> CHR ''+'' \<or> hits body"
    and "rep_loop body rest m uses sv sep [] 0 st = Some (b, k, s)"
  shows "b \<and> k = 0"
proof -
  let ?mi = "if m = CHR ''+'' then 1 else 0 :: nat"
  obtain pos st1 where it: "rep_iters body uses sv sep [] 0 False [0] st = Some (pos, st1)"
    and bk: "rep_back rest sv pos ?mi 0 (length pos - ?mi) st1 = Some (b, k, s)"
    using assms(4) by (auto simp: rep_loop_def Let_def split: option.splits)
  have "iters_ok (iters_lang params kids sep) [] 0 pos"
    by (intro rep_iters_sound [OF assms(2) it]) (auto simp: iters_ok_def iters_0)
  then have zero: "pos ! t = 0" if "t < length pos" for t
    using that by (simp add: iters_ok_def)
  have "?mi < length pos"
    using rep_iters_first [OF _ it] rep_iters_grows [OF it] assms(3) by auto
  then obtain n where n: "length pos - ?mi = Suc n" by (metis Suc_diff_Suc)
  then have "pos ! (?mi + n) = 0" by (intro zero) simp
  from rep_back_hits [OF assms(1) this bk [unfolded n]] show ?thesis .
qed

text \<open>A nullable sequence cannot fail on the empty input: it matches, or a group inside it overflows.\<close>

lemma nullable_on_empty:
  "list_all nullable ns \<Longrightarrow> hits (c_czet_mt_nodes params ns [])"
proof (induction ns rule: rep_seq_induct)
  case (REP kids m sep u ns)
  have rest: "hits (c_czet_mt_nodes params ns [])" using REP by simp
  have kids: "m \<noteq> CHR ''+'' \<or> hits (c_czet_mt_nodes params kids [])" using REP by auto
  have match: "matches [] (c_czet_mt_nodes params kids []) (pat_lang params kids)"
    by (rule mt_nodes_matches) simp
  show ?case
    unfolding hits_def
  proof (intro allI impI)
    fix st b k s
    assume run: "c_czet_mt_nodes params (CZET_RN_REP kids m sep u # ns) [] 0 st = Some (b, k, s)"
    obtain sv st1 where sv: "save_tops u st = (sv, st1)" by (cases "save_tops u st")
    show "b \<and> k = 0"
    proof (cases "m = CHR ''?''")
      case True
      then show ?thesis
        using hits_opt [OF rest match, of u sv st1 b k s] run sv by simp
    next
      case False
      then show ?thesis using hits_loop [OF rest match kids, of u sv sep st1 b k s] run sv by simp
    qed
  qed
qed (auto simp: hits_def)

text \<open>
  A repetition without separator whose content matches nothing never leaves its loop: on the empty
  input the iterations go on until the vector overflows.
\<close>

lemma nullable_group_overflows:
  assumes "list_all nullable kids" "tk_type sep = CPP_EOF" "m \<noteq> CHR ''?''"
  shows "c_czet_mt_nodes params (CZET_RN_REP kids m sep u # ns) [] 0 st = None"
proof -
  have "rep_iters (c_czet_mt_nodes params kids []) u sv sep [] 0 False [0] st1 = None" for sv st1
    using nullable_on_empty [OF assms(1), of params] assms(2)
    by (intro rep_iters_overflows) (auto simp: hits_def)
  with assms(3) show ?thesis
    by (simp add: rep_loop_def split: prod.split)
qed

text \<open>Elements, each in the language of a fragment that stops at commas, joined by commas.\<close>

fun join_sep :: "c_token \<Rightarrow> tokens list \<Rightarrow> tokens" where
  "join_sep sep [] = []"
| "join_sep sep (w # ws) = w @ concat (map (\<lambda>v. sep # v) ws)"

lemma span_middle: "span (pre @ w @ post) (length pre) (length pre + length w) = w"
  by (simp add: span_def)

lemma element_maxcut:
  assumes "run_lang (tree_stop f) w" "comma_bounded f" "post = [] \<or> tk_type (hd post) = CPP_COMMA"
    and "length (pre @ w @ post) < 2 ^ 32"
  shows "scan_maxcut (tree_stop f) (pre @ w @ post) (length pre) 0 = length pre + length w"
proof (rule antisym)
  let ?input = "pre @ w @ post" and ?e = "length pre + length w"
  have w: "stop_free (tree_stop f) w" "balanced w" using assms(1) by (auto simp: run_lang_def)
  show "?e \<le> scan_maxcut (tree_stop f) ?input (length pre) 0"
    using w(1) assms(4) maxcut_stop_free [of "length pre" ?e ?input] by (simp add: span_middle)
  show "scan_maxcut (tree_stop f) ?input (length pre) 0 \<le> ?e"
  proof (rule ccontr)
    assume "\<not> ?thesis"
    moreover have "scan_maxcut (tree_stop f) ?input (length pre) 0 \<le> length ?input"
      using scan_maxcut_bounds [of "length pre" ?input] by simp
    ultimately obtain c qs where post: "post = c # qs" "Suc ?e \<le> scan_maxcut (tree_stop f) ?input (length pre) 0"
      by (cases post) auto
    then have "stop_free (tree_stop f) (span ?input (length pre) (Suc ?e))"
      using assms(4) maxcut_stop_free [of "length pre" "Suc ?e" ?input] by simp
    moreover have "span ?input (length pre) (Suc ?e) = w @ [c]"
      using post(1) by (simp add: span_def)
    moreover have "tree_stop f c" "c_czet_delta c = 0"
      using post(1) assms(2,3) by (auto simp: tree_stop_def c_czet_delta_def)
    ultimately show False
      using w(2) by (auto simp: stop_free_def balanced_def nth_append)
  qed
qed
lemma element_matched:
  assumes "p < length params" "CZET_MACRO_KIND_BASE (mp_kind (params ! p)) = f" "is_run_kind f" "comma_bounded f"
    and "frag_lang tree_stop f w" "post = [] \<or> tk_type (hd post) = CPP_COMMA" "length (pre @ w @ post) < 2 ^ 32"
  shows "\<exists>s. c_czet_mt_nodes params [CZET_RN_CAP p] (pre @ w @ post) (length pre) st = Some (True, length pre + length w, s)"
proof -
  have w: "run_lang (tree_stop f) w" using assms(3,5) by (simp add: frag_lang_def)
  then obtain n where n: "length w = Suc n" "balanced w" by (cases w) (auto simp: run_lang_def)
  have "balanced_run (span (pre @ w @ post) (length pre) (length pre + Suc n)) 0"
    using n span_middle [of pre w post] by (simp add: balanced_run_balanced)
  then show ?thesis
    using assms(1-3) element_maxcut [OF w assms(4,6,7)] n(1) by (simp add: Let_def)
qed

text \<open>The loop over the elements that follow the first: it ends at the end of the input, or overflows.\<close>

lemma rep_iters_elements:
  assumes "tk_type sep = CPP_COMMA"
    and "\<And>pre w post st. input = pre @ w @ post \<Longrightarrow> w \<in> set ws \<Longrightarrow> post = [] \<or> tk_type (hd post) = CPP_COMMA
      \<Longrightarrow> \<exists>s. body (length pre) st = Some (True, length pre + length w, s)"
    and "input = pre @ concat (map (\<lambda>v. sep # v) ws)" "length pos \<le> POS_AFTER_CAP"
  shows "if POS_AFTER_CAP < length pos + length ws
    then rep_iters body uses sv sep input (length pre) True pos st = None
    else \<exists>ks s. rep_iters body uses sv sep input (length pre) True pos st = Some (pos @ ks, s)
      \<and> length ks = length ws \<and> last (length pre # ks) = length input"
  using assms(2-)
proof (induction ws arbitrary: pre pos st)
  case Nil
  then show ?case by (simp add: rep_iters.simps)
next
  case (Cons w ws)
  let ?post = "concat (map (\<lambda>v. sep # v) ws)" and ?pre = "pre @ sep # w"
  have input: "input = (pre @ [sep]) @ w @ ?post" "input = ?pre @ ?post" using Cons.prems(2) by simp_all
  have "?post = [] \<or> tk_type (hd ?post) = CPP_COMMA" using assms(1) by (cases ws) auto
  then obtain s where s: "body (length (pre @ [sep])) (wrap_iter uses st) = Some (True, length (pre @ [sep]) + length w, s)"
    using Cons.prems(1) [OF input(1)] by force
  have sep: "length pre < length input" "c_czet_tok_eq sep (input ! length pre)"
    using Cons.prems(2) assms(1) by (simp_all add: c_czet_tok_eq_def)
  have step: "rep_iters body uses sv sep input (length pre) True pos st =
    (if length pos < POS_AFTER_CAP
     then rep_iters body uses sv sep input (length ?pre) True (pos @ [length ?pre]) (pop_iter sv s) else None)"
    using rep_iters_again [of True "length pre" input sep body uses st "length ?pre" s sv pos] sep s assms(1) by simp
  have "if POS_AFTER_CAP < length (pos @ [length ?pre]) + length ws
    then rep_iters body uses sv sep input (length ?pre) True (pos @ [length ?pre]) (pop_iter sv s) = None
    else \<exists>ks s'. rep_iters body uses sv sep input (length ?pre) True (pos @ [length ?pre]) (pop_iter sv s)
        = Some ((pos @ [length ?pre]) @ ks, s') \<and> length ks = length ws \<and> last (length ?pre # ks) = length input"
    if "length pos < POS_AFTER_CAP"
    using Cons.prems(1) that by (intro Cons.IH input(2)) auto
  note rest = this
  show ?case
  proof (cases "POS_AFTER_CAP < length pos + length (w # ws)")
    case True
    with rest step show ?thesis by simp
  next
    case False
    with rest obtain ks s' where "rep_iters body uses sv sep input (length ?pre) True (pos @ [length ?pre]) (pop_iter sv s)
        = Some ((pos @ [length ?pre]) @ ks, s')" "length ks = length ws" "last (length ?pre # ks) = length input"
      by auto
    with False step show ?thesis by (simp add: exI [of _ "length ?pre # ks"])
  qed
qed

text \<open>
  C39. The list pattern \<^verbatim>\<open>$( $x:expr ),*\<close> (or \<^verbatim>\<open>+\<close>, or a type fragment) matches every list of one to
  seven elements, up to the end of the input; from eight elements on the matcher writes past the
  eight slots of \<^verbatim>\<open>pos_after\<close> and has no defined result.
\<close>

theorem list_group_overflows:
  assumes "p < length params" "CZET_MACRO_KIND_BASE (mp_kind (params ! p)) = f" "is_run_kind f" "comma_bounded f"
    and "ws \<noteq> []" "\<forall>w \<in> set ws. frag_lang tree_stop f w" "input = join_sep sep ws" "length input < 2 ^ 32"
    and "tk_type sep = CPP_COMMA" "m = CHR ''*'' \<or> m = CHR ''+''"
  shows "if length ws \<le> 7
    then \<exists>st'. c_czet_matcher_tree params [CZET_RN_REP [CZET_RN_CAP p] m sep u] input 0 st = Some (True, st')
    else c_czet_matcher_tree params [CZET_RN_REP [CZET_RN_CAP p] m sep u] input 0 st = None"
proof -
  let ?body = "c_czet_mt_nodes params [CZET_RN_CAP p] input"
  obtain w vs where ws: "ws = w # vs" using assms(5) by (cases ws) auto
  let ?post = "concat (map (\<lambda>v. sep # v) vs)"
  have elem: "\<exists>s. ?body (length pre) st = Some (True, length pre + length v, s)"
    if "input = pre @ v @ post" "v \<in> set ws" "post = [] \<or> tk_type (hd post) = CPP_COMMA" for pre v post st
    using element_matched [OF assms(1-4), of v post pre st] that assms(6,8) by auto
  obtain sv st1 where sv: "save_tops u st = (sv, st1)" by (cases "save_tops u st")
  have "?post = [] \<or> tk_type (hd ?post) = CPP_COMMA" using assms(9) by (cases vs) auto
  then obtain s where s: "?body 0 (wrap_iter u st1) = Some (True, length w, s)"
    using elem [of "[]" w ?post "wrap_iter u st1"] ws assms(7) by auto
  have "rep_iters ?body u sv sep input 0 False [0] st1
    = rep_iters ?body u sv sep input (length w) True ([0] @ [length w]) (pop_iter sv s)"
    using rep_iters_again [of False 0 input sep ?body u st1 "length w" s sv "[0]"] s assms(9)
    by (simp add: POS_AFTER_CAP_def)
  moreover have "if POS_AFTER_CAP < length ([0] @ [length w]) + length vs
    then rep_iters ?body u sv sep input (length w) True ([0] @ [length w]) (pop_iter sv s) = None
    else \<exists>ks s'. rep_iters ?body u sv sep input (length w) True ([0] @ [length w]) (pop_iter sv s)
        = Some (([0] @ [length w]) @ ks, s') \<and> length ks = length vs \<and> last (length w # ks) = length input"
  proof (rule rep_iters_elements [OF assms(9)])
    fix pre v post st
    assume "input = pre @ v @ post" "v \<in> set vs" "post = [] \<or> tk_type (hd post) = CPP_COMMA"
    then show "\<exists>s. ?body (length pre) st = Some (True, length pre + length v, s)" using elem ws by simp
  qed (use ws assms(7) in \<open>simp_all add: POS_AFTER_CAP_def\<close>)
  ultimately have loop: "if length ws \<le> 7
    then \<exists>ks s'. rep_iters ?body u sv sep input 0 False [0] st1 = Some (0 # length w # ks, s')
        \<and> last (length w # ks) = length input
    else rep_iters ?body u sv sep input 0 False [0] st1 = None"
    using ws by (auto simp: POS_AFTER_CAP_def split: if_splits)
  have m: "m \<noteq> CHR ''?''" using assms(10) by auto
  show ?thesis
  proof (cases "length ws \<le> 7")
    case True
    with loop obtain ks s' where it: "rep_iters ?body u sv sep input 0 False [0] st1 = Some (0 # length w # ks, s')"
      "last (length w # ks) = length input" by auto
    let ?mi = "if m = CHR ''+'' then 1 else 0 :: nat"
    have "(0 # length w # ks) ! (?mi + (length ks + 1 - ?mi)) = length input"
      using it(2) by (simp add: last_conv_nth split: if_splits)
    then have "\<exists>s. rep_back (c_czet_mt_nodes params [] input) sv (0 # length w # ks) ?mi 0 (Suc (length ks + 1 - ?mi)) s' = Some (True, length input, s)"
      by (simp add: Let_def)
    moreover have "length (0 # length w # ks) - ?mi = Suc (length ks + 1 - ?mi)" by simp
    ultimately have "\<exists>s. c_czet_mt_nodes params [CZET_RN_REP [CZET_RN_CAP p] m sep u] input 0 st = Some (True, length input, s)"
      using it(1) sv m by (simp add: rep_loop_def Let_def del: rep_back.simps c_czet_mt_nodes.simps(1,3))
    with True show ?thesis by (auto simp: c_czet_matcher_tree_def)
  next
    case False
    with loop sv m show ?thesis by (simp add: c_czet_matcher_tree_def rep_loop_def del: c_czet_mt_nodes.simps(3))
  qed
qed

definition list_param :: c_macro_param where
  "list_param = \<lparr>mp_name = ''$x'', mp_kind = CZET_KIND_REPEAT KIND_EXPR, mp_repeat_mod = CHR ''*'',
     mp_repeat_sep = mk_tok CPP_COMMA [], mp_rep_depth = 1\<rparr>"

definition list_tree :: "czet_rep_node list" where
  "list_tree = [CZET_RN_REP [CZET_RN_CAP 0] CHR ''*'' (mk_tok CPP_COMMA []) [0]]"

definition list_input :: "nat \<Rightarrow> tokens" where
  "list_input n = join_sep (mk_tok CPP_COMMA []) (replicate n [name_tok ''a''])"

theorem list_group_overflows_witness:
  "(\<exists>st'. c_czet_matcher_tree [list_param] list_tree (list_input 7) 0 (init_mstate 1) = Some (True, st'))
    \<and> c_czet_matcher_tree [list_param] list_tree (list_input 8) 0 (init_mstate 1) = None"
proof -
  have f: "CZET_MACRO_KIND_BASE (mp_kind ([list_param] ! 0)) = KIND_EXPR" "is_run_kind KIND_EXPR" "comma_bounded KIND_EXPR"
    "tk_type (mk_tok CPP_COMMA []) = CPP_COMMA"
    by (simp_all add: list_param_def comma_bounded_def mk_tok_def)
  have w: "frag_lang tree_stop KIND_EXPR [name_tok ''a'']"
    by (simp add: frag_lang_def run_lang_def balanced_def stop_free_def tree_stop_def name_tok_def mk_tok_def
        c_czet_delta_def le_Suc_eq)
  have run: "if n \<le> 7
    then \<exists>st'. c_czet_matcher_tree [list_param] list_tree (list_input n) 0 (init_mstate 1) = Some (True, st')
    else c_czet_matcher_tree [list_param] list_tree (list_input n) 0 (init_mstate 1) = None"
    if "0 < n" "length (list_input n) < 2 ^ 32" for n
    using list_group_overflows [OF _ f(1-3) _ _ list_input_def that(2) f(4), of "CHR ''*''" "[0]" "init_mstate 1"] that(1) w
    by (simp add: list_tree_def del: One_nat_def)
  have "length (list_input 7) = 13" "length (list_input 8) = 15" by code_simp+
  with run [of 7] run [of 8] show ?thesis by (simp del: One_nat_def)
qed

subsection \<open>Typing of the capture store\<close>

text \<open>
  \<open>own\<close> assigns to every vector of the store the parameter it belongs to.  In a typed store the
  slots of a parameter point into its own vectors, an interior node points to a younger vector
  of the same parameter, and every leaf and every recorded span is one that the parameter's
  fragment accepts (a cleared slot is the empty span at 0).
\<close>

fun node_typed :: "c_macro_param list \<Rightarrow> tokens \<Rightarrow> nat list \<Rightarrow> nat \<Rightarrow> czet_cap_node \<Rightarrow> bool" where
  "node_typed params input own a (CapLeaf s e) =
     (s < e \<and> e \<le> length input
      \<and> frag_lang tree_stop (CZET_MACRO_KIND_BASE (mp_kind (params ! (own ! a)))) (span input s e))"
| "node_typed params input own a (CapInner b) = (a < b \<and> b < length own \<and> own ! b = own ! a)"

definition addr_ok :: "nat list \<Rightarrow> nat \<Rightarrow> nat \<Rightarrow> bool" where
  "addr_ok own p a \<longleftrightarrow> a < length own \<and> own ! a = p"

definition slot_ok :: "nat list \<Rightarrow> nat \<Rightarrow> c_macro_capture \<Rightarrow> bool" where
  "slot_ok own p c \<longleftrightarrow> (\<forall>a. cap_iters c = Some a \<or> cap_cur c = Some a \<longrightarrow> addr_ok own p a)"

definition cap_lang :: "c_macro_param list \<Rightarrow> tokens \<Rightarrow> nat \<Rightarrow> nat \<Rightarrow> nat \<Rightarrow> bool" where
  "cap_lang params input p s e \<longleftrightarrow> s < e \<and> e \<le> length input
     \<and> frag_lang tree_stop (CZET_MACRO_KIND_BASE (mp_kind (params ! p))) (span input s e)"

definition span_ok :: "c_macro_param list \<Rightarrow> tokens \<Rightarrow> nat \<Rightarrow> c_macro_capture \<Rightarrow> bool" where
  "span_ok params input p c \<longleftrightarrow> cap_start c = 0 \<and> cap_end c = 0
     \<or> cap_lang params input p (cap_start c) (cap_end c)"

definition store_ok :: "c_macro_param list \<Rightarrow> tokens \<Rightarrow> nat list \<Rightarrow> mstate \<Rightarrow> bool" where
  "store_ok params input own st \<longleftrightarrow>
     length own = length (ms_store st) \<and> length (ms_caps st) = length params
     \<and> (\<forall>p < length params. slot_ok own p (ms_caps st ! p) \<and> span_ok params input p (ms_caps st ! p))
     \<and> (\<forall>a < length own. \<forall>n \<in> set (ms_store st ! a). node_typed params input own a n)"

lemma addr_ok_ext: "addr_ok own p a \<Longrightarrow> addr_ok (own @ ext) p a"
  by (simp add: addr_ok_def nth_append)

lemma slot_ok_ext: "slot_ok own p c \<Longrightarrow> slot_ok (own @ ext) p c"
  by (auto simp: slot_ok_def addr_ok_ext)

lemma node_typed_ext:
  "a < length own \<Longrightarrow> node_typed params input own a n \<Longrightarrow> node_typed params input (own @ ext) a n"
  by (cases n) (auto simp: nth_append)

lemma store_ok_alloc:
  assumes "store_ok params input own st"
  shows "store_ok params input (own @ [p]) (st\<lparr>ms_store := ms_store st @ [[]]\<rparr>)"
  using assms by (auto simp: store_ok_def slot_ok_ext nth_append less_Suc_eq intro: node_typed_ext)

lemma store_ok_slot:
  assumes "store_ok params input own st" "slot_ok own p c" "span_ok params input p c"
  shows "store_ok params input own (st\<lparr>ms_caps := (ms_caps st)[p := c]\<rparr>)"
  using assms by (auto simp: store_ok_def nth_upd split: if_splits)

lemma store_ok_vec:
  assumes "store_ok params input own st" "\<forall>n \<in> set v. node_typed params input own a n"
  shows "store_ok params input own (st\<lparr>ms_store := (ms_store st)[a := v]\<rparr>)"
  using assms by (auto simp: store_ok_def nth_upd split: if_splits)

lemma store_ok_nodes:
  "store_ok params input own st \<Longrightarrow> a < length own \<Longrightarrow> n \<in> set (ms_store st ! a)
     \<Longrightarrow> node_typed params input own a n"
  by (simp add: store_ok_def)

lemma store_ok_lengths:
  "store_ok params input own st \<Longrightarrow> length own = length (ms_store st) \<and> length (ms_caps st) = length params"
  by (simp add: store_ok_def)

lemma slot_okI: "store_ok params input own st \<Longrightarrow> p < length params \<Longrightarrow> slot_ok own p (ms_caps st ! p)"
  by (simp add: store_ok_def)

lemma span_okI:
  "store_ok params input own st \<Longrightarrow> p < length params \<Longrightarrow> span_ok params input p (ms_caps st ! p)"
  by (simp add: store_ok_def)

lemma set_cur_ok:
  assumes "store_ok params input own st" "p < length params" "addr_ok own p a"
  shows "store_ok params input own (set_cur p a st)"
  unfolding set_cur_def
  by (rule store_ok_slot [OF assms(1)])
     (use slot_okI [OF assms(1,2)] span_okI [OF assms(1,2)] assms(3) in \<open>auto simp: slot_ok_def span_ok_def\<close>)

lemma upd_span_ok:
  assumes "store_ok params input own st" "p < length params" "i = 0 \<and> j = 0 \<or> cap_lang params input p i j"
  shows "store_ok params input own (upd_span p i j st)"
  unfolding upd_span_def put_span_def
  by (rule store_ok_slot [OF assms(1)])
     (use slot_okI [OF assms(1,2)] assms(3) in \<open>auto simp: slot_ok_def span_ok_def\<close>)

lemma cap_iters_of_ok:
  assumes "store_ok params input own st" "p < length params" "cap_iters_of st p = (a, st1)"
  shows "\<exists>ext. store_ok params input (own @ ext) st1 \<and> addr_ok (own @ ext) p a"
proof (cases "cap_iters (ms_caps st ! p)")
  case (Some b)
  with assms slot_okI [OF assms(1,2)] show ?thesis
    by (intro exI [of _ "[]"]) (auto simp: cap_iters_of_def slot_ok_def)
next
  case None
  let ?st = "st\<lparr>ms_store := ms_store st @ [[]]\<rparr>"
  let ?c = "(ms_caps st ! p)\<lparr>cap_iters := Some (length (ms_store st))\<rparr>"
  have alloc: "store_ok params input (own @ [p]) ?st"
    by (rule store_ok_alloc [OF assms(1)])
  have addr: "addr_ok (own @ [p]) p (length (ms_store st))"
    using store_ok_lengths [OF assms(1)] by (simp add: addr_ok_def nth_append)
  then have "slot_ok (own @ [p]) p ?c"
    using slot_ok_ext [OF slot_okI [OF assms(1,2)], of "[p]"] by (auto simp: slot_ok_def)
  from store_ok_slot [OF alloc this] span_okI [OF assms(1,2)]
  have "store_ok params input (own @ [p]) (st\<lparr>ms_caps := (ms_caps st)[p := ?c], ms_store := ms_store st @ [[]]\<rparr>)"
    by (simp add: store_ok_def span_ok_def)
  with addr None assms(3) show ?thesis
    by (intro exI [of _ "[p]"]) (auto simp: cap_iters_of_def)
qed

lemma cap_top_ok:
  assumes "store_ok params input own st" "p < length params" "czet_cap_top st p = (a, st1)"
  shows "\<exists>ext. store_ok params input (own @ ext) st1 \<and> addr_ok (own @ ext) p a"
proof -
  obtain b st2 where it: "cap_iters_of st p = (b, st2)" by (cases "cap_iters_of st p")
  obtain ext where ok: "store_ok params input (own @ ext) st2" "addr_ok (own @ ext) p b"
    using cap_iters_of_ok [OF assms(1,2) it] by blast
  have "store_ok params input (own @ ext) st1 \<and> addr_ok (own @ ext) p a"
  proof (cases "cap_cur (ms_caps st2 ! p)")
    case None
    with assms(3) it ok set_cur_ok [OF ok(1) assms(2) ok(2)] show ?thesis
      by (auto simp: czet_cap_top_def)
  next
    case (Some c)
    with assms(3) it ok slot_okI [OF ok(1) assms(2)] show ?thesis
      by (auto simp: czet_cap_top_def slot_ok_def)
  qed
  then show ?thesis by blast
qed

lemma store_push_ok:
  assumes "store_ok params input own st" "a < length own" "node_typed params input own a n"
  shows "store_ok params input own (store_push a n st)"
  unfolding store_push_def using assms store_ok_nodes [OF assms(1,2)]
  by (intro store_ok_vec) auto

lemma cap_leaf_ok:
  assumes "store_ok params input own st" "p < length params" "s < e" "e \<le> length input"
    and "frag_lang tree_stop (CZET_MACRO_KIND_BASE (mp_kind (params ! p))) (span input s e)"
  shows "\<exists>ext. store_ok params input (own @ ext) (czet_cap_leaf st p s e)"
proof -
  obtain a st1 where top: "czet_cap_top st p = (a, st1)" by (cases "czet_cap_top st p")
  obtain ext where ok: "store_ok params input (own @ ext) st1" "addr_ok (own @ ext) p a"
    using cap_top_ok [OF assms(1,2) top] by blast
  then have "store_ok params input (own @ ext) (store_push a (CapLeaf s e) st1)"
    using assms by (intro store_push_ok) (auto simp: addr_ok_def)
  with top show ?thesis by (auto simp: czet_cap_leaf_def)
qed

lemma cap_top_cur: "cap_cur (ms_caps (snd (czet_cap_top st p)) ! p) \<noteq> None"
  if "p < length (ms_caps st)"
  using that by (auto simp: czet_cap_top_def cap_iters_of_def set_cur_def split: prod.split option.split)

lemma cap_wrap_ok:
  assumes "store_ok params input own st" "p < length params"
  shows "\<exists>ext. store_ok params input (own @ ext) (czet_cap_wrap st p)"
proof -
  define st1 where "st1 = (if cap_cur (ms_caps st ! p) = None then snd (czet_cap_top st p) else st)"
  obtain ext where ok: "store_ok params input (own @ ext) st1"
  proof (cases "cap_cur (ms_caps st ! p) = None")
    case True
    then show thesis
      using that cap_top_ok [OF assms, of "fst (czet_cap_top st p)" "snd (czet_cap_top st p)"]
      by (auto simp: st1_def)
  next
    case False
    then show thesis
      using that [of "[]"] assms(1) by (auto simp: st1_def)
  qed
  have "cap_cur (ms_caps st1 ! p) \<noteq> None"
    using cap_top_cur [of p st] assms store_ok_lengths [OF assms(1)] by (auto simp: st1_def)
  then obtain c where c: "cap_cur (ms_caps st1 ! p) = Some c" by auto
  then have addr: "addr_ok (own @ ext) p c"
    using slot_okI [OF ok assms(2)] by (simp add: slot_ok_def)
  let ?k = "length (ms_store st1)"
  have k: "?k = length (own @ ext)" using store_ok_lengths [OF ok] by simp
  have "store_ok params input ((own @ ext) @ [p]) (st1\<lparr>ms_store := ms_store st1 @ [[]]\<rparr>)"
    by (rule store_ok_alloc [OF ok])
  then have "store_ok params input ((own @ ext) @ [p])
      (store_push c (CapInner ?k) (st1\<lparr>ms_store := ms_store st1 @ [[]]\<rparr>))"
    using addr k by (intro store_push_ok) (auto simp: addr_ok_def nth_append)
  then have "store_ok params input ((own @ ext) @ [p])
      (set_cur p ?k (store_push c (CapInner ?k) (st1\<lparr>ms_store := ms_store st1 @ [[]]\<rparr>)))"
    using k by (intro set_cur_ok assms) (auto simp: addr_ok_def nth_append)
  moreover have "store_push c (CapInner ?k) (st1\<lparr>ms_store := ms_store st1 @ [[]]\<rparr>)
      = (store_push c (CapInner ?k) st1)\<lparr>ms_store := ms_store (store_push c (CapInner ?k) st1) @ [[]]\<rparr>"
    using addr k by (simp add: store_push_def addr_ok_def nth_append list_update_append)
  ultimately show ?thesis
    unfolding czet_cap_wrap_def Let_def st1_def [symmetric] c option.sel append_assoc by auto
qed

definition sv_ok :: "nat \<Rightarrow> nat list \<Rightarrow> saved \<Rightarrow> bool" where
  "sv_ok np own sv \<longleftrightarrow> (\<forall>(p, a, l) \<in> set sv. p < np \<and> addr_ok own p a)"

lemma sv_ok_ext: "sv_ok np own sv \<Longrightarrow> sv_ok np (own @ ext) sv"
  by (auto simp: sv_ok_def addr_ok_ext)

lemma save_tops_ok:
  assumes "store_ok params input own st" "\<forall>p \<in> set uses. p < length params"
    and "save_tops uses st = (sv, st1)"
  shows "\<exists>ext. store_ok params input (own @ ext) st1 \<and> sv_ok (length params) (own @ ext) sv"
  using assms
proof (induction uses arbitrary: own st sv)
  case Nil
  then show ?case by (intro exI [of _ "[]"]) (simp add: sv_ok_def)
next
  case (Cons p ps)
  obtain a s where top: "czet_cap_top st p = (a, s)" by (cases "czet_cap_top st p")
  obtain e where ok: "store_ok params input (own @ e) s" "addr_ok (own @ e) p a"
    using cap_top_ok [OF Cons.prems(1) _ top] Cons.prems(2) by auto
  obtain sv' where sv': "save_tops ps s = (sv', st1)" "sv = (p, a, length (ms_store s ! a)) # sv'"
    using Cons.prems(3) top by (auto split: prod.splits)
  obtain e' where "store_ok params input ((own @ e) @ e') st1" "sv_ok (length params) ((own @ e) @ e') sv'"
    using Cons.IH [OF ok(1) _ sv'(1)] Cons.prems(2) by auto
  with addr_ok_ext [OF ok(2), of e'] sv'(2) Cons.prems(2) show ?case
    by (intro exI [of _ "e @ e'"]) (auto simp: sv_ok_def)
qed

lemma wrap_iter_ok:
  assumes "store_ok params input own st" "\<forall>p \<in> set uses. p < length params"
  shows "\<exists>ext. store_ok params input (own @ ext) (wrap_iter uses st)"
  using assms
proof (induction uses arbitrary: own st)
  case Nil
  then show ?case by (intro exI [of _ "[]"]) (simp add: wrap_iter_def)
next
  case (Cons p ps)
  obtain e where "store_ok params input (own @ e) (czet_cap_wrap st p)"
    using cap_wrap_ok [OF Cons.prems(1)] Cons.prems(2) by auto
  from Cons.IH [OF this] Cons.prems(2) show ?case
    by (auto simp: wrap_iter_def)
qed

lemma pop_iter_ok:
  "store_ok params input own st \<Longrightarrow> sv_ok (length params) own sv
     \<Longrightarrow> store_ok params input own (pop_iter sv st)"
  by (induction sv st rule: pop_iter.induct) (auto simp: sv_ok_def set_cur_ok)

lemma restore_len_ok:
  "store_ok params input own st \<Longrightarrow> sv_ok (length params) own sv
     \<Longrightarrow> store_ok params input own (restore_len t sv st)"
proof (induction t sv st rule: restore_len.induct)
  case (2 t p a l sv st)
  have a: "p < length params" "addr_ok own p a" "sv_ok (length params) own sv"
    using "2.prems"(2) by (auto simp: sv_ok_def)
  have "store_ok params input own (st\<lparr>ms_store := (ms_store st)[a := take (l + t) (ms_store st ! a)]\<rparr>)"
    using store_ok_nodes [OF "2.prems"(1), of a] a(2)
    by (intro store_ok_vec "2.prems"(1)) (auto simp: addr_ok_def dest: in_set_takeD)
  with "2.prems"(1) have "store_ok params input own (set_cur p a
      (if l + t < length (ms_store st ! a)
       then st\<lparr>ms_store := (ms_store st)[a := take (l + t) (ms_store st ! a)]\<rparr> else st))"
    by (intro set_cur_ok a) auto
  with "2.IH" a(3) show ?case by simp
qed simp

text \<open>A continuation keeps the store typed, and only extends the ownership.\<close>

definition keeps :: "c_macro_param list \<Rightarrow> tokens \<Rightarrow> (nat \<Rightarrow> mstate \<Rightarrow> mresult) \<Rightarrow> bool" where
  "keeps params input f \<longleftrightarrow> (\<forall>own st ii b k st'. store_ok params input own st \<longrightarrow> ii \<le> length input
     \<longrightarrow> f ii st = Some (b, k, st') \<longrightarrow> (\<exists>ext. store_ok params input (own @ ext) st'))"

lemma keepsE:
  assumes "keeps params input f" "store_ok params input own st" "f ii st = Some (b, k, st')"
    and "ii \<le> length input"
  obtains ext where "store_ok params input (own @ ext) st'"
  using assms unfolding keeps_def by blast

lemma mt_cuts_keeps:
  assumes "keeps params input rest" "p < length params" "store_ok params input own st"
    and "mt_cuts rest input p rep ii n st = Some (b, k, st')" "ii + n \<le> length input"
    and "\<And>cu. ii < cu \<Longrightarrow> cu \<le> ii + n \<Longrightarrow> balanced (span input ii cu) \<Longrightarrow>
      frag_lang tree_stop (CZET_MACRO_KIND_BASE (mp_kind (params ! p))) (span input ii cu)"
  shows "\<exists>ext. store_ok params input (own @ ext) st'"
  using assms(3-)
proof (induction n arbitrary: own st)
  case 0
  then show ?case by (intro exI [of _ "[]"]) simp
next
  case (Suc n)
  let ?cu = "ii + Suc n"
  show ?case
  proof (cases "balanced_run (span input ii ?cu) 0")
    case False
    with Suc show ?thesis by auto
  next
    case True
    then obtain b1 k1 s1 where r: "rest ?cu (upd_span p ii ?cu st) = Some (b1, k1, s1)"
      using Suc.prems(2) by (auto split: option.splits)
    have "cap_lang params input p ii ?cu"
      using Suc.prems(3,4) True by (simp add: cap_lang_def balanced_run_balanced)
    then obtain e where e: "store_ok params input (own @ e) s1"
      using keepsE [OF assms(1) upd_span_ok [OF Suc.prems(1) assms(2)] r Suc.prems(3)] by blast
    show ?thesis
    proof (cases b1)
      case T: True
      with r True Suc.prems(2) have st': "st' = leaf_if rep p ii ?cu s1" by simp
      have "\<exists>ext. store_ok params input ((own @ e) @ ext) (leaf_if rep p ii ?cu s1)"
        using cap_leaf_ok [OF e assms(2), of ii ?cu] Suc.prems(3,4) True e
        by (cases rep) (auto simp: leaf_if_def balanced_run_balanced intro: exI [of _ "[]"])
      with st' show ?thesis by auto
    next
      case F: False
      with r True Suc.prems(2) have "mt_cuts rest input p rep ii n (upd_span p 0 0 s1) = Some (b, k, st')"
        by simp
      from Suc.IH [OF upd_span_ok [OF e assms(2)] this] Suc.prems(3,4) show ?thesis by auto
    qed
  qed
qed

lemma rep_iters_keeps:
  assumes "keeps params input body" "matches input body L" "\<forall>p \<in> set uses. p < length params"
    and "store_ok params input own st" "sv_ok (length params) own sv" "cur \<le> length input"
    and "rep_iters body uses sv sep input cur need_sep pos st = Some (pos', st')"
  shows "\<exists>ext. store_ok params input (own @ ext) st'"
  using assms(4-)
proof (induction pos arbitrary: own cur need_sep st rule: vector_induct)
  case (push pos)
  let ?probe = "if need_sep then cur + 1 else cur"
  have body: "\<exists>e. store_ok params input (own @ e) s" if "body ?probe (wrap_iter uses st) = Some (b, k, s)"
    "?probe \<le> length input" for b k s
  proof -
    obtain e1 where "store_ok params input (own @ e1) (wrap_iter uses st)"
      using wrap_iter_ok [OF push.prems(1) assms(3)] by blast
    from keepsE [OF assms(1) this that] show ?thesis by auto
  qed
  from push.prems(4) show ?case
  proof (cases rule: rep_itersE)
    case no_sep
    with push.prems(1) show ?thesis by (intro exI [of _ "[]"]) simp
  next
    case (last k s)
    then have "?probe \<le> length input" using push.prems(3) by auto
    then obtain e where e: "store_ok params input (own @ e) s" using body [OF last(2)] by blast
    from restore_len_ok [OF e sv_ok_ext [OF push.prems(2)]] last(4) show ?thesis by blast
  next
    case (again k s)
    then have le: "?probe \<le> length input" using push.prems(3) by auto
    obtain e where e: "store_ok params input (own @ e) s" using body [OF again(2) le] by blast
    note sv = sv_ok_ext [OF push.prems(2), of e]
    from push.IH [OF again(3) pop_iter_ok [OF e sv] sv matchesD(2) [OF assms(2) again(2) le] again(4)]
    show ?thesis by auto
  qed
qed

lemma rep_back_keeps:
  assumes "keeps params input rest" "store_ok params input own st" "sv_ok (length params) own sv"
    and "\<forall>t < length pos. pos ! t \<le> length input" "min_it + n \<le> length pos"
    and "rep_back rest sv pos min_it ii n st = Some (b, k, st')"
  shows "\<exists>ext. store_ok params input (own @ ext) st'"
  using assms(2,3,5,6)
proof (induction n arbitrary: own st)
  case 0
  then show ?case by (intro exI [of _ "[]"]) simp
next
  case (Suc n)
  let ?t = "min_it + n"
  obtain b1 k1 s1 where r: "rest (pos ! ?t) (restore_len ?t sv st) = Some (b1, k1, s1)"
    using Suc.prems(4) by (auto simp: Let_def split: option.splits)
  obtain e where e: "store_ok params input (own @ e) s1"
    using keepsE [OF assms(1) restore_len_ok [OF Suc.prems(1,2)] r] assms(4) Suc.prems(3) by auto
  show ?case
  proof (cases b1)
    case True
    with r Suc.prems(4) e show ?thesis by (auto simp: Let_def)
  next
    case False
    with r Suc.prems(4) have "rep_back rest sv pos min_it ii n s1 = Some (b, k, st')" by (simp add: Let_def)
    from Suc.IH [OF e sv_ok_ext [OF Suc.prems(2)] _ this] Suc.prems(3) show ?thesis by auto
  qed
qed

lemma rep_opt_keeps:
  assumes "keeps params input body" "matches input body L" "keeps params input rest"
    and "\<forall>p \<in> set uses. p < length params" "ii \<le> length input"
    and "store_ok params input own st" "sv_ok (length params) own sv"
    and "rep_opt body rest uses sv ii st = Some (b, k, st')"
  shows "\<exists>ext. store_ok params input (own @ ext) st'"
proof -
  obtain b1 k1 s1 where r1: "body ii (wrap_iter uses st) = Some (b1, k1, s1)"
    using assms(8) by (auto simp: rep_opt_def split: option.splits)
  obtain e1 where "store_ok params input (own @ e1) (wrap_iter uses st)"
    using wrap_iter_ok [OF assms(6,4)] by blast
  from keepsE [OF assms(1) this r1 assms(5)]
  obtain e where e: "store_ok params input (own @ e) s1" by auto
  have none: "\<exists>ext. store_ok params input (own @ ext) st'"
    if "rest ii (restore_len 0 sv s) = Some (b, k, st')" "store_ok params input (own @ f) s" for s f
    using keepsE [OF assms(3) restore_len_ok [OF that(2) sv_ok_ext [OF assms(7)]] that(1) assms(5)]
    by auto
  show ?thesis
  proof (cases b1)
    case False
    with r1 assms(8) none [OF _ e] show ?thesis by (simp add: rep_opt_def)
  next
    case True
    then have k1: "k1 \<le> length input" using matchesD(2) [OF assms(2), of ii _ k1 s1] r1 assms(5) by simp
    obtain b2 k2 s2 where r2: "rest k1 (pop_iter sv s1) = Some (b2, k2, s2)"
      using assms(8) r1 True by (auto simp: rep_opt_def split: option.splits)
    from keepsE [OF assms(3) pop_iter_ok [OF e sv_ok_ext [OF assms(7)]] r2 k1]
    obtain e2 where e2: "store_ok params input (own @ e2) s2" by auto
    show ?thesis
      using r1 r2 True assms(8) none [OF _ e2] e2 by (cases b2) (auto simp: rep_opt_def)
  qed
qed

fun uses_below :: "nat \<Rightarrow> czet_rep_node \<Rightarrow> bool" where
  "uses_below np (CZET_RN_TOK q) = True"
| "uses_below np (CZET_RN_CAP p) = True"
| "uses_below np (CZET_RN_REP kids m sep u) = ((\<forall>p \<in> set u. p < np) \<and> list_all (uses_below np) kids)"

lemma mt_cap_keeps:
  assumes "length input < 2 ^ 32" "keeps params input (c_czet_mt_nodes params ns input)"
  shows "keeps params input (c_czet_mt_nodes params (CZET_RN_CAP p # ns) input)"
  unfolding keeps_def
proof (intro allI impI)
  fix own st ii b k st'
  let ?f = "CZET_MACRO_KIND_BASE (mp_kind (params ! p))"
  let ?rep = "CZET_MACRO_KIND_IS_REPEAT (mp_kind (params ! p))"
  assume ok: "store_ok params input own st" and ii: "ii \<le> length input"
    and run: "c_czet_mt_nodes params (CZET_RN_CAP p # ns) input ii st = Some (b, k, st')"
  show "\<exists>ext. store_ok params input (own @ ext) st'"
  proof (cases "p < length params")
    case p: True
    show ?thesis
    proof (cases "is_run_kind ?f")
      case True
      let ?n = "scan_maxcut (tree_stop ?f) input ii 0 - ii"
      have b: "ii \<le> scan_maxcut (tree_stop ?f) input ii 0" "ii + ?n \<le> length input"
        using scan_maxcut_bounds [OF ii, of "tree_stop ?f" 0] by auto
      have "mt_cuts (c_czet_mt_nodes params ns input) input p ?rep ii ?n st = Some (b, k, st')"
        using run True p by (simp add: Let_def)
      from mt_cuts_keeps [OF assms(2) p ok this b(2)] b(1) ii assms(1) show ?thesis
        using frag_run_I [OF True, where stop = tree_stop] by auto
    next
      case False
      show ?thesis
      proof (cases "det_end ?f input ii")
        case (Some e)
        then have e: "ii < e" "e \<le> length input" "frag_lang tree_stop ?f (span input ii e)"
          using det_end_iff [OF False assms(1)] by auto
        have run': "c_czet_mt_nodes params ns input e (leaf_if ?rep p ii e (upd_span p ii e st)) = Some (b, k, st')"
          using run False p Some by (simp add: Let_def)
        have upd: "store_ok params input own (upd_span p ii e st)"
          using e by (intro upd_span_ok [OF ok p]) (simp add: cap_lang_def)
        then have "\<exists>ext. store_ok params input (own @ ext) (leaf_if ?rep p ii e (upd_span p ii e st))"
          using cap_leaf_ok [OF upd p e]
          by (auto simp: leaf_if_def intro: exI [of _ "[]"])
        then obtain x where "store_ok params input (own @ x) (leaf_if ?rep p ii e (upd_span p ii e st))"
          by blast
        from keepsE [OF assms(2) this run' e(2)] show ?thesis by (metis append_assoc)
      qed (use run False p ok in \<open>auto intro: exI [of _ "[]"]\<close>)
    qed
  qed (use run ok in \<open>auto intro: exI [of _ "[]"]\<close>)
qed

lemma mt_rep_keeps:
  assumes "length input < 2 ^ 32" "\<forall>p \<in> set u. p < length params"
    and "keeps params input (c_czet_mt_nodes params kids input)"
    and "keeps params input (c_czet_mt_nodes params ns input)"
  shows "keeps params input (c_czet_mt_nodes params (CZET_RN_REP kids m sep u # ns) input)"
  unfolding keeps_def
proof (intro allI impI)
  fix own st ii b k st'
  let ?body = "c_czet_mt_nodes params kids input" and ?rest = "c_czet_mt_nodes params ns input"
  assume ok: "store_ok params input own st" and ii: "ii \<le> length input"
    and run: "c_czet_mt_nodes params (CZET_RN_REP kids m sep u # ns) input ii st = Some (b, k, st')"
  note match = mt_nodes_matches [OF assms(1), of params kids]
  obtain sv st1 where sv: "save_tops u st = (sv, st1)" by (cases "save_tops u st")
  obtain e where e: "store_ok params input (own @ e) st1" "sv_ok (length params) (own @ e) sv"
    using save_tops_ok [OF ok assms(2) sv] by blast
  have "\<exists>ext. store_ok params input ((own @ e) @ ext) st'"
  proof (cases "m = CHR ''?''")
    case True
    with run sv have "rep_opt ?body ?rest u sv ii st1 = Some (b, k, st')" by simp
    from rep_opt_keeps [OF assms(3) match assms(4,2) ii e this] show ?thesis .
  next
    case False
    let ?mi = "if m = CHR ''+'' then 1 else 0 :: nat"
    obtain pos st2 where it: "rep_iters ?body u sv sep input ii False [ii] st1 = Some (pos, st2)"
      and bk: "rep_back ?rest sv pos ?mi ii (length pos - ?mi) st2 = Some (b, k, st')"
      using run sv False by (auto simp: rep_loop_def Let_def split: option.splits)
    obtain e2 where e2: "store_ok params input ((own @ e) @ e2) st2"
      using rep_iters_keeps [OF assms(3) match assms(2) e ii it] by blast
    have "iters_ok (iters_lang params kids sep) input ii pos"
      using ii by (intro rep_iters_sound [OF match it]) (auto simp: iters_ok_def iters_0)
    then have "\<forall>t < length pos. pos ! t \<le> length input" "pos \<noteq> []" by (auto simp: iters_ok_def)
    moreover from this(2) have "?mi + (length pos - ?mi) \<le> length pos" by (cases pos) auto
    ultimately show ?thesis
      using rep_back_keeps [OF assms(4) e2 sv_ok_ext [OF e(2)] _ _ bk] by auto
  qed
  then show "\<exists>ext. store_ok params input (own @ ext) st'" by auto
qed

lemma mt_nodes_keeps:
  assumes "length input < 2 ^ 32"
  shows "list_all (uses_below (length params)) ns \<Longrightarrow> keeps params input (c_czet_mt_nodes params ns input)"
proof (induction ns rule: rep_seq_induct)
  case (CAP p ns)
  then show ?case by (intro mt_cap_keeps [OF assms]) simp
next
  case (REP kids m sep u ns)
  then show ?case by (intro mt_rep_keeps [OF assms]) auto
next
  case Nil
  show ?case by (auto simp: keeps_def intro: exI [of _ "[]"])
next
  case (TOK q ns)
  then show ?case
    unfolding keeps_def [of _ _ "c_czet_mt_nodes _ (CZET_RN_TOK _ # _) _"]
    by (auto elim!: keepsE intro: exI [of _ "[]"])
qed

lemma init_mstate_ok: "store_ok params input [] (init_mstate (length params))"
  by (simp add: store_ok_def init_mstate_def slot_ok_def span_ok_def zero_capture_def)

lemma node_ok_uses_below:
  "list_all (node_ok isp P r) ns \<Longrightarrow> list_all (uses_below (length P)) ns \<and> (\<forall>n \<in> set ns. node_params n \<subseteq> {..< length P})"
proof (induction ns arbitrary: r rule: rep_seq_induct)
  case (REP kids m sep u ns)
  then have "list_all (uses_below (length P)) kids" "\<forall>n \<in> set kids. node_params n \<subseteq> {..< length P}" by auto
  with REP collect_uses(2) [of kids "[]"] show ?case by auto
qed auto


end
