(* ===== verification/Macro_Expand.thy ===== *)
theory Macro_Expand
  imports Macro_Match
begin

text \<open>
  Expansion of a repetition tree (\<^verbatim>\<open>c_czet_expand_seq\<close>, \<^verbatim>\<open>c_czet_build_expansion_tree\<close>) and the
  walks over captured nodes it uses (\<^verbatim>\<open>czet_cap_level_list\<close>, \<^verbatim>\<open>czet_cap_navigate\<close>,
  \<^verbatim>\<open>czet_cap_first_leaf\<close>).  The output, the provenance marks and the per-parameter cursors are
  passed as a record; \<open>es_errs\<close> collects the diagnostics \<^verbatim>\<open>meta-variable repeats ...\<close>.
\<close>

record estate =
  es_out :: tokens
  es_mark :: "bool list"
  es_cursors :: "nat list option list"
  es_errs :: "(nat \<times> nat) list"

subsection \<open>Walks over captured nodes\<close>

definition cursor_at :: "nat list \<Rightarrow> nat \<Rightarrow> nat" where
  "cursor_at cs L = (if L < length cs then cs ! L else 0)"

fun level_list_from :: "czet_cap_node list list \<Rightarrow> nat list \<Rightarrow> nat \<Rightarrow> nat \<Rightarrow> nat \<Rightarrow> nat option" where
  "level_list_from store cs L 0 lv = Some lv"
| "level_list_from store cs L (Suc n) lv =
     (if length (store ! lv) \<le> cursor_at cs L then None
      else (case store ! lv ! cursor_at cs L of
              CapLeaf s e \<Rightarrow> None
            | CapInner a \<Rightarrow> level_list_from store cs (Suc L) n a))"

definition czet_cap_level_list :: "mstate \<Rightarrow> nat \<Rightarrow> nat list \<Rightarrow> nat \<Rightarrow> nat option" where
  "czet_cap_level_list ms p cs level =
     (case cap_iters (ms_caps ms ! p) of
        None \<Rightarrow> None
      | Some a \<Rightarrow> level_list_from (ms_store ms) cs 0 level a)"

definition czet_cap_navigate :: "mstate \<Rightarrow> nat \<Rightarrow> nat list \<Rightarrow> nat \<Rightarrow> czet_cap_node option" where
  "czet_cap_navigate ms p cs level =
     (case czet_cap_level_list ms p cs level of
        None \<Rightarrow> None
      | Some lv \<Rightarrow> if length (ms_store ms ! lv) \<le> cursor_at cs level then None
                    else Some (ms_store ms ! lv ! cursor_at cs level))"

text \<open>The loop follows first children; \<open>first_leaf_fuel\<close> shows the fuel used below is enough.\<close>

fun first_leaf :: "nat \<Rightarrow> czet_cap_node list list \<Rightarrow> czet_cap_node \<Rightarrow> (nat \<times> nat) option" where
  "first_leaf fuel store (CapLeaf s e) = Some (s, e)"
| "first_leaf 0 store (CapInner a) = None"
| "first_leaf (Suc fuel) store (CapInner a) =
     (case store ! a of [] \<Rightarrow> None | n # _ \<Rightarrow> first_leaf fuel store n)"

definition czet_cap_first_leaf :: "mstate \<Rightarrow> czet_cap_node option \<Rightarrow> (nat \<times> nat) option" where
  "czet_cap_first_leaf ms node =
     (case node of None \<Rightarrow> None | Some n \<Rightarrow> first_leaf (length (ms_store ms)) (ms_store ms) n)"

subsection \<open>Expansion\<close>

definition emit :: "tokens \<Rightarrow> bool \<Rightarrow> estate \<Rightarrow> estate" where
  "emit ts m st = st\<lparr>es_out := es_out st @ ts, es_mark := es_mark st @ replicate (length ts) m\<rparr>"

definition is_rep_param :: "c_macro_param list \<Rightarrow> nat \<Rightarrow> bool" where
  "is_rep_param params p \<longleftrightarrow> CZET_MACRO_KIND_IS_REPEAT (mp_kind (params ! p))"

text \<open>The capture a \<open>CZET_RN_CAP\<close> node stands for under the current cursors.\<close>

definition cap_span :: "c_macro_param list \<Rightarrow> mstate \<Rightarrow> nat list option list \<Rightarrow> nat \<Rightarrow> (nat \<times> nat) option" where
  "cap_span params ms cursors p =
     (if is_rep_param params p then
        (if mp_rep_depth (params ! p) < 0 then None
         else (case cursors ! p of
                 None \<Rightarrow> None
               | Some cs \<Rightarrow> czet_cap_first_leaf ms
                              (czet_cap_navigate ms p cs (nat (mp_rep_depth (params ! p))))))
      else Some (cap_start (ms_caps ms ! p), cap_end (ms_caps ms ! p)))"

text \<open>The iteration count of a group: the length of the level lists of its repeated parameters,
  \<open>Inr\<close>; a disagreement is \<open>Inl\<close> with the two lengths.\<close>

fun rep_count :: "c_macro_param list \<Rightarrow> mstate \<Rightarrow> nat list option list \<Rightarrow> nat \<Rightarrow> nat list \<Rightarrow> nat
    \<Rightarrow> (nat \<times> nat) + nat" where
  "rep_count params ms cursors depth [] count = Inr count"
| "rep_count params ms cursors depth (p # ps) count =
     (if \<not> is_rep_param params p \<or> mp_rep_depth (params ! p) < int depth
      then rep_count params ms cursors depth ps count
      else (case czet_cap_level_list ms p (case cursors ! p of None \<Rightarrow> [] | Some cs \<Rightarrow> cs) depth of
              None \<Rightarrow> rep_count params ms cursors depth ps count
            | Some ll \<Rightarrow>
                let n = length (ms_store ms ! ll) in
                if count \<noteq> 0 \<and> count \<noteq> n then Inl (n, count)
                else rep_count params ms cursors depth ps n))"

fun set_cursors :: "c_macro_param list \<Rightarrow> nat \<Rightarrow> nat \<Rightarrow> nat list \<Rightarrow> nat list option list
    \<Rightarrow> nat list option list" where
  "set_cursors params depth k [] cursors = cursors"
| "set_cursors params depth k (p # ps) cursors =
     set_cursors params depth k ps
       (if is_rep_param params p \<and> int depth \<le> mp_rep_depth (params ! p)
        then (case cursors ! p of
                None \<Rightarrow> cursors
              | Some cs \<Rightarrow> if depth < length cs then cursors[p := Some (cs[depth := k])] else cursors)
        else cursors)"

fun expand_iters :: "(estate \<Rightarrow> estate) \<Rightarrow> (nat \<Rightarrow> estate \<Rightarrow> estate) \<Rightarrow> c_token \<Rightarrow> nat \<Rightarrow> nat \<Rightarrow> estate
    \<Rightarrow> estate" where
  "expand_iters body select sep count 0 st = st"
| "expand_iters body select sep count (Suc n) st =
     (let k = count - Suc n;
          st1 = body (select k st);
          st2 = (if k + 1 < count \<and> tk_type sep \<noteq> CPP_EOF then emit [sep] False st1 else st1)
      in expand_iters body select sep count n st2)"

definition group_count :: "c_macro_param list \<Rightarrow> mstate \<Rightarrow> nat \<Rightarrow> char \<Rightarrow> nat list \<Rightarrow> estate
    \<Rightarrow> nat \<times> estate" where
  "group_count params ms depth m uses st =
     (case rep_count params ms (es_cursors st) depth uses 0 of
        Inl e \<Rightarrow> (0, st\<lparr>es_errs := es_errs st @ [e]\<rparr>)
      | Inr count \<Rightarrow> (if m = CHR ''?'' \<and> 1 < count then 1 else count, st))"

definition select_iter :: "c_macro_param list \<Rightarrow> nat \<Rightarrow> nat list \<Rightarrow> nat \<Rightarrow> estate \<Rightarrow> estate" where
  "select_iter params depth uses k st = st\<lparr>es_cursors := set_cursors params depth k uses (es_cursors st)\<rparr>"

definition emit_cap :: "c_macro_param list \<Rightarrow> mstate \<Rightarrow> tokens \<Rightarrow> nat \<Rightarrow> estate \<Rightarrow> estate" where
  "emit_cap params ms args p st =
     (case cap_span params ms (es_cursors st) p of
        None \<Rightarrow> st
      | Some (s, e) \<Rightarrow> emit (span args s e) True st)"

fun c_czet_expand_seq :: "c_macro_param list \<Rightarrow> mstate \<Rightarrow> tokens \<Rightarrow> czet_rep_node list \<Rightarrow> nat
    \<Rightarrow> estate \<Rightarrow> estate" where
  "c_czet_expand_seq params ms args [] depth st = st"
| "c_czet_expand_seq params ms args (CZET_RN_TOK t # ns) depth st =
     c_czet_expand_seq params ms args ns depth (emit [t] False st)"
| "c_czet_expand_seq params ms args (CZET_RN_CAP p # ns) depth st =
     c_czet_expand_seq params ms args ns depth (emit_cap params ms args p st)"
| "c_czet_expand_seq params ms args (CZET_RN_REP kids m sep uses # ns) depth st =
     (let (count, st1) = group_count params ms depth m uses st;
          st2 = expand_iters (\<lambda>s. c_czet_expand_seq params ms args kids (depth + 1) s)
                  (select_iter params depth uses) sep count count st1
      in c_czet_expand_seq params ms args ns depth st2)"

definition init_cursors :: "c_macro_param list \<Rightarrow> nat list option list" where
  "init_cursors params =
     map (\<lambda>p. if 0 \<le> mp_rep_depth p then Some (replicate (nat (mp_rep_depth p) + 1) 0) else None) params"

definition c_czet_build_expansion_tree :: "c_macro_param list \<Rightarrow> czet_rep_node list \<Rightarrow> mstate \<Rightarrow> tokens
    \<Rightarrow> estate" where
  "c_czet_build_expansion_tree params tree ms args =
     c_czet_expand_seq params ms args tree 0
       \<lparr>es_out = [], es_mark = [], es_cursors = init_cursors params, es_errs = []\<rparr>"

subsection \<open>Walks in a typed store\<close>

lemma level_list_typed:
  assumes "store_ok params input own ms" "addr_ok own p lv"
    and "level_list_from (ms_store ms) cs L n lv = Some a"
  shows "addr_ok own p a"
  using assms(2,3)
proof (induction "ms_store ms" cs L n lv rule: level_list_from.induct)
  case (2 cs L n lv)
  from "2.prems"(2) obtain b where b: "cursor_at cs L < length (ms_store ms ! lv)"
    "ms_store ms ! lv ! cursor_at cs L = CapInner b"
    "level_list_from (ms_store ms) cs (Suc L) n b = Some a"
    by (auto split: if_splits czet_cap_node.splits)
  then have "CapInner b \<in> set (ms_store ms ! lv)"
    by (metis nth_mem)
  then have "addr_ok own p b"
    using store_ok_nodes [OF assms(1), of lv "CapInner b"] "2.prems"(1) by (auto simp: addr_ok_def)
  with "2.hyps" b show ?case by auto
qed simp

lemma navigate_typed:
  assumes "store_ok params input own ms" "p < length params"
    and "czet_cap_navigate ms p cs level = Some node"
  shows "\<exists>a. addr_ok own p a \<and> node \<in> set (ms_store ms ! a)"
proof -
  obtain a0 a where a: "cap_iters (ms_caps ms ! p) = Some a0"
    "level_list_from (ms_store ms) cs 0 level a0 = Some a" "node \<in> set (ms_store ms ! a)"
    using assms(3) by (auto simp: czet_cap_navigate_def czet_cap_level_list_def split: option.splits if_splits)
  have "addr_ok own p a0"
    using slot_okI [OF assms(1,2)] a(1) by (simp add: slot_ok_def)
  with level_list_typed [OF assms(1) _ a(2)] a(3) show ?thesis by blast
qed

lemma first_leaf_typed:
  assumes "store_ok params input own ms" "p < length params" "addr_ok own p a" "n \<in> set (ms_store ms ! a)"
    and "first_leaf fuel (ms_store ms) n = Some (s, e)"
  shows "s < e \<and> e \<le> length input
    \<and> frag_lang tree_stop (CZET_MACRO_KIND_BASE (mp_kind (params ! p))) (span input s e)"
  using assms(3-)
proof (induction fuel "ms_store ms" n arbitrary: a rule: first_leaf.induct)
  case (1 fuel s' e')
  with store_ok_nodes [OF assms(1), of a "CapLeaf s' e'"] show ?case
    by (auto simp: addr_ok_def)
next
  case (3 fuel b)
  then have b: "addr_ok own p b"
    using store_ok_nodes [OF assms(1), of a "CapInner b"] by (auto simp: addr_ok_def)
  from 3 obtain m ms' where "ms_store ms ! b = m # ms'" "first_leaf fuel (ms_store ms) m = Some (s, e)"
    by (auto split: list.splits)
  with "3.hyps" [OF _ b] show ?case by simp
qed simp

text \<open>Children are younger than their parents, so as many steps as there are vectors suffice.\<close>

lemma first_leaf_fuel:
  assumes "store_ok params input own ms" "a < length own" "n \<in> set (ms_store ms ! a)"
    and "length (ms_store ms) - a \<le> Suc fuel"
  shows "first_leaf (Suc fuel) (ms_store ms) n = first_leaf fuel (ms_store ms) n"
  using assms(2-)
proof (induction fuel arbitrary: a n)
  case 0
  have len: "length own = length (ms_store ms)" using store_ok_lengths [OF assms(1)] by simp
  show ?case
  proof (cases n)
    case (CapInner b)
    with store_ok_nodes [OF assms(1) 0(1,2)] 0 len show ?thesis by auto
  qed simp
next
  case (Suc fuel)
  have len: "length own = length (ms_store ms)" using store_ok_lengths [OF assms(1)] by simp
  show ?case
  proof (cases n)
    case (CapInner b)
    with store_ok_nodes [OF assms(1) Suc.prems(1,2)] have b: "a < b" "b < length own" by auto
    show ?thesis
    proof (cases "ms_store ms ! b")
      case (Cons m r)
      have "first_leaf (Suc fuel) (ms_store ms) m = first_leaf fuel (ms_store ms) m"
        using b Cons Suc.prems(3) len by (intro Suc.IH [of b]) auto
      with CapInner Cons show ?thesis by simp
    qed (simp add: CapInner)
  qed simp
qed

text \<open>Every capture an expansion substitutes is one that its parameter's fragment accepts.\<close>

lemma cap_span_typed:
  assumes "store_ok params input own ms" "p < length params" "cap_span params ms cursors p = Some (s, e)"
  shows "s = 0 \<and> e = 0 \<or> cap_lang params input p s e"
proof (cases "is_rep_param params p")
  case True
  then obtain cs n where n: "czet_cap_navigate ms p cs (nat (mp_rep_depth (params ! p))) = Some n"
    "first_leaf (length (ms_store ms)) (ms_store ms) n = Some (s, e)"
    using assms(3) by (auto simp: cap_span_def czet_cap_first_leaf_def split: if_splits option.splits)
  obtain a where "addr_ok own p a" "n \<in> set (ms_store ms ! a)"
    using navigate_typed [OF assms(1,2) n(1)] by blast
  from first_leaf_typed [OF assms(1,2) this n(2)] show ?thesis
    by (simp add: cap_lang_def)
next
  case False
  with assms(3) span_okI [OF assms(1,2)] show ?thesis
    by (auto simp: cap_span_def span_ok_def)
qed

lemma cap_span_balanced:
  assumes "store_ok params input own ms" "p < length params" "cap_span params ms cursors p = Some (s, e)"
  shows "balanced (span input s e)"
  using cap_span_typed [OF assms] frag_lang_balanced by (auto simp: cap_lang_def balanced_def)

subsection \<open>Provenance\<close>

fun tree_tokens :: "czet_rep_node \<Rightarrow> c_token set" where
  "tree_tokens (CZET_RN_TOK t) = {t}"
| "tree_tokens (CZET_RN_CAP p) = {}"
| "tree_tokens (CZET_RN_REP kids m sep u) = insert sep (\<Union>k \<in> set kids. tree_tokens k)"

text \<open>An invariant of the emission steps holds after the expansion.\<close>

lemma expand_iters_invar:
  assumes "I st" "\<And>s. I s \<Longrightarrow> I (body s)" "\<And>k s. I s \<Longrightarrow> I (select k s)"
    and "\<And>s. I s \<Longrightarrow> I (emit [sep] False s)"
  shows "I (expand_iters body select sep count n st)"
  using assms(1) by (induction n arbitrary: st) (auto simp: Let_def assms(2-))

lemma expand_seq_invar:
  assumes "\<And>s t. I s \<Longrightarrow> t \<in> B \<Longrightarrow> I (emit [t] False s)"
    and "\<And>s p. I s \<Longrightarrow> I (emit_cap params ms args p s)"
    and "\<And>s c e. I s \<Longrightarrow> I (s\<lparr>es_cursors := c\<rparr>) \<and> I (s\<lparr>es_errs := e\<rparr>)"
  shows "I st \<Longrightarrow> (\<Union>n \<in> set ns. tree_tokens n) \<subseteq> B \<Longrightarrow> I (c_czet_expand_seq params ms args ns depth st)"
proof (induction ns arbitrary: depth st rule: rep_seq_induct)
  case (REP kids m sep u ns)
  obtain count st1 where gc: "group_count params ms depth m u st = (count, st1)"
    by (cases "group_count params ms depth m u st")
  then have "I st1"
    using REP.prems(1) assms(3) by (auto simp: group_count_def split: sum.splits)
  then have "I (expand_iters (c_czet_expand_seq params ms args kids (depth + 1)) (select_iter params depth u)
      sep count count st1)"
    using REP.IH(1) REP.prems(2) assms(1,3)
    by (intro expand_iters_invar [where I = I]) (auto simp: select_iter_def)
  with REP gc show ?case by simp
qed (auto simp: assms)

definition provenance :: "tokens \<Rightarrow> c_token set \<Rightarrow> estate \<Rightarrow> bool" where
  "provenance args B st \<longleftrightarrow> list_all2 (\<lambda>t m. t \<in> (if m then set args else B)) (es_out st) (es_mark st)"

lemma provenance_emit:
  "provenance args B st \<Longrightarrow> set ts \<subseteq> (if m then set args else B) \<Longrightarrow> provenance args B (emit ts m st)"
  unfolding provenance_def emit_def
  by (simp, rule list_all2_appendI) (auto simp: list_all2_conv_all_nth subset_iff)

lemma provenance_cap: "provenance args B st \<Longrightarrow> provenance args B (emit_cap params ms args p st)"
  by (auto simp: emit_cap_def split: option.split intro!: provenance_emit dest: set_span [THEN subsetD])

text \<open>
  C22. Every token of an expansion is a token of the macro body or of the arguments, and the mark tells
  which: marked tokens come from the arguments, the others from the template.
\<close>

theorem expansion_provenance:
  "provenance args (\<Union>n \<in> set tree. tree_tokens n) (c_czet_build_expansion_tree params tree ms args)"
  (is "provenance args ?B _")
  unfolding c_czet_build_expansion_tree_def
proof (rule expand_seq_invar [where I = "provenance args ?B" and B = ?B])
  show "provenance args ?B \<lparr>es_out = [], es_mark = [], es_cursors = init_cursors params, es_errs = []\<rparr>"
    by (simp add: provenance_def)
  show "provenance args ?B (s\<lparr>es_cursors := c\<rparr>) \<and> provenance args ?B (s\<lparr>es_errs := e\<rparr>)"
    if "provenance args ?B s" for s c e
    using that by (simp add: provenance_def)
  show "provenance args ?B (emit [t] False s)" if "provenance args ?B s" "t \<in> ?B" for s t
    by (rule provenance_emit [OF that(1)]) (use that(2) in simp)
qed (auto intro: provenance_cap)

subsection \<open>Expansion of a template keeps delimiters balanced\<close>

fun skeleton :: "czet_rep_node list \<Rightarrow> tokens" where
  "skeleton [] = []"
| "skeleton (CZET_RN_TOK t # ns) = t # skeleton ns"
| "skeleton (CZET_RN_CAP p # ns) = skeleton ns"
| "skeleton (CZET_RN_REP kids m sep u # ns) = skeleton ns"

fun groups_balanced :: "czet_rep_node \<Rightarrow> bool" where
  "groups_balanced (CZET_RN_TOK t) = True"
| "groups_balanced (CZET_RN_CAP p) = True"
| "groups_balanced (CZET_RN_REP kids m sep u) =
     (balanced (skeleton kids) \<and> c_czet_delta sep = 0 \<and> list_all groups_balanced kids)"

text \<open>\<open>bal_from d d' ts\<close>: reading \<open>ts\<close> at depth \<open>d\<close> never goes below zero and ends at \<open>d'\<close>.\<close>

definition bal_from :: "int \<Rightarrow> int \<Rightarrow> tokens \<Rightarrow> bool" where
  "bal_from d d' ts \<longleftrightarrow> (\<forall>k \<le> length ts. 0 \<le> d + depth_of (take k ts)) \<and> d' = d + depth_of ts"

lemma bal_from_balanced: "bal_from 0 0 ts \<longleftrightarrow> balanced ts"
  by (auto simp: bal_from_def balanced_def)

lemma bal_from_append:
  assumes "bal_from d d1 xs" "bal_from d1 d2 ys"
  shows "bal_from d d2 (xs @ ys)"
  unfolding bal_from_def
proof (intro conjI allI impI)
  fix k
  assume k: "k \<le> length (xs @ ys)"
  show "0 \<le> d + depth_of (take k (xs @ ys))"
  proof (cases "k \<le> length xs")
    case True
    with assms(1) show ?thesis by (simp add: bal_from_def)
  next
    case False
    then have "take k (xs @ ys) = xs @ take (k - length xs) ys" "k - length xs \<le> length ys"
      using k by auto
    with assms show ?thesis by (auto simp: bal_from_def add.assoc [symmetric])
  qed
qed (use assms in \<open>simp add: bal_from_def\<close>)

lemma bal_from_shift: "balanced ts \<Longrightarrow> 0 \<le> d \<Longrightarrow> bal_from d d ts"
  by (simp add: bal_from_def balanced_def)

lemma bal_from_start: "bal_from d d' ts \<Longrightarrow> 0 \<le> d"
  by (auto simp: bal_from_def dest: spec [of _ 0])

lemma bal_from_Cons:
  assumes "bal_from d d' (t # ts)"
  shows "bal_from d (d + c_czet_delta t) [t]" "bal_from (d + c_czet_delta t) d' ts"
proof -
  have all: "0 \<le> d + depth_of (take k (t # ts))" if "k \<le> Suc (length ts)" for k
    using assms that by (simp add: bal_from_def)
  show "bal_from d (d + c_czet_delta t) [t]"
    using all [of 0] all [of "Suc 0", simplified] by (auto simp: bal_from_def le_Suc_eq)
  have "0 \<le> d + c_czet_delta t + depth_of (take k ts)" if "k \<le> length ts" for k
    using all [of "Suc k"] that by (simp add: add.assoc)
  with assms show "bal_from (d + c_czet_delta t) d' ts"
    by (simp add: bal_from_def add.assoc)
qed

text \<open>\<open>extends_by d d' st st'\<close>: the output of \<open>st'\<close> is that of \<open>st\<close> and a piece from \<open>d\<close> to \<open>d'\<close>.\<close>

definition extends_by :: "int \<Rightarrow> int \<Rightarrow> estate \<Rightarrow> estate \<Rightarrow> bool" where
  "extends_by d d' st st' \<longleftrightarrow> (\<exists>ts. es_out st' = es_out st @ ts \<and> bal_from d d' ts)"

lemma extends_by_trans: "extends_by d d1 st st1 \<Longrightarrow> extends_by d1 d2 st1 st2 \<Longrightarrow> extends_by d d2 st st2"
  unfolding extends_by_def using bal_from_append by fastforce

lemma extends_by_same: "0 \<le> d \<Longrightarrow> es_out st' = es_out st \<Longrightarrow> extends_by d d st st'"
  by (simp add: extends_by_def bal_from_def)

lemma extends_by_emit: "bal_from d d' ts \<Longrightarrow> extends_by d d' st (emit ts m st)"
  by (auto simp: extends_by_def emit_def)

lemma expand_iters_extends:
  assumes "\<And>s. extends_by d d s (body s)" "\<And>k s. es_out (select k s) = es_out s"
    and "c_czet_delta sep = 0" "0 \<le> d"
  shows "extends_by d d st (expand_iters body select sep count n st)"
proof (induction n arbitrary: st)
  case (Suc n)
  let ?k = "count - Suc n"
  have "extends_by d d st (body (select ?k st))"
    using extends_by_trans [OF extends_by_same assms(1)] assms(2,4) by blast
  moreover have "bal_from d d [sep]"
    using assms(3,4) by (auto simp: bal_from_def le_Suc_eq)
  then have "extends_by d d s (emit [sep] False s)" for s by (rule extends_by_emit)
  ultimately have "extends_by d d st (if ?k + 1 < count \<and> tk_type sep \<noteq> CPP_EOF
      then emit [sep] False (body (select ?k st)) else body (select ?k st))"
    by (auto intro: extends_by_trans)
  from extends_by_trans [OF this Suc] show ?case by (simp add: Let_def)
qed (use assms(4) in \<open>simp add: extends_by_same\<close>)

lemma expand_seq_extends:
  assumes "store_ok params args own ms"
  shows "list_all groups_balanced ns \<Longrightarrow> (\<forall>n \<in> set ns. node_params n \<subseteq> {..< length params})
    \<Longrightarrow> bal_from d d' (skeleton ns) \<Longrightarrow> extends_by d d' st (c_czet_expand_seq params ms args ns depth st)"
proof (induction ns arbitrary: d d' depth st rule: rep_seq_induct)
  case Nil
  then show ?case by (auto simp: bal_from_def intro: extends_by_same)
next
  case (TOK t ns)
  from TOK.prems(3) bal_from_Cons have s: "bal_from d (d + c_czet_delta t) [t]"
    "bal_from (d + c_czet_delta t) d' (skeleton ns)" by auto
  from TOK s(2) have "extends_by (d + c_czet_delta t) d' (emit [t] False st)
      (c_czet_expand_seq params ms args ns depth (emit [t] False st))" by simp
  with extends_by_trans [OF extends_by_emit [OF s(1)]] show ?case by simp
next
  case (CAP p ns)
  have "extends_by d d st (emit_cap params ms args p st)"
    using CAP.prems(2) bal_from_start [OF CAP.prems(3)]
    by (auto simp: emit_cap_def split: option.split
        intro: extends_by_same extends_by_emit bal_from_shift cap_span_balanced [OF assms, of p])
  with CAP show ?case using extends_by_trans by fastforce
next
  case (REP kids m sep u ns)
  have d: "0 \<le> d" by (rule bal_from_start [OF REP.prems(3)])
  obtain count st1 where gc: "group_count params ms depth m u st = (count, st1)"
    by (cases "group_count params ms depth m u st")
  then have "extends_by d d st st1"
    using d by (intro extends_by_same) (auto simp: group_count_def split: sum.splits)
  moreover have "extends_by d d st1 (expand_iters (c_czet_expand_seq params ms args kids (depth + 1))
      (select_iter params depth u) sep count count st1)"
  proof (rule expand_iters_extends)
    show "c_czet_delta sep = 0" "0 \<le> d" using REP.prems(1) d by auto
    show "es_out (select_iter params depth u k s) = es_out s" for k s
      by (simp add: select_iter_def)
    have "\<forall>n \<in> set kids. node_params n \<subseteq> {..< length params}" "list_all groups_balanced kids"
      and "bal_from d d (skeleton kids)"
      using REP.prems(1,2) d by (auto intro: bal_from_shift)
    then show "extends_by d d s (c_czet_expand_seq params ms args kids (depth + 1) s)" for s
      by (intro REP.IH(1))
  qed
  moreover have "extends_by d d' s (c_czet_expand_seq params ms args ns depth s)" for s
    using REP.prems REP.IH(2) by simp
  ultimately show ?case
    using gc by (auto simp: Let_def intro: extends_by_trans)
qed

lemma expansion_balanced:
  assumes "store_ok params args own ms" "list_all groups_balanced tree"
    and "\<forall>n \<in> set tree. node_params n \<subseteq> {..< length params}" "balanced (skeleton tree)"
  shows "balanced (es_out (c_czet_build_expansion_tree params tree ms args))"
proof -
  have "bal_from 0 0 (skeleton tree)"
    using assms(4) by (simp add: bal_from_balanced)
  from expand_seq_extends [OF assms(1-3) this,
      of "\<lparr>es_out = [], es_mark = [], es_cursors = init_cursors params, es_errs = []\<rparr>" 0]
  show ?thesis
    by (auto simp: c_czet_build_expansion_tree_def extends_by_def bal_from_balanced)
qed

end
