(* ===== verification/Macro_Hygiene.thy ===== *)
theory Macro_Hygiene
  imports Tokens
begin

text \<open>
  Hygiene of macro expansions (\<^verbatim>\<open>c_czet_hygienize\<close> and its helpers): identifiers that the macro
  body binds are renamed to \<^verbatim>\<open>name__czet<NNN>\<close>, where \<^verbatim>\<open><NNN>\<close> is the 32-bit generation counter.
  The token vector is renamed in place in the source; the model returns the new vector and counter.
\<close>

definition c_czet_hyg_kw :: "c_token \<Rightarrow> string list \<Rightarrow> bool" where
  "c_czet_hyg_kw t kws \<longleftrightarrow> tk_type t = CPP_KEYWORD \<and> tk_value t \<in> set kws"

definition c_czet_hyg_type_kw :: "c_token \<Rightarrow> bool" where
  "c_czet_hyg_type_kw t = c_czet_hyg_kw t
     [''int'', ''char'', ''short'', ''long'', ''double'', ''float'', ''unsigned'',
      ''signed'', ''void'', ''_Bool'', ''_Complex'', ''bool'', ''_Atomic'']"

definition c_czet_hyg_qualifier :: "c_token \<Rightarrow> bool" where
  "c_czet_hyg_qualifier t = c_czet_hyg_kw t
     [''const'', ''volatile'', ''restrict'', ''inline'', ''_Noreturn'']"

definition c_czet_hyg_tag_kw :: "c_token \<Rightarrow> bool" where
  "c_czet_hyg_tag_kw t = c_czet_hyg_kw t [''struct'', ''union'', ''enum'', ''typedef'']"

definition c_czet_marked :: "bool list \<Rightarrow> nat \<Rightarrow> bool" where
  "c_czet_marked mark i \<longleftrightarrow> i < length mark \<and> mark ! i"

text \<open>The walk back over \<^verbatim>\<open>*\<close> and qualifiers: the position just after the declarator head.\<close>

fun decl_head :: "tokens \<Rightarrow> nat \<Rightarrow> nat" where
  "decl_head out 0 = 0"
| "decl_head out (Suc j) =
     (if tk_type (out ! j) = CPP_MULT \<or> c_czet_hyg_qualifier (out ! j) then decl_head out j else Suc j)"

definition binder_at :: "tokens \<Rightarrow> bool list \<Rightarrow> nat \<Rightarrow> bool" where
  "binder_at out mark i \<longleftrightarrow>
     tk_type (out ! i) = CPP_NAME \<and> \<not> c_czet_marked mark i
     \<and> (let j = decl_head out i in
        0 < j \<and> \<not> c_czet_hyg_tag_kw (out ! (j - 1)) \<and> c_czet_hyg_type_kw (out ! (j - 1)))
     \<and> i + 1 < length out
     \<and> tk_type (out ! (i + 1)) \<in> {CPP_SEMICOLON, CPP_COMMA, CPP_EQ}"

fun collect_binders :: "tokens \<Rightarrow> bool list \<Rightarrow> nat list \<Rightarrow> string list \<Rightarrow> string list" where
  "collect_binders out mark [] binders = binders"
| "collect_binders out mark (i # is) binders =
     collect_binders out mark is
       (if binder_at out mark i \<and> tk_value (out ! i) \<notin> set binders
        then binders @ [tk_value (out ! i)] else binders)"

definition fresh_name :: "string \<Rightarrow> u32 \<Rightarrow> string" where
  "fresh_name s gen = s @ ''__czet'' @ show_unsigned (unat gen)"

definition rename_at :: "bool list \<Rightarrow> string list \<Rightarrow> u32 \<Rightarrow> nat \<Rightarrow> c_token \<Rightarrow> c_token" where
  "rename_at mark binders gen i t =
     (if c_czet_marked mark i \<or> tk_type t \<noteq> CPP_NAME \<or> tk_value t \<notin> set binders then t
      else t\<lparr>tk_value := fresh_name (tk_value t) gen\<rparr>)"

definition c_czet_hygienize :: "tokens \<Rightarrow> bool list \<Rightarrow> u32 \<Rightarrow> tokens \<times> u32" where
  "c_czet_hygienize out mark gen =
     (let binders = collect_binders out mark [0..<length out] [] in
      if binders = [] then (out, gen)
      else (map (\<lambda>i. rename_at mark binders gen i (out ! i)) [0..<length out], gen + 1))"

subsection \<open>What is renamed\<close>

definition binders_of :: "tokens \<Rightarrow> bool list \<Rightarrow> string set" where
  "binders_of out mark = {tk_value (out ! i) | i. i < length out \<and> binder_at out mark i}"

lemma set_collect_binders:
  "set (collect_binders out mark is bs) = set bs \<union> {tk_value (out ! i) | i. i \<in> set is \<and> binder_at out mark i}"
  by (induction "is" arbitrary: bs) auto

lemma set_binders: "set (collect_binders out mark [0..<length out] []) = binders_of out mark"
  by (simp add: set_collect_binders binders_of_def)

text \<open>The exact effect: unmarked occurrences of bound names, and nothing else, get the suffix.\<close>

lemma hygienize_nth:
  assumes "c_czet_hygienize out mark gen = (out', gen')" "i < length out"
  shows "out' ! i =
    (if \<not> c_czet_marked mark i \<and> tk_type (out ! i) = CPP_NAME \<and> tk_value (out ! i) \<in> binders_of out mark
     then (out ! i)\<lparr>tk_value := fresh_name (tk_value (out ! i)) gen\<rparr> else out ! i)"
proof (cases "collect_binders out mark [0..<length out] [] = []")
  case True
  then have "binders_of out mark = {}" using set_binders [of out mark] by simp
  with True assms show ?thesis by (auto simp: c_czet_hygienize_def Let_def)
next
  case False
  with assms show ?thesis
    by (auto simp: c_czet_hygienize_def Let_def rename_at_def set_binders)
qed

lemma hygienize_length:
  "c_czet_hygienize out mark gen = (out', gen') \<Longrightarrow> length out' = length out"
  by (auto simp: c_czet_hygienize_def Let_def split: if_splits)

lemma hygienize_gen:
  "c_czet_hygienize out mark gen = (out', gen') \<Longrightarrow>
     gen' = (if binders_of out mark = {} then gen else gen + 1)"
  using set_binders [of out mark] by (auto simp: c_czet_hygienize_def Let_def split: if_splits)

subsection \<open>Freshness\<close>

lemma fresh_name_gen_inject:
  assumes "fresh_name s g = fresh_name s' g'"
  shows "g = g'"
proof -
  have "(s @ ''__cze'') @ CHR ''t'' # show_unsigned (unat g)
      = (s' @ ''__cze'') @ CHR ''t'' # show_unsigned (unat g')"
    using assms by (simp add: fresh_name_def)
  moreover have "\<not> is_digit (CHR ''t'')" by (simp add: is_digit_def)
  ultimately have "unat g = unat g'"
    using numbered_suffix_inject by blast
  then show ?thesis by (simp add: word_unat_eq_iff)
qed

lemma fresh_name_inject: "fresh_name s g = fresh_name s' g \<longleftrightarrow> s = s'"
  by (simp add: fresh_name_def)

definition fresh_names :: "tokens \<Rightarrow> bool list \<Rightarrow> u32 \<Rightarrow> string set" where
  "fresh_names out mark gen = (\<lambda>s. fresh_name s gen) ` binders_of out mark"

lemma fresh_names_disjoint:
  "g \<noteq> g' \<Longrightarrow> fresh_names out mark g \<inter> fresh_names out' mark' g' = {}"
  using fresh_name_gen_inject by (auto simp: fresh_names_def)

text \<open>A history of expansions, each starting with the counter the previous one left.\<close>

fun hygiene_run :: "(tokens \<times> bool list) list \<Rightarrow> u32 \<Rightarrow> string set list" where
  "hygiene_run [] gen = []"
| "hygiene_run ((out, mark) # es) gen =
     fresh_names out mark gen # hygiene_run es (snd (c_czet_hygienize out mark gen))"

definition binds :: "tokens \<times> bool list \<Rightarrow> bool" where
  "binds e \<longleftrightarrow> binders_of (fst e) (snd e) \<noteq> {}"

lemma hygiene_run_nth:
  assumes "i < length es"
  shows "hygiene_run es gen ! i =
    fresh_names (fst (es ! i)) (snd (es ! i)) (gen + of_nat (length (filter binds (take i es))))"
  using assms
proof (induction es gen arbitrary: i rule: hygiene_run.induct)
  case (2 out mark es gen)
  show ?case
  proof (cases i)
    case (Suc j)
    obtain out' gen' where h: "c_czet_hygienize out mark gen = (out', gen')"
      by (cases "c_czet_hygienize out mark gen")
    have "hygiene_run es gen' ! j
        = fresh_names (fst (es ! j)) (snd (es ! j)) (gen' + of_nat (length (filter binds (take j es))))"
      using "2.IH" [of j] "2.prems" Suc h by simp
    moreover have "binds (out, mark) \<longleftrightarrow> binders_of out mark \<noteq> {}" by (simp add: binds_def)
    ultimately show ?thesis
      using hygienize_gen [OF h] Suc h by (simp add: add.assoc)
  qed simp
qed simp

lemma length_hygiene_run [simp]: "length (hygiene_run es gen) = length es"
  by (induction es gen rule: hygiene_run.induct) auto

lemma filter_take_less:
  assumes "i < j" "j \<le> length xs" "P (xs ! i)"
  shows "length (filter P (take i xs)) < length (filter P (take j xs))"
proof -
  have "take j xs = take i xs @ drop i (take j xs)"
    using assms(1) by (metis append_take_drop_id min.absorb1 order.strict_implies_order take_take)
  moreover have "drop i (take j xs) = xs ! i # drop (Suc i) (take j xs)"
    using assms(1,2) by (subst Cons_nth_drop_Suc [symmetric]) auto
  ultimately have "filter P (take j xs) = filter P (take i xs) @ xs ! i # filter P (drop (Suc i) (take j xs))"
    using assms(3) by (metis filter.simps(2) filter_append)
  then show ?thesis by simp
qed

lemma of_nat_word_distinct:
  "a < b \<Longrightarrow> b < 2 ^ 32 \<Longrightarrow> (of_nat a :: u32) \<noteq> of_nat b"
  by (auto simp: word_unat_eq_iff unsigned_of_nat take_bit_nat_eq_self)

text \<open>
  C21. Two expansions in one translation unit never introduce the same fresh name, for up to \<^verbatim>\<open>2^32\<close>
  expansions.
\<close>

theorem hygiene_run_disjoint:
  assumes "i < j" "j < length es" "length es \<le> 2 ^ 32"
  shows "hygiene_run es gen ! i \<inter> hygiene_run es gen ! j = {}"
proof (cases "binds (es ! i)")
  case True
  let ?n = "\<lambda>k. length (filter binds (take k es))"
  have "?n i < ?n j" using assms True by (intro filter_take_less) auto
  moreover have "?n j < 2 ^ 32"
    using length_filter_le [of binds "take j es"] assms by simp
  ultimately have "(of_nat (?n i) :: u32) \<noteq> of_nat (?n j)" by (rule of_nat_word_distinct)
  with assms show ?thesis
    by (simp add: hygiene_run_nth fresh_names_disjoint)
next
  case False
  with assms show ?thesis
    by (simp add: hygiene_run_nth fresh_names_def binds_def)
qed

theorem hygiene_run_disjoint_witness:
  "let e = ([mk_tok CPP_KEYWORD ''int'', name_tok ''t'', mk_tok CPP_SEMICOLON []], [False, False, False])
   in hygiene_run [e, e] 0 ! 0 \<inter> hygiene_run [e, e] 0 ! 1 = {}"
  unfolding Let_def by (rule hygiene_run_disjoint) simp_all

end
