(* ===== verification/Token_Stream.thy ===== *)
theory Token_Stream
  imports Macro_Data
begin

text \<open>
  The token source of the parser (c-parser.cc): the look-ahead buffer, the injection machinery
  that serves macro expansions before the lexer (\<^verbatim>\<open>c_czet_has_inject\<close>, \<^verbatim>\<open>c_czet_serve_inject\<close>,
  \<^verbatim>\<open>c_czet_push_inject\<close>), and peeking and consuming.  \<open>cp_lexer\<close> is what the preprocessor still has to
  deliver; after its end the lexer delivers \<^verbatim>\<open>CPP_EOF\<close> for ever.  The locale \<open>token_source\<close> is the
  contract the parsing loops rely on; the parser state interprets it.
\<close>

record c_parser =
  cp_tokens :: tokens
  cp_prelexed :: bool
  cp_probing :: bool
  cp_probe_committed :: bool
  cp_probe :: tokens
  cp_inject :: "tokens option"
  cp_inject_pos :: nat
  cp_inject_stack :: "tokens list"
  cp_lexer :: tokens
  cp_error :: bool

definition inject_live :: "c_parser \<Rightarrow> bool" where
  "inject_live ps \<longleftrightarrow> (case cp_inject ps of None \<Rightarrow> False | Some v \<Rightarrow> cp_inject_pos ps < length v)"

definition c_czet_has_inject :: "c_parser \<Rightarrow> bool" where
  "c_czet_has_inject ps \<longleftrightarrow> inject_live ps \<or> cp_inject_stack ps \<noteq> []"

text \<open>The loop of \<^verbatim>\<open>c_czet_serve_inject\<close>; the stack is popped at its end.\<close>

function c_czet_serve_inject :: "c_parser \<Rightarrow> c_token option \<times> c_parser" where
  "c_czet_serve_inject ps =
     (if inject_live ps
      then (Some (the (cp_inject ps) ! cp_inject_pos ps),
            ps\<lparr>cp_inject_pos := cp_inject_pos ps + 1\<rparr>)
      else
        let ps1 = (if cp_inject ps \<noteq> None then ps\<lparr>cp_inject := None, cp_inject_pos := 0\<rparr> else ps)
        in if cp_inject_stack ps1 = [] then (None, ps1)
           else c_czet_serve_inject
                  (ps1\<lparr>cp_inject := Some (last (cp_inject_stack ps1)),
                       cp_inject_stack := butlast (cp_inject_stack ps1), cp_inject_pos := 0\<rparr>))"
  by pat_completeness auto
termination
  by (relation "measure (\<lambda>ps. length (cp_inject_stack ps))") (auto split: if_splits)

definition c_czet_push_inject :: "c_parser \<Rightarrow> tokens \<Rightarrow> c_parser" where
  "c_czet_push_inject ps toks =
     (let ps1 = (case cp_inject ps of
                   None \<Rightarrow> ps
                 | Some v \<Rightarrow>
                     if 0 < length v - cp_inject_pos ps
                     then ps\<lparr>cp_inject_stack := cp_inject_stack ps @ [drop (cp_inject_pos ps) v]\<rparr>
                     else ps)
      in ps1\<lparr>cp_inject := Some toks, cp_inject_pos := 0\<rparr>)"

definition c_lex_one_token :: "c_parser \<Rightarrow> c_token \<times> c_parser" where
  "c_lex_one_token ps =
     (let lex = (\<lambda>p. case cp_lexer p of [] \<Rightarrow> (eof_tok, p) | t # ts \<Rightarrow> (t, p\<lparr>cp_lexer := ts\<rparr>))
      in if c_czet_has_inject ps then
           (case c_czet_serve_inject ps of (Some t, ps') \<Rightarrow> (t, ps') | (None, ps') \<Rightarrow> lex ps')
         else lex ps)"

definition c_parser_peek_token :: "c_parser \<Rightarrow> c_token \<times> c_parser" where
  "c_parser_peek_token ps =
     (case cp_tokens ps of
        [] \<Rightarrow> (case c_lex_one_token ps of (t, ps') \<Rightarrow> (t, ps'\<lparr>cp_tokens := [t]\<rparr>))
      | t # ts \<Rightarrow> (t, ps))"

text \<open>Token \<open>n\<close> (from 1), the first \<open>n - 1\<close> being read in already.\<close>

definition c_parser_peek_nth_token :: "c_parser \<Rightarrow> nat \<Rightarrow> c_token \<times> c_parser" where
  "c_parser_peek_nth_token ps n =
     (if n \<le> length (cp_tokens ps) then (cp_tokens ps ! (n - 1), ps)
      else (case c_lex_one_token ps of (t, ps') \<Rightarrow> (t, ps'\<lparr>cp_tokens := cp_tokens ps @ [t]\<rparr>)))"

definition c_parser_consume_token :: "c_parser \<Rightarrow> c_parser" where
  "c_parser_consume_token ps =
     ps\<lparr>cp_probe := (if cp_probing ps \<and> \<not> cp_probe_committed ps
                      then cp_probe ps @ take 1 (cp_tokens ps) else cp_probe ps),
        cp_tokens := tl (cp_tokens ps)\<rparr>"

text \<open>\<^verbatim>\<open>c_parser_require\<close>: consume the expected token, or raise the error flag.\<close>

definition c_parser_require :: "c_parser \<Rightarrow> cpp_ttype \<Rightarrow> bool \<times> c_parser" where
  "c_parser_require ps ty =
     (case c_parser_peek_token ps of (t, ps1) \<Rightarrow>
        if tk_type t = ty then (True, c_parser_consume_token ps1) else (False, ps1\<lparr>cp_error := True\<rparr>))"

declare c_czet_serve_inject.simps [simp del]

subsection \<open>The stream a parser state stands for\<close>

definition inject_rest :: "c_parser \<Rightarrow> tokens" where
  "inject_rest ps =
     (case cp_inject ps of None \<Rightarrow> [] | Some v \<Rightarrow> drop (cp_inject_pos ps) v) @ concat (rev (cp_inject_stack ps))"

definition stream :: "c_parser \<Rightarrow> tokens" where
  "stream ps = cp_tokens ps @ inject_rest ps @ cp_lexer ps"

lemma inject_rest_frame [simp]:
  "inject_rest (ps\<lparr>cp_tokens := x\<rparr>) = inject_rest ps"
  "inject_rest (ps\<lparr>cp_probe := x\<rparr>) = inject_rest ps"
  "inject_rest (ps\<lparr>cp_lexer := x\<rparr>) = inject_rest ps"
  "inject_rest (ps\<lparr>cp_error := b\<rparr>) = inject_rest ps"
  by (simp_all add: inject_rest_def cong: option.case_cong)

lemma rev_last_butlast: "xs \<noteq> [] \<Longrightarrow> rev xs = last xs # rev (butlast xs)"
  by (metis append_butlast_last_id rev.simps(2) rev_rev_ident rev_append rev_singleton_conv append_Cons append_Nil)

lemma serve_inject_rest:
  "c_czet_serve_inject ps = (r, ps') \<Longrightarrow>
     cp_tokens ps' = cp_tokens ps \<and> cp_lexer ps' = cp_lexer ps
     \<and> (case r of None \<Rightarrow> inject_rest ps = [] \<and> inject_rest ps' = []
        | Some t \<Rightarrow> inject_rest ps = t # inject_rest ps')"
proof (induction ps rule: c_czet_serve_inject.induct)
  case (1 ps)
  show ?case
  proof (cases "inject_live ps")
    case True
    with "1.prems" show ?thesis
      by (subst (asm) c_czet_serve_inject.simps)
         (auto simp: inject_live_def inject_rest_def Cons_nth_drop_Suc split: option.splits)
  next
    case False
    define ps1 where "ps1 = (if cp_inject ps \<noteq> None then ps\<lparr>cp_inject := None, cp_inject_pos := 0\<rparr> else ps)"
    have ps1: "cp_tokens ps1 = cp_tokens ps" "cp_lexer ps1 = cp_lexer ps" "cp_inject ps1 = None"
      "cp_inject_stack ps1 = cp_inject_stack ps" by (auto simp: ps1_def)
    have rest: "inject_rest ps = concat (rev (cp_inject_stack ps))"
      using False by (auto simp: inject_rest_def inject_live_def split: option.splits)
    show ?thesis
    proof (cases "cp_inject_stack ps = []")
      case True
      with False "1.prems" have "r = None" "ps' = ps1"
        by (subst (asm) c_czet_serve_inject.simps; auto simp: Let_def ps1_def split: if_splits)+
      with True ps1 rest show ?thesis by (simp add: inject_rest_def)
    next
      case ne: False
      let ?ps2 = "ps1\<lparr>cp_inject := Some (last (cp_inject_stack ps1)),
        cp_inject_stack := butlast (cp_inject_stack ps1), cp_inject_pos := 0\<rparr>"
      have "c_czet_serve_inject ?ps2 = (r, ps')"
        using False ne "1.prems" ps1 by (subst (asm) c_czet_serve_inject.simps) (simp add: Let_def ps1_def)
      moreover have "inject_rest ?ps2 = inject_rest ps"
        unfolding rest using ne ps1 by (simp add: inject_rest_def rev_last_butlast)
      ultimately show ?thesis
        using "1.IH" [OF False ps1_def] ne ps1 by (simp split: option.splits)
    qed
  qed
qed

lemma no_inject_rest: "\<not> c_czet_has_inject ps \<Longrightarrow> inject_rest ps = []"
  by (auto simp: c_czet_has_inject_def inject_live_def inject_rest_def split: option.splits)

lemma lex_one_token_stream:
  assumes "c_lex_one_token ps = (t, ps')"
  shows "cp_tokens ps' = cp_tokens ps" (is ?A)
    "(inject_rest ps @ cp_lexer ps = t # inject_rest ps' @ cp_lexer ps')
     \<or> (inject_rest ps @ cp_lexer ps = [] \<and> t = eof_tok \<and> inject_rest ps' @ cp_lexer ps' = [])" (is ?B)
proof -
  have "?A \<and> ?B"
  proof (cases "c_czet_has_inject ps")
    case True
    obtain r ps1 where r: "c_czet_serve_inject ps = (r, ps1)" by (cases "c_czet_serve_inject ps")
    with serve_inject_rest [OF r] True assms show ?thesis
      by (auto simp: c_lex_one_token_def Let_def split: option.splits list.splits)
  next
    case False
    with no_inject_rest [OF False] assms show ?thesis
      by (auto simp: c_lex_one_token_def Let_def split: list.splits)
  qed
  then show ?A ?B by auto
qed

lemma peek_token_stream:
  assumes "c_parser_peek_token ps = (t, ps')"
  shows "(\<exists>ts. stream ps = t # ts \<and> stream ps' = t # ts) \<or> (stream ps = [] \<and> t = eof_tok \<and> stream ps' = [eof_tok])"
    and "\<exists>ts. cp_tokens ps' = t # ts" "cp_tokens ps = [] \<Longrightarrow> cp_tokens ps' = [t]"
    "cp_tokens ps \<noteq> [] \<Longrightarrow> ps' = ps"
  using assms lex_one_token_stream [of ps]
  by (auto simp: c_parser_peek_token_def stream_def split: list.splits prod.splits)

lemma consume_token_stream: "cp_tokens ps = t # ts \<Longrightarrow> stream (c_parser_consume_token ps) = tl (stream ps)"
  by (simp add: c_parser_consume_token_def stream_def)

text \<open>Pushed tokens come next, after what has already been read ahead.\<close>

lemma push_inject_stream:
  "stream (c_czet_push_inject ps toks) = cp_tokens ps @ toks @ inject_rest ps @ cp_lexer ps"
  by (auto simp: c_czet_push_inject_def stream_def inject_rest_def Let_def split: option.splits)

subsection \<open>The contract of a token source\<close>

locale token_source =
  fixes strm :: "'s \<Rightarrow> tokens"
    and peek :: "'s \<Rightarrow> c_token \<times> 's"
    and consume :: "'s \<Rightarrow> 's"
  assumes peek_head: "strm s = t # ts \<Longrightarrow> fst (peek s) = t \<and> strm (snd (peek s)) = t # ts"
    and peek_end: "strm s = [] \<Longrightarrow> tk_type (fst (peek s)) = CPP_EOF"
    and consume_tail: "strm (consume (snd (peek s))) = tl (strm s)"
begin

lemma peek_hd: "strm s \<noteq> [] \<Longrightarrow> fst (peek s) = hd (strm s)"
  using peek_head by (cases "strm s") auto

lemma peek_not_eof: "tk_type (fst (peek s)) \<noteq> CPP_EOF \<Longrightarrow> \<exists>ts. strm s = fst (peek s) # ts"
  using peek_end peek_head by (cases "strm s") auto

lemma progress:
  "tk_type (fst (peek s)) \<noteq> CPP_EOF \<Longrightarrow> length (strm (consume (snd (peek s)))) < length (strm s)"
  using peek_not_eof [of s] consume_tail [of s] by auto

end

interpretation parser: token_source stream c_parser_peek_token c_parser_consume_token
proof unfold_locales
  fix s t ts
  assume "stream s = t # ts"
  then show "fst (c_parser_peek_token s) = t \<and> stream (snd (c_parser_peek_token s)) = t # ts"
    using peek_token_stream(1) [of s "fst (c_parser_peek_token s)" "snd (c_parser_peek_token s)"] by auto
next
  fix s
  assume "stream s = []"
  then show "tk_type (fst (c_parser_peek_token s)) = CPP_EOF"
    using peek_token_stream(1) [of s "fst (c_parser_peek_token s)" "snd (c_parser_peek_token s)"]
    by (auto simp: eof_tok_def mk_tok_def)
next
  fix s
  obtain t s' where p: "c_parser_peek_token s = (t, s')" by (cases "c_parser_peek_token s")
  obtain ts where "cp_tokens s' = t # ts" using peek_token_stream(2) [OF p] by blast
  with consume_token_stream [OF this] peek_token_stream(1) [OF p] p
  show "stream (c_parser_consume_token (snd (c_parser_peek_token s))) = tl (stream s)"
    by auto
qed

subsection \<open>Tokens left before the end of the input\<close>

text \<open>The measure of every loop over the source: the tokens other than \<^verbatim>\<open>CPP_EOF\<close> still to come.\<close>

definition live :: "c_parser \<Rightarrow> nat" where
  "live ps = length (filter (\<lambda>t. tk_type t \<noteq> CPP_EOF) (stream ps))"

lemma peek_live: "c_parser_peek_token ps = (t, ps') \<Longrightarrow> live ps' = live ps"
  using peek_token_stream(1) [of ps t ps'] by (auto simp: live_def eof_tok_def mk_tok_def)

lemma consume_live_le: "live (c_parser_consume_token ps) \<le> live ps"
  by (cases "cp_tokens ps") (auto simp: live_def c_parser_consume_token_def stream_def)

lemma peek_consume_live:
  assumes "c_parser_peek_token ps = (t, ps')" "tk_type t \<noteq> CPP_EOF"
  shows "live (c_parser_consume_token ps') < live ps"
proof -
  have "stream (c_parser_consume_token ps') = tl (stream ps)"
    using parser.consume_tail [of ps] assms(1) by simp
  moreover obtain ts where "stream ps = t # ts"
    using parser.peek_not_eof [of ps] assms by auto
  ultimately show ?thesis using assms(2) by (simp add: live_def)
qed

lemma require_live:
  assumes "c_parser_require ps ty = (b, ps')"
  shows "live ps' \<le> live ps"
proof -
  obtain t ps1 where p: "c_parser_peek_token ps = (t, ps1)" by (cases "c_parser_peek_token ps")
  have "live (ps1\<lparr>cp_error := True\<rparr>) = live ps1" by (simp add: live_def stream_def)
  with assms p peek_live [OF p] consume_live_le [of ps1] show ?thesis
    by (auto simp: c_parser_require_def split: if_splits)
qed

subsection \<open>Error recovery\<close>

text \<open>The loop of \<^verbatim>\<open>c_parser_skip_until_found\<close>; the nesting depth wraps as an unsigned does.\<close>

definition nest_step :: "cpp_ttype \<Rightarrow> u32 \<Rightarrow> u32 option" where
  "nest_step ty depth =
     (if ty \<in> {CPP_OPEN_BRACE, CPP_OPEN_PAREN, CPP_OPEN_SQUARE} then Some (depth + 1)
      else if ty \<in> {CPP_CLOSE_BRACE, CPP_CLOSE_PAREN, CPP_CLOSE_SQUARE}
      then (if depth = 0 then None else Some (depth - 1))
      else Some depth)"

function skip_loop :: "cpp_ttype \<Rightarrow> u32 \<Rightarrow> c_parser \<Rightarrow> c_parser" where
  "skip_loop ty depth ps =
     (case c_parser_peek_token ps of (t, ps1) \<Rightarrow>
        if tk_type t = ty \<and> depth = 0 then (c_parser_consume_token ps1)\<lparr>cp_error := False\<rparr>
        else if tk_type t = CPP_EOF then ps1
        else (case nest_step (tk_type t) depth of
                None \<Rightarrow> ps1\<lparr>cp_error := False\<rparr>
              | Some depth' \<Rightarrow> skip_loop ty depth' (c_parser_consume_token ps1)))"
  by pat_completeness auto
termination
  by (relation "measure (\<lambda>(ty, depth, ps). live ps)") (auto dest: peek_consume_live [OF sym])

definition c_parser_skip_until_found :: "c_parser \<Rightarrow> cpp_ttype \<Rightarrow> c_parser" where
  "c_parser_skip_until_found ps ty =
     (case c_parser_require ps ty of (found, ps1) \<Rightarrow> if found then ps1 else skip_loop ty 0 ps1)"

declare skip_loop.simps [simp del]

end
