(* ===== verification/Macro_Invoke.thy ===== *)
theory Macro_Invoke
  imports Macro_Expand Macro_Hygiene Token_Stream
begin

text \<open>
  Macro invocation and macro definition over the token source: \<^verbatim>\<open>c_czet_try_invoke\<close>,
  \<^verbatim>\<open>c_czet_take_balanced\<close> and \<^verbatim>\<open>c_parser_czet_macro_definition\<close>.  The registry and the hygiene counter
  are passed; every \<^verbatim>\<open>error_at\<close> of the definition parser is a value of \<open>macro_error\<close>.  \<open>None\<close> is
  an invocation whose matcher writes past its vector of positions.
\<close>

subsection \<open>Collecting an invocation\<close>

text \<open>One token of the argument list: the new angle depth and parenthesis depth.\<close>

definition angle_step :: "cpp_ttype \<Rightarrow> u32 \<Rightarrow> u32 \<Rightarrow> u32 \<times> u32" where
  "angle_step ty ang par =
     (if ty = CPP_LESS then (if par = 0 then ang + 1 else ang, par)
      else if ty = CPP_GREATER then (if par = 0 then (if ang = 1 then 0 else ang - 1) else ang, par)
      else if ty = CPP_LSHIFT then (if par = 0 then ang + 2 else ang, par)
      else if ty = CPP_RSHIFT then (if par = 0 then (if 2 < ang then ang - 2 else 0) else ang, par)
      else if ty \<in> {CPP_OPEN_PAREN, CPP_OPEN_SQUARE, CPP_OPEN_BRACE} then (ang, par + 1)
      else if ty \<in> {CPP_CLOSE_PAREN, CPP_CLOSE_SQUARE, CPP_CLOSE_BRACE}
      then (ang, if 0 < par then par - 1 else par)
      else (ang, par))"

text \<open>
  The token \<open>t\<close> that the \<^verbatim>\<open>switch\<close> inspects was read through a pointer to the first look-ahead slot,
  which \<^verbatim>\<open>c_parser_consume_token\<close> overwrites when more look-ahead is buffered.
\<close>

definition slot_type :: "c_token \<Rightarrow> c_parser \<Rightarrow> cpp_ttype" where
  "slot_type t ps = (if cp_prelexed ps then tk_type t
     else (case cp_tokens ps of [] \<Rightarrow> tk_type t | u # _ \<Rightarrow> tk_type u))"

function angle_loop :: "u32 \<Rightarrow> u32 \<Rightarrow> tokens \<Rightarrow> c_parser \<Rightarrow> bool \<times> tokens \<times> c_parser" where
  "angle_loop ang par iv ps =
     (if ang = 0 then (True, iv, ps)
      else (case c_parser_peek_token ps of (t, ps1) \<Rightarrow>
        if tk_type t = CPP_EOF then (False, iv, ps1)
        else
          let ps2 = c_parser_consume_token ps1;
              (ang', par') = angle_step (slot_type t ps2) ang par
          in angle_loop ang' par' (iv @ [t]) ps2))"
  by pat_completeness auto
termination
  by (relation "measure (\<lambda>(ang, par, iv, ps). live ps)") (auto dest: peek_consume_live [OF sym])

declare angle_loop.simps [simp del]

text \<open>The tokens consumed for an invocation, whether its \<^verbatim>\<open><\<close> was closed, and the new state.\<close>

definition take_invocation :: "c_token \<Rightarrow> c_parser \<Rightarrow> bool \<times> tokens \<times> c_parser" where
  "take_invocation tok0 ps =
     (case c_parser_peek_token (c_parser_consume_token ps) of (t, ps1) \<Rightarrow>
        if tk_type t = CPP_LESS then angle_loop 1 0 [tok0, t] (c_parser_consume_token ps1)
        else (True, [tok0], ps1))"

text \<open>The match input: the invocation without its angle brackets.\<close>

definition invocation_args :: "tokens \<Rightarrow> tokens" where
  "invocation_args iv = hd iv # span iv 2 (length iv - 1)"

subsection \<open>Trying the arms\<close>

definition match_arm :: "c_macro_param list \<Rightarrow> c_macro_arm \<Rightarrow> tokens \<Rightarrow> (bool \<times> mstate) option" where
  "match_arm params arm args =
     (let st = init_mstate (length params) in
      case arm_pattern_tree arm of
        Some tree \<Rightarrow> c_czet_matcher_tree params tree args 0 st
      | None \<Rightarrow> (case c_czet_matcher params (arm_pattern arm) args 0 (ms_caps st) of
                   (b, caps) \<Rightarrow> Some (b, st\<lparr>ms_caps := caps\<rparr>)))"

definition expand_arm :: "c_macro_param list \<Rightarrow> c_macro_arm \<Rightarrow> mstate \<Rightarrow> tokens
    \<Rightarrow> tokens \<times> bool list \<times> (nat \<times> nat) list" where
  "expand_arm params arm ms args =
     (case arm_expansion_tree arm of
        Some tree \<Rightarrow> (let es = c_czet_build_expansion_tree params tree ms args
                      in (es_out es, es_mark es, es_errs es))
      | None \<Rightarrow> (case c_czet_build_expansion params (arm_expansion arm) (ms_caps ms) args of
                   (out, mark) \<Rightarrow> (out, mark, [])))"

text \<open>The loop over the arms: the hygienic expansion of the first arm that matches.\<close>

fun try_arms :: "c_macro_param list \<Rightarrow> c_macro_arm list \<Rightarrow> tokens \<Rightarrow> u32
    \<Rightarrow> (tokens \<times> u32 \<times> (nat \<times> nat) list) option option" where
  "try_arms params [] args gen = Some None"
| "try_arms params (arm # arms) args gen =
     (case match_arm params arm args of
        None \<Rightarrow> None
      | Some (True, ms) \<Rightarrow>
          (case expand_arm params arm ms args of (expn, mark, errs) \<Rightarrow>
             (case c_czet_hygienize expn mark gen of (expn', gen') \<Rightarrow> Some (Some (expn', gen', errs))))
      | Some (False, ms) \<Rightarrow> try_arms params arms args gen)"

text \<open>Whether an expansion took place, the counter, the expansion diagnostics, the parser.\<close>

definition c_czet_try_invoke :: "macro_map \<Rightarrow> u32 \<Rightarrow> c_parser
    \<Rightarrow> (bool \<times> u32 \<times> (nat \<times> nat) list \<times> c_parser) option" where
  "c_czet_try_invoke macros gen ps =
     (case c_parser_peek_token ps of (tok0, ps1) \<Rightarrow>
        if tk_type tok0 \<noteq> CPP_NAME \<or> tk_id_kind tok0 = C_ID_TYPENAME then Some (False, gen, [], ps1)
        else if starts_dollar (tk_value tok0) then Some (False, gen, [], ps1)
        else (case c_czet_macro_lookup macros (tk_value tok0) of
          None \<Rightarrow> Some (False, gen, [], ps1)
        | Some def \<Rightarrow>
            (case take_invocation tok0 ps1 of (angle_ok, iv, ps2) \<Rightarrow>
               if \<not> angle_ok then Some (False, gen, [], c_czet_push_inject ps2 iv)
               else (case try_arms (md_params def) (md_arms def) (invocation_args iv) gen of
                       None \<Rightarrow> None
                     | Some None \<Rightarrow> Some (False, gen, [], c_czet_push_inject ps2 iv)
                     | Some (Some (expn, gen', errs)) \<Rightarrow>
                         Some (True, gen', errs, c_czet_push_inject ps2 expn)))))"

subsection \<open>Balanced content\<close>

datatype macro_error =
    Expected_name | Redefinition string | Expected cpp_ttype | Expected_param | Expected_kind
  | Expected_op | Expected_comma_or_greater | Unexpected_eof | Unclosed_delimiter
  | Bad_tree tree_error

function balanced_loop :: "cpp_ttype \<Rightarrow> cpp_ttype \<Rightarrow> u32 \<Rightarrow> tokens \<Rightarrow> c_parser
    \<Rightarrow> (macro_error + tokens) \<times> c_parser" where
  "balanced_loop op cl depth toks ps =
     (if depth = 0 then (Inr toks, ps)
      else (case c_parser_peek_token ps of (t, ps1) \<Rightarrow>
        if tk_type t = CPP_EOF then (Inl Unclosed_delimiter, ps1)
        else
          let depth' = (if tk_type t = op then depth + 1 else if tk_type t = cl then depth - 1 else depth)
          in balanced_loop op cl depth' (if 0 < depth' then toks @ [t] else toks)
               (c_parser_consume_token ps1)))"
  by pat_completeness auto
termination
  by (relation "measure (\<lambda>(op, cl, depth, toks, ps). live ps)") (auto dest: peek_consume_live [OF sym])

declare balanced_loop.simps [simp del]

definition c_czet_take_balanced :: "cpp_ttype \<Rightarrow> cpp_ttype \<Rightarrow> c_parser
    \<Rightarrow> (macro_error + tokens) \<times> c_parser" where
  "c_czet_take_balanced op cl ps =
     (case c_parser_peek_token ps of (t, ps1) \<Rightarrow>
        if tk_type t \<noteq> op then (Inl (Expected op), ps1)
        else balanced_loop op cl 1 [] (c_parser_consume_token ps1))"

subsection \<open>Parsing a definition\<close>

type_synonym 'a presult = "(macro_error + 'a) \<times> c_parser"

definition pbind :: "'a presult \<Rightarrow> ('a \<Rightarrow> c_parser \<Rightarrow> 'b presult) \<Rightarrow> 'b presult" where
  "pbind r f = (case r of (Inl e, ps) \<Rightarrow> (Inl e, ps) | (Inr x, ps) \<Rightarrow> f x ps)"

definition fail_skip :: "macro_error \<Rightarrow> c_parser \<Rightarrow> 'a presult" where
  "fail_skip e ps = (Inl e, c_parser_skip_until_found ps CPP_SEMICOLON)"

definition need :: "cpp_ttype \<Rightarrow> c_parser \<Rightarrow> unit presult" where
  "need ty ps = (case c_parser_require ps ty of
     (True, ps1) \<Rightarrow> (Inr (), ps1) | (False, ps1) \<Rightarrow> (Inl (Expected ty), ps1))"

text \<open>\<^verbatim>\<open>: fragment\<close>, common to plain and repeated parameters.\<close>

definition parse_kind :: "c_parser \<Rightarrow> macro_frag presult" where
  "parse_kind ps = pbind (need CPP_COLON ps) (\<lambda>_ ps1.
     case c_parser_peek_token ps1 of (t, ps2) \<Rightarrow>
       (case (if tk_type t = CPP_NAME then c_czet_macro_kind_from_name (tk_value t) else None) of
          None \<Rightarrow> (Inl Expected_kind, ps2)
        | Some f \<Rightarrow> (Inr f, c_parser_consume_token ps2)))"

definition plain_param :: "c_token \<Rightarrow> c_parser \<Rightarrow> c_macro_param presult" where
  "plain_param pt ps = pbind (parse_kind (c_parser_consume_token ps)) (\<lambda>f ps1.
     (Inr \<lparr>mp_name = tk_value pt, mp_kind = CZET_KIND f, mp_repeat_mod = CHR 0x00,
           mp_repeat_sep = eof_tok, mp_rep_depth = -1\<rparr>, ps1))"

text \<open>The optional separator and the operator that close a repeated parameter.\<close>

definition parse_rep_op :: "c_parser \<Rightarrow> (c_token \<times> char) presult" where
  "parse_rep_op ps =
     (case c_parser_peek_token ps of (m, ps1) \<Rightarrow>
        if is_rep_op m then (Inr (eof_tok, rep_mod m), c_parser_consume_token ps1)
        else if tk_type m = CPP_GREATER \<or> tk_type m = CPP_EOF then (Inl Expected_op, ps1)
        else (case c_parser_peek_token (c_parser_consume_token ps1) of (m2, ps2) \<Rightarrow>
                if is_rep_op m2 then (Inr (m, rep_mod m2), c_parser_consume_token ps2)
                else fail_skip Expected_op ps2))"

definition rep_param :: "c_parser \<Rightarrow> c_macro_param presult" where
  "rep_param ps =
     (case c_parser_peek_token (c_parser_consume_token (c_parser_consume_token ps)) of (pt, ps1) \<Rightarrow>
        if tk_type pt \<noteq> CPP_NAME \<or> \<not> starts_dollar (tk_value pt) then fail_skip Expected_param ps1
        else pbind (parse_kind (c_parser_consume_token ps1)) (\<lambda>f ps2.
             pbind (need CPP_CLOSE_PAREN ps2) (\<lambda>_ ps3.
             pbind (parse_rep_op ps3) (\<lambda>(sep, m) ps4.
               (Inr \<lparr>mp_name = tk_value pt, mp_kind = CZET_KIND_REPEAT f, mp_repeat_mod = m,
                     mp_repeat_sep = sep, mp_rep_depth = -1\<rparr>, ps4)))))"

text \<open>One parameter; \<open>pt\<close> is the current token.\<close>

definition parse_param :: "c_token \<Rightarrow> c_parser \<Rightarrow> c_macro_param presult" where
  "parse_param pt ps =
     (if tk_type pt \<noteq> CPP_NAME \<or> \<not> starts_dollar (tk_value pt) then fail_skip Expected_param ps
      else if tk_value pt = ''$'' then
        (case c_parser_peek_nth_token ps 2 of (t2, ps1) \<Rightarrow>
           if tk_type t2 = CPP_OPEN_PAREN then rep_param ps1 else plain_param pt ps1)
      else plain_param pt ps)"

subsection \<open>Progress of the parsing steps\<close>

lemma skip_loop_live: "live (skip_loop ty depth ps) \<le> live ps"
proof (induction ty depth ps rule: skip_loop.induct)
  case (1 ty depth ps)
  obtain t ps1 where p: "c_parser_peek_token ps = (t, ps1)" by (cases "c_parser_peek_token ps")
  have err: "live (q\<lparr>cp_error := b\<rparr>) = live q" for q b by (simp add: live_def stream_def)
  have "live (skip_loop ty d (c_parser_consume_token ps1)) \<le> live ps"
    if "\<not> (tk_type t = ty \<and> depth = 0)" "tk_type t \<noteq> CPP_EOF" "nest_step (tk_type t) depth = Some d" for d
    using "1.IH" [OF p [symmetric] that] consume_live_le [of ps1] peek_live [OF p] by linarith
  then show ?case
    using p peek_live [OF p] consume_live_le [of ps1] err
    by (subst skip_loop.simps) (auto split: option.split)
qed

lemma skip_until_live: "live (c_parser_skip_until_found ps ty) \<le> live ps"
proof -
  obtain b ps1 where r: "c_parser_require ps ty = (b, ps1)" by (cases "c_parser_require ps ty")
  with require_live [OF r] skip_loop_live [of ty 0 ps1] show ?thesis
    by (auto simp: c_parser_skip_until_found_def)
qed

text \<open>\<open>shrinks r ps\<close>: the step that gave \<open>r\<close> has not added input.\<close>

definition shrinks :: "'a presult \<Rightarrow> c_parser \<Rightarrow> bool" where
  "shrinks r ps \<longleftrightarrow> live (snd r) \<le> live ps"

lemma shrinks_pbind:
  assumes "shrinks r ps" "\<And>x q. live q \<le> live ps \<Longrightarrow> shrinks (f x q) ps"
  shows "shrinks (pbind r f) ps"
  using assms by (auto simp: shrinks_def pbind_def split: prod.splits sum.splits)

lemma peek_live_le: "live (snd (c_parser_peek_token ps)) = live ps"
  using peek_live [of ps] by (cases "c_parser_peek_token ps") auto

lemma shrinks_fail [simp]: "live q \<le> live ps \<Longrightarrow> shrinks (fail_skip e q) ps"
  using skip_until_live [of q CPP_SEMICOLON] by (simp add: shrinks_def fail_skip_def)

lemma shrinks_need: "live q \<le> live ps \<Longrightarrow> shrinks (need ty q) ps"
  using require_live [of q ty "fst (c_parser_require q ty)" "snd (c_parser_require q ty)"]
  by (auto simp: shrinks_def need_def split: prod.splits bool.splits)

lemma shrinks_parse_kind: "live q \<le> live ps \<Longrightarrow> shrinks (parse_kind q) ps"
  unfolding parse_kind_def
proof (rule shrinks_pbind [OF shrinks_need], assumption)
  fix x :: unit and r
  assume r: "live r \<le> live ps"
  obtain t r' where p: "c_parser_peek_token r = (t, r')" by (cases "c_parser_peek_token r")
  with peek_live [OF p] consume_live_le [of r'] r
  show "shrinks (case c_parser_peek_token r of (t, ps2) \<Rightarrow>
       (case (if tk_type t = CPP_NAME then c_czet_macro_kind_from_name (tk_value t) else None) of
          None \<Rightarrow> (Inl Expected_kind, ps2) | Some f \<Rightarrow> (Inr f, c_parser_consume_token ps2))) ps"
    by (auto simp: shrinks_def split: option.split)
qed

lemma shrinks_plain: "live q \<le> live ps \<Longrightarrow> shrinks (plain_param pt q) ps"
  unfolding plain_param_def using consume_live_le [of q]
  by (intro shrinks_pbind shrinks_parse_kind) (auto simp: shrinks_def)

lemma shrinks_rep_op: "live q \<le> live ps \<Longrightarrow> shrinks (parse_rep_op q) ps"
proof -
  assume q: "live q \<le> live ps"
  obtain m q1 where p1: "c_parser_peek_token q = (m, q1)" by (cases "c_parser_peek_token q")
  obtain m2 q2 where p2: "c_parser_peek_token (c_parser_consume_token q1) = (m2, q2)"
    by (cases "c_parser_peek_token (c_parser_consume_token q1)")
  from p1 p2 q peek_live [OF p1] peek_live [OF p2] consume_live_le [of q1] consume_live_le [of q2]
  show ?thesis by (auto simp: parse_rep_op_def shrinks_def fail_skip_def intro: order_trans [OF skip_until_live])
qed

lemma shrinks_rep_param: "live q \<le> live ps \<Longrightarrow> shrinks (rep_param q) ps"
proof -
  assume q: "live q \<le> live ps"
  obtain pt q1 where p: "c_parser_peek_token (c_parser_consume_token (c_parser_consume_token q)) = (pt, q1)"
    by (cases "c_parser_peek_token (c_parser_consume_token (c_parser_consume_token q))")
  have q1: "live q1 \<le> live ps" "live (c_parser_consume_token q1) \<le> live ps"
    using peek_live [OF p] consume_live_le [of q] consume_live_le [of "c_parser_consume_token q"]
      consume_live_le [of q1] q by linarith+
  have "shrinks (pbind (parse_kind (c_parser_consume_token q1)) (\<lambda>f ps2.
             pbind (need CPP_CLOSE_PAREN ps2) (\<lambda>_ ps3.
             pbind (parse_rep_op ps3) (\<lambda>(sep, m) ps4.
               (Inr \<lparr>mp_name = tk_value pt, mp_kind = CZET_KIND_REPEAT f, mp_repeat_mod = m,
                     mp_repeat_sep = sep, mp_rep_depth = -1\<rparr>, ps4))))) ps"
    using q1 by (intro shrinks_pbind shrinks_parse_kind shrinks_need shrinks_rep_op)
      (auto simp: shrinks_def split: prod.split)
  with p q1 show ?thesis by (simp add: rep_param_def)
qed

lemma lex_live:
  assumes "c_lex_one_token ps = (t, ps')"
  shows "live (ps'\<lparr>cp_tokens := cp_tokens ps @ [t]\<rparr>) = live ps"
proof -
  let ?p = "\<lambda>t. tk_type t \<noteq> CPP_EOF"
  have split: "live q = length (filter ?p (cp_tokens q)) + length (filter ?p (inject_rest q @ cp_lexer q))" for q
    by (simp add: live_def stream_def)
  show ?thesis
    using lex_one_token_stream [OF assms]
    by (auto simp: split simp del: filter_append) (auto simp: eof_tok_def mk_tok_def)
qed

lemma peek_nth_live: "live (snd (c_parser_peek_nth_token ps n)) = live ps"
  using lex_live [of ps] by (auto simp: c_parser_peek_nth_token_def split: prod.split)

lemma shrinks_parse_param: "live q \<le> live ps \<Longrightarrow> shrinks (parse_param pt q) ps"
  using peek_nth_live [of q 2] shrinks_plain shrinks_rep_param
  by (auto simp: parse_param_def split: prod.split)

lemma balanced_loop_live: "shrinks (balanced_loop op cl depth toks ps) ps"
proof (induction op cl depth toks ps rule: balanced_loop.induct)
  case (1 op cl depth toks ps)
  obtain t ps1 where p: "c_parser_peek_token ps = (t, ps1)" by (cases "c_parser_peek_token ps")
  with "1.IH" [OF _ p [symmetric] _ refl] peek_live [OF p] consume_live_le [of ps1] show ?case
    by (subst balanced_loop.simps) (force simp: shrinks_def Let_def)
qed

lemma take_balanced_live:
  assumes "c_czet_take_balanced op cl ps = (r, ps')" "op \<noteq> CPP_EOF"
  shows "live ps' \<le> live ps \<and> (\<forall>ts. r = Inr ts \<longrightarrow> live ps' < live ps)"
proof -
  obtain t ps1 where p: "c_parser_peek_token ps = (t, ps1)" by (cases "c_parser_peek_token ps")
  show ?thesis
  proof (cases "tk_type t = op")
    case True
    then have "live (c_parser_consume_token ps1) < live ps"
      using peek_consume_live [OF p] assms(2) by simp
    with True p assms(1) balanced_loop_live [of op cl 1 "[]" "c_parser_consume_token ps1"] show ?thesis
      by (simp add: c_czet_take_balanced_def shrinks_def)
  next
    case False
    with p assms(1) peek_live [OF p] show ?thesis by (auto simp: c_czet_take_balanced_def)
  qed
qed

subsection \<open>The loops of the definition parser\<close>

function parse_params :: "c_macro_param list \<Rightarrow> c_parser \<Rightarrow> c_macro_param list presult" where
  "parse_params params ps =
     (case c_parser_peek_token ps of (pt, ps1) \<Rightarrow>
        if tk_type pt = CPP_GREATER then (Inr params, c_parser_consume_token ps1)
        else (case parse_param pt ps1 of
                (Inl e, ps2) \<Rightarrow> (Inl e, ps2)
              | (Inr par, ps2) \<Rightarrow>
                  (case c_parser_peek_token ps2 of (t, ps3) \<Rightarrow>
                     if tk_type t = CPP_COMMA then parse_params (params @ [par]) (c_parser_consume_token ps3)
                     else if tk_type t \<noteq> CPP_GREATER then (Inl Expected_comma_or_greater, ps3)
                     else (Inr (params @ [par]), c_parser_consume_token ps3))))"
  by pat_completeness auto
termination
proof (relation "measure (\<lambda>(params, ps). live ps)")
  fix params :: "c_macro_param list" and ps pt ps1 r ps2 par t ps3
  assume "(pt, ps1) = c_parser_peek_token ps" "(r, ps2) = parse_param pt ps1" "r = Inr par"
    "(t, ps3) = c_parser_peek_token ps2" "tk_type t = CPP_COMMA"
  then have "live ps1 = live ps" "live ps2 \<le> live ps1" "live (c_parser_consume_token ps3) < live ps2"
    using peek_live [of ps pt ps1] shrinks_parse_param [of ps1 ps1 pt] peek_consume_live [of ps2 t ps3]
    by (auto simp: shrinks_def) (metis snd_conv)
  then show "((params @ [par], c_parser_consume_token ps3), (params, ps)) \<in> measure (\<lambda>(params, ps). live ps)"
    by simp
qed simp

text \<open>One arm: \<^verbatim>\<open>( pattern ) { expansion }\<close>; the pattern may record nesting depths in the parameters.\<close>

definition parse_arm :: "c_macro_param list \<Rightarrow> c_parser \<Rightarrow> (c_macro_param list \<times> c_macro_arm) presult" where
  "parse_arm params ps =
     (case c_czet_take_balanced CPP_OPEN_PAREN CPP_CLOSE_PAREN ps of
        (Inl e, ps1) \<Rightarrow> (Inl e, ps1)
      | (Inr pat, ps1) \<Rightarrow>
          (case c_czet_parse_tree params pat 0 True of
             Inl e \<Rightarrow> (Inl (Bad_tree e), ps1)
           | Inr (params1, ptree) \<Rightarrow>
               (case c_czet_take_balanced CPP_OPEN_BRACE CPP_CLOSE_BRACE ps1 of
                  (Inl e, ps2) \<Rightarrow> (Inl e, ps2)
                | (Inr body, ps2) \<Rightarrow>
                    (case c_czet_parse_tree params1 body 0 False of
                       Inl e \<Rightarrow> (Inl (Bad_tree e), ps2)
                     | Inr (params2, etree) \<Rightarrow>
                         (Inr (params2, \<lparr>arm_pattern = pat, arm_expansion = body,
                            arm_pattern_tree = Some ptree, arm_expansion_tree = Some etree\<rparr>), ps2)))))"

lemma parse_arm_live:
  assumes "parse_arm params ps = (Inr r, ps')"
  shows "live ps' < live ps"
proof -
  obtain pat ps1 where t1: "c_czet_take_balanced CPP_OPEN_PAREN CPP_CLOSE_PAREN ps = (Inr pat, ps1)"
    using assms by (auto simp: parse_arm_def split: prod.splits sum.splits)
  moreover from t1 assms obtain body where t2: "c_czet_take_balanced CPP_OPEN_BRACE CPP_CLOSE_BRACE ps1 = (Inr body, ps')"
    by (auto simp: parse_arm_def split: prod.splits sum.splits)
  ultimately show ?thesis
    using take_balanced_live [OF t1] take_balanced_live [OF t2] by auto
qed

function parse_arms :: "c_macro_param list \<Rightarrow> c_macro_arm list \<Rightarrow> c_parser
    \<Rightarrow> (c_macro_param list \<times> c_macro_arm list) presult" where
  "parse_arms params arms ps =
     (case c_parser_peek_token ps of (t, ps1) \<Rightarrow>
        if tk_type t = CPP_CLOSE_BRACE then (Inr (params, arms), c_parser_consume_token ps1)
        else if tk_type t = CPP_EOF then (Inl Unexpected_eof, ps1)
        else (case parse_arm params ps1 of
                (Inl e, ps2) \<Rightarrow> (Inl e, ps2)
              | (Inr (params', arm), ps2) \<Rightarrow> parse_arms params' (arms @ [arm]) ps2))"
  by pat_completeness auto
termination
  by (relation "measure (\<lambda>(params, arms, ps). live ps)")
     (auto dest!: parse_arm_live [OF sym] peek_live [OF sym])

declare parse_params.simps [simp del] parse_arms.simps [simp del]

definition parse_def_body :: "string \<Rightarrow> c_parser \<Rightarrow> c_macro_def presult" where
  "parse_def_body name ps =
     pbind (need CPP_LESS ps) (\<lambda>_ ps1.
     pbind (parse_params [] ps1) (\<lambda>params ps2.
     pbind (need CPP_OPEN_BRACE ps2) (\<lambda>_ ps3.
     pbind (parse_arms params [] ps3) (\<lambda>(params', arms) ps4.
     pbind (need CPP_SEMICOLON ps4) (\<lambda>_ ps5.
       (Inr \<lparr>md_name = name, md_params = params', md_arms = arms\<rparr>, ps5))))))"

definition c_parser_czet_macro_definition :: "macro_map \<Rightarrow> c_parser
    \<Rightarrow> macro_error option \<times> macro_map \<times> c_parser" where
  "c_parser_czet_macro_definition macros ps =
     (case c_parser_peek_token ps of (_, ps0) \<Rightarrow>
      case c_parser_peek_token (c_parser_consume_token ps0) of (t, ps1) \<Rightarrow>
        if tk_type t \<noteq> CPP_NAME \<or> tk_id_kind t = C_ID_TYPENAME
        then (Some Expected_name, macros, c_parser_skip_until_found ps1 CPP_SEMICOLON)
        else
          let name = tk_value t; ps2 = c_parser_consume_token ps1 in
          if c_czet_macro_lookup macros name \<noteq> None
          then (Some (Redefinition name), macros, c_parser_skip_until_found ps2 CPP_SEMICOLON)
          else (case parse_def_body name ps2 of
                  (Inl e, ps3) \<Rightarrow> (Some e, macros, ps3)
                | (Inr def, ps3) \<Rightarrow> (None, c_czet_macro_register macros name def, ps3)))"

subsection \<open>What a registered definition satisfies\<close>

definition arm_ok :: "c_macro_param list \<Rightarrow> c_macro_arm \<Rightarrow> bool" where
  "arm_ok params arm \<longleftrightarrow>
     (\<exists>pt et. arm_pattern_tree arm = Some pt \<and> list_all (node_ok True params 0) pt
        \<and> arm_expansion_tree arm = Some et \<and> list_all (node_ok False params 0) et)"

definition registry_ok :: "macro_map \<Rightarrow> bool" where
  "registry_ok macros \<longleftrightarrow> (\<forall>name def. macros name = Some def \<longrightarrow>
     md_name def = name \<and> (\<forall>arm \<in> set (md_arms def). arm_ok (md_params def) arm))"

lemma arm_ok_extends: "arm_ok P arm \<Longrightarrow> depth_extends P P' \<Longrightarrow> arm_ok P' arm"
  unfolding arm_ok_def using nodes_ok_extends by blast

lemma parse_arm_ok:
  assumes "parse_arm params ps = (Inr (params', arm), ps')"
  shows "depth_extends params params' \<and> arm_ok params' arm"
proof -
  obtain pat params1 pt where 1: "c_czet_parse_tree params pat 0 True = Inr (params1, pt)"
    and "\<exists>body et. c_czet_parse_tree params1 body 0 False = Inr (params', et)
      \<and> arm = \<lparr>arm_pattern = pat, arm_expansion = body, arm_pattern_tree = Some pt, arm_expansion_tree = Some et\<rparr>"
    using assms by (auto simp: parse_arm_def split: prod.splits sum.splits)
  then obtain body et where 2: "c_czet_parse_tree params1 body 0 False = Inr (params', et)"
    "arm_pattern_tree arm = Some pt" "arm_expansion_tree arm = Some et" by auto
  have d1: "depth_extends params params1" "list_all (node_ok True params1 0) pt"
    using parse_tree_ok [OF 1] by auto
  have d2: "depth_extends params1 params'" "list_all (node_ok False params' 0) et"
    using parse_tree_ok [OF 2(1)] by auto
  show ?thesis
    using d1 d2 2(2,3) depth_extends_trans nodes_ok_extends [OF d1(2) d2(1)] by (auto simp: arm_ok_def)
qed

lemma parse_arms_ok:
  "parse_arms params arms ps = (Inr (params', arms'), ps') \<Longrightarrow> \<forall>arm \<in> set arms. arm_ok params arm
     \<Longrightarrow> \<forall>arm \<in> set arms'. arm_ok params' arm"
proof (induction params arms ps rule: parse_arms.induct)
  case (1 params arms ps)
  obtain t ps1 where p: "c_parser_peek_token ps = (t, ps1)" by (cases "c_parser_peek_token ps")
  show ?case
  proof (cases "tk_type t = CPP_CLOSE_BRACE")
    case True
    with p "1.prems" show ?thesis by (subst (asm) parse_arms.simps) simp
  next
    case False
    then obtain params1 arm ps2 where a: "tk_type t \<noteq> CPP_EOF" "parse_arm params ps1 = (Inr (params1, arm), ps2)"
      "parse_arms params1 (arms @ [arm]) ps2 = (Inr (params', arms'), ps')"
      using p "1.prems"(1)
      by (subst (asm) parse_arms.simps) (auto split: if_splits prod.splits sum.splits)
    with parse_arm_ok [OF a(2)] "1.prems"(2) have "\<forall>x \<in> set (arms @ [arm]). arm_ok params1 x"
      using arm_ok_extends by auto
    with "1.IH" [OF p [symmetric] False a(1) a(2) [symmetric] refl refl a(3)] show ?thesis by simp
  qed
qed

lemma pbind_Inr:
  "pbind r f = (Inr y, ps) \<longleftrightarrow> (\<exists>x q. r = (Inr x, q) \<and> f x q = (Inr y, ps))"
  by (auto simp: pbind_def split: prod.splits sum.splits)

lemma parse_def_body_ok:
  assumes "parse_def_body name ps = (Inr def, ps')"
  shows "md_name def = name \<and> (\<forall>arm \<in> set (md_arms def). arm_ok (md_params def) arm)"
proof -
  obtain params ps1 params' arms ps2 where "parse_arms params [] ps1 = (Inr (params', arms), ps2)"
    "def = \<lparr>md_name = name, md_params = params', md_arms = arms\<rparr>"
    using assms by (auto simp: parse_def_body_def pbind_Inr)
  with parse_arms_ok [of params "[]" ps1 params' arms ps2] show ?thesis by simp
qed

lemma macro_definition_cases:
  assumes "c_parser_czet_macro_definition macros ps = (e, macros', ps')"
  obtains (error) err where "e = Some err" "macros' = macros"
  | (registered) name def q where "e = None" "macros name = None" "macros' = macros(name \<mapsto> def)"
      "parse_def_body name q = (Inr def, ps')"
proof -
  obtain t0 ps0 where p0: "c_parser_peek_token ps = (t0, ps0)" by (cases "c_parser_peek_token ps")
  obtain t ps1 where p1: "c_parser_peek_token (c_parser_consume_token ps0) = (t, ps1)"
    by (cases "c_parser_peek_token (c_parser_consume_token ps0)")
  note step = assms [unfolded c_parser_czet_macro_definition_def p0 prod.case p1 Let_def]
  show thesis
  proof (cases "tk_type t \<noteq> CPP_NAME \<or> tk_id_kind t = C_ID_TYPENAME \<or> macros (tk_value t) \<noteq> None")
    case True
    with step error show thesis by (auto simp: c_czet_macro_lookup_def split: if_splits)
  next
    case False
    obtain r q where b: "parse_def_body (tk_value t) (c_parser_consume_token ps1) = (r, q)"
      by (cases "parse_def_body (tk_value t) (c_parser_consume_token ps1)")
    show thesis
    proof (cases r)
      case (Inl err)
      with False step b error show thesis by (auto simp: c_czet_macro_lookup_def)
    next
      case (Inr def)
      with False step b registered show thesis
        by (auto simp: c_czet_macro_lookup_def c_czet_macro_register_def)
    qed
  qed
qed

subsection \<open>The stream across an invocation\<close>

lemma peek_single:
  assumes "c_parser_peek_token ps = (t, ps1)" "length (cp_tokens ps) \<le> 1"
  shows "cp_tokens ps1 = [t]"
proof (cases "cp_tokens ps")
  case Nil
  with peek_token_stream(3) [OF assms(1)] show ?thesis by simp
next
  case (Cons u us)
  with assms show ?thesis by (auto simp: c_parser_peek_token_def)
qed

lemma consume_single: "cp_tokens ps = [t] \<Longrightarrow> cp_tokens (c_parser_consume_token ps) = []"
  by (simp add: c_parser_consume_token_def)

text \<open>Tokens that bring the angle depth to zero with the last one and not before.\<close>

fun closes :: "u32 \<Rightarrow> u32 \<Rightarrow> tokens \<Rightarrow> bool" where
  "closes ang par [] = (ang = 0)"
| "closes ang par (t # ts) = (ang \<noteq> 0 \<and> (case angle_step (tk_type t) ang par of (a, b) \<Rightarrow> closes a b ts))"

lemma angle_loop_stream:
  assumes "angle_loop ang par iv ps = (True, iv', ps')" "cp_tokens ps = []"
  shows "cp_tokens ps' = [] \<and> (\<exists>ts. iv' = iv @ ts \<and> stream ps = ts @ stream ps' \<and> closes ang par ts)"
  using assms
proof (induction ang par iv ps rule: angle_loop.induct)
  case (1 ang par iv ps)
  show ?case
  proof (cases "ang = 0")
    case True
    with "1.prems" show ?thesis by (subst (asm) angle_loop.simps) simp
  next
    case False
    obtain t ps1 where p: "c_parser_peek_token ps = (t, ps1)" by (cases "c_parser_peek_token ps")
    have eof: "tk_type t \<noteq> CPP_EOF"
      using "1.prems"(1) False p by (subst (asm) angle_loop.simps) auto
    let ?ps2 = "c_parser_consume_token ps1"
    obtain a b where step: "angle_step (slot_type t ?ps2) ang par = (a, b)"
      by (cases "angle_step (slot_type t ?ps2) ang par")
    have "angle_loop a b (iv @ [t]) ?ps2 = (True, iv', ps')"
      using "1.prems"(1) False p eof step by (subst (asm) angle_loop.simps) (simp add: Let_def)
    moreover have drained: "cp_tokens ?ps2 = []"
      using peek_single [OF p] consume_single [of ps1] "1.prems"(2) by simp
    ultimately have IH: "cp_tokens ps' = []" "\<exists>ts. iv' = (iv @ [t]) @ ts \<and> stream ?ps2 = ts @ stream ps' \<and> closes a b ts"
      using "1.IH" [OF False p [symmetric] eof refl step [symmetric] refl] by auto
    have "stream ps = t # stream ?ps2"
      using parser.peek_not_eof [of ps] parser.consume_tail [of ps] p eof by auto
    moreover have "slot_type t ?ps2 = tk_type t"
      using drained by (simp add: slot_type_def)
    ultimately show ?thesis using IH step False by auto
  qed
qed

text \<open>The tokens of an invocation: a name, \<^verbatim>\<open><\<close>, and what follows up to the \<^verbatim>\<open>>\<close> that closes it.\<close>

definition invocation_text :: "tokens \<Rightarrow> bool" where
  "invocation_text iv \<longleftrightarrow> (\<exists>t lt ts. iv = t # lt # ts \<and> tk_type lt = CPP_LESS \<and> closes 1 0 ts)"

definition closed_invocation :: "c_token \<Rightarrow> c_parser \<Rightarrow> bool" where
  "closed_invocation tok0 ps \<longleftrightarrow>
     tk_type (fst (c_parser_peek_token (c_parser_consume_token ps))) = CPP_LESS \<and> fst (take_invocation tok0 ps)"

lemma take_invocation_stream:
  assumes "c_parser_peek_token ps = (tok0, ps1)" "length (cp_tokens ps) \<le> 1" "tk_type tok0 \<noteq> CPP_EOF"
    and "closed_invocation tok0 ps1" "take_invocation tok0 ps1 = (b, iv, ps2)"
  shows "cp_tokens ps2 = [] \<and> iv \<noteq> [] \<and> stream ps = iv @ stream ps2 \<and> invocation_text iv"
proof -
  let ?c = "c_parser_consume_token ps1"
  obtain t ps3 where p: "c_parser_peek_token ?c = (t, ps3)" by (cases "c_parser_peek_token ?c")
  have less: "tk_type t = CPP_LESS" using assms(4) p by (simp add: closed_invocation_def)
  have empty: "cp_tokens ?c = []"
    using peek_single [OF assms(1,2)] by (rule consume_single)
  have "cp_tokens (c_parser_consume_token ps3) = []"
    using peek_single [OF p] empty by (intro consume_single) simp
  moreover have "angle_loop 1 0 [tok0, t] (c_parser_consume_token ps3) = (True, iv, ps2)"
    using assms(4,5) p less by (simp add: closed_invocation_def take_invocation_def)
  ultimately obtain ts where ts: "cp_tokens ps2 = []" "iv = [tok0, t] @ ts"
    "stream (c_parser_consume_token ps3) = ts @ stream ps2" "closes 1 0 ts"
    using angle_loop_stream by blast
  have "stream ps = tok0 # stream ?c"
    using parser.peek_not_eof [of ps] parser.consume_tail [of ps] assms(1,3) by auto
  moreover have "stream ?c = t # stream (c_parser_consume_token ps3)"
    using parser.peek_not_eof [of ?c] parser.consume_tail [of ?c] p less by auto
  ultimately show ?thesis using ts less by (auto simp: invocation_text_def)
qed

lemma push_after_drain:
  "cp_tokens ps = [] \<Longrightarrow> stream (c_czet_push_inject ps toks) = toks @ stream ps"
  using push_inject_stream [of ps toks] by (simp add: stream_def)

lemma peek_same_stream: "c_parser_peek_token ps = (t, ps1) \<Longrightarrow> stream ps \<noteq> [] \<Longrightarrow> stream ps1 = stream ps"
  using peek_token_stream(1) [of ps t ps1] by auto

text \<open>An expansion replaces exactly the tokens of the invocation.\<close>

lemma try_invoke_expands:
  assumes "c_czet_try_invoke macros gen ps = Some (True, gen', errs, ps')"
    and "c_parser_peek_token ps = (tok0, ps1)" "length (cp_tokens ps) \<le> 1" "closed_invocation tok0 ps1"
  obtains def iv expn where "macros (tk_value tok0) = Some def"
    "stream ps = iv @ drop (length iv) (stream ps)" "hd iv = tok0" "invocation_text iv"
    "try_arms (md_params def) (md_arms def) (invocation_args iv) gen = Some (Some (expn, gen', errs))"
    "stream ps' = expn @ drop (length iv) (stream ps)"
proof -
  obtain b iv ps2 where inv: "take_invocation tok0 ps1 = (b, iv, ps2)" by (cases "take_invocation tok0 ps1")
  obtain def expn where d: "tk_type tok0 = CPP_NAME" "macros (tk_value tok0) = Some def"
    "try_arms (md_params def) (md_arms def) (invocation_args iv) gen = Some (Some (expn, gen', errs))"
    "ps' = c_czet_push_inject ps2 expn"
    using assms(1,2) inv
    by (auto simp: c_czet_try_invoke_def c_czet_macro_lookup_def split: if_splits option.splits prod.splits)
  have s: "cp_tokens ps2 = []" "stream ps = iv @ stream ps2" and "iv \<noteq> []" and shape: "invocation_text iv"
    using take_invocation_stream [OF assms(2,3) _ assms(4) inv] d(1) by auto
  with s(2) have "hd iv = tok0"
    using peek_token_stream(1) [OF assms(2)] by (cases iv) auto
  with d s shape push_after_drain [OF s(1), of expn] that [of def iv expn] show thesis by simp
qed

subsection \<open>The expansion an invocation injects\<close>

text \<open>It comes from the first arm that matches: every arm before it was tried and does not match.\<close>

lemma try_arms_expansion:
  assumes "try_arms params arms args gen = Some (Some (expn, gen', errs))"
  obtains pre arm post ms raw mark where "arms = pre @ arm # post"
    "\<forall>a \<in> set pre. \<exists>s. match_arm params a args = Some (False, s)" "match_arm params arm args = Some (True, ms)"
    "expand_arm params arm ms args = (raw, mark, errs)" "c_czet_hygienize raw mark gen = (expn, gen')"
proof -
  have "\<exists>pre arm post ms raw mark. arms = pre @ arm # post
    \<and> (\<forall>a \<in> set pre. \<exists>s. match_arm params a args = Some (False, s)) \<and> match_arm params arm args = Some (True, ms)
    \<and> expand_arm params arm ms args = (raw, mark, errs) \<and> c_czet_hygienize raw mark gen = (expn, gen')"
    using assms
  proof (induction arms)
    case (Cons arm arms)
    obtain b ms where m: "match_arm params arm args = Some (b, ms)"
      using Cons.prems by (auto split: option.splits)
    show ?case
    proof (cases b)
      case True
      with m Cons.prems show ?thesis by (intro exI [of _ "[]"]) (auto split: prod.splits)
    next
      case False
      with m Cons obtain pre a post ms' raw mark where "arms = pre @ a # post"
        "\<forall>a \<in> set pre. \<exists>s. match_arm params a args = Some (False, s)" "match_arm params a args = Some (True, ms')"
        "expand_arm params a ms' args = (raw, mark, errs)" "c_czet_hygienize raw mark gen = (expn, gen')" by auto
      with m False show ?thesis by (intro exI [of _ "arm # pre"]) auto
    qed
  qed simp
  then show thesis using that by blast
qed

text \<open>Matching an arm of a registered macro leaves a typed capture store.\<close>

lemma match_arm_typed:
  assumes "arm_ok params arm" "match_arm params arm args = Some (True, ms)" "length args < 2 ^ 32"
  obtains own pt where "store_ok params args own ms" "arm_pattern_tree arm = Some pt" "pat_lang params pt args"
proof -
  obtain pt where pt: "arm_pattern_tree arm = Some pt" "list_all (node_ok True params 0) pt"
    using assms(1) by (auto simp: arm_ok_def)
  have run: "c_czet_matcher_tree params pt args 0 (init_mstate (length params)) = Some (True, ms)"
    using assms(2) pt(1) by (simp add: match_arm_def Let_def)
  then obtain j where j: "c_czet_mt_nodes params pt args 0 (init_mstate (length params)) = Some (True, j, ms)"
    by (auto simp: c_czet_matcher_tree_def split: option.splits bool.splits)
  have "keeps params args (c_czet_mt_nodes params pt args)"
    using mt_nodes_keeps [OF assms(3)] node_ok_uses_below [OF pt(2)] by blast
  from keepsE [OF this init_mstate_ok j] obtain own where "store_ok params args own ms" by auto
  with pt(1) matcher_tree_sound [OF assms(3) run] that show thesis by blast
qed

lemma hygienize_types:
  assumes "c_czet_hygienize out mark gen = (out', gen')"
  shows "map tk_type out' = map tk_type out"
  using hygienize_length [OF assms] hygienize_nth [OF assms] by (auto intro: nth_equalityI)

lemma delta_types: "map tk_type xs = map tk_type ys \<Longrightarrow> map c_czet_delta xs = map c_czet_delta ys"
  by (auto simp: list_eq_iff_nth_eq c_czet_delta_def)

lemma balanced_types:
  assumes "map tk_type xs = map tk_type ys"
  shows "balanced xs \<longleftrightarrow> balanced ys"
proof -
  have len: "length xs = length ys" using arg_cong [OF assms, of length] by simp
  have "depth_of (take k xs) = depth_of (take k ys)" for k
    using delta_types [OF assms] by (simp add: depth_of_def take_map [symmetric])
  then show ?thesis using len by (metis balanced_def take_all_iff order_refl)
qed

definition template_balanced :: "c_macro_arm \<Rightarrow> bool" where
  "template_balanced arm \<longleftrightarrow> (\<forall>et. arm_expansion_tree arm = Some et \<longrightarrow>
     list_all groups_balanced et \<and> balanced (skeleton et))"

end
