(* ===== verification/Macro_Properties.thy ===== *)
theory Macro_Properties
  imports Macro_Invoke
begin

text \<open>
  The properties of the macro engine as a whole: matching, expansion, hygiene and the token stream
  put together, with the macro \<^verbatim>\<open>m $a\<close> (one identifier, expanding to itself) as the running example.
\<close>

subsection \<open>The example\<close>

definition ex_param :: c_macro_param where
  "ex_param = \<lparr>mp_name = ''$a'', mp_kind = CZET_KIND KIND_IDENT, mp_repeat_mod = CHR 0x00,
     mp_repeat_sep = eof_tok, mp_rep_depth = -1\<rparr>"

definition ex_tree :: "czet_rep_node list" where
  "ex_tree = [CZET_RN_TOK (name_tok ''m''), CZET_RN_CAP 0]"

definition ex_arm :: c_macro_arm where
  "ex_arm = \<lparr>arm_pattern = [name_tok ''m'', name_tok ''$a''], arm_expansion = [name_tok ''$a''],
     arm_pattern_tree = Some ex_tree, arm_expansion_tree = Some [CZET_RN_CAP 0]\<rparr>"

definition ex_macros :: macro_map where
  "ex_macros = [''m'' \<mapsto> \<lparr>md_name = ''m'', md_params = [ex_param], md_arms = [ex_arm]\<rparr>]"

definition ex_args :: tokens where
  "ex_args = [name_tok ''m'', name_tok ''x'']"

definition ex_ms :: mstate where
  "ex_ms = \<lparr>ms_caps = [\<lparr>cap_start = 1, cap_end = 2, cap_iters = None, cap_cur = None\<rparr>],
     ms_store = []\<rparr>"

definition ex_parser :: "tokens \<Rightarrow> c_parser" where
  "ex_parser ts = \<lparr>cp_tokens = [], cp_prelexed = False, cp_probing = False, cp_probe_committed = False, cp_probe = [],
     cp_inject = None, cp_inject_pos = 0, cp_inject_stack = [], cp_lexer = ts, cp_error = False\<rparr>"

lemmas match_eval = c_czet_matcher_tree_def init_mstate_def czet_cap_top_def cap_iters_of_def
  zero_capture_def set_cur_def rep_loop_def wrap_iter_def czet_cap_wrap_def store_push_def det_end_def
  leaf_if_def czet_cap_leaf_def upd_span_def put_span_def POS_AFTER_CAP_def eof_tok_def
  mk_tok_def name_tok_def Let_def c_czet_tok_eq_def

lemma ex_match:
  "c_czet_matcher_tree [ex_param] ex_tree ex_args 0 (init_mstate 1) = Some (True, ex_ms)"
  by (simp add: ex_param_def ex_tree_def ex_args_def ex_ms_def match_eval numeral_eq_Suc)

lemma ex_arm_ok: "arm_ok [ex_param] ex_arm"
  by (auto simp: arm_ok_def ex_arm_def ex_tree_def ex_param_def c_czet_is_param_ref_def starts_dollar_def
      name_tok_def mk_tok_def)

lemma ex_registry: "registry_ok ex_macros"
  by (auto simp: registry_ok_def ex_macros_def ex_arm_ok)

lemmas stream_eval = c_parser_peek_token_def c_parser_consume_token_def c_lex_one_token_def c_czet_has_inject_def
  inject_live_def ex_parser_def

definition ex_ps :: c_parser where
  "ex_ps = ex_parser [name_tok ''m'', mk_tok CPP_LESS [], name_tok ''x'', mk_tok CPP_GREATER [], mk_tok CPP_SEMICOLON []]"

lemma ex_peek: "\<exists>ps1. c_parser_peek_token ex_ps = (name_tok ''m'', ps1) \<and> closed_invocation (name_tok ''m'') ps1"
  by (simp add: ex_ps_def stream_eval closed_invocation_def take_invocation_def angle_loop.simps angle_step_def
      slot_type_def Let_def name_tok_def mk_tok_def)

lemma ex_stream: "length (cp_tokens ex_ps) \<le> 1" "length (stream ex_ps) = 5" "stream ex_ps \<noteq> []"
  by (simp_all add: ex_ps_def ex_parser_def stream_def inject_rest_def)

lemma ex_try_arms: "\<exists>e g r. try_arms [ex_param] [ex_arm] ex_args 0 = Some (Some (e, g, r))"
proof -
  have "match_arm [ex_param] ex_arm ex_args = Some (True, ex_ms)"
    using ex_match by (simp add: match_arm_def ex_arm_def)
  then show ?thesis by (simp split: prod.split)
qed

lemma ex_invoke: "\<exists>gen' errs ps'. c_czet_try_invoke ex_macros 0 ex_ps = Some (True, gen', errs, ps')"
proof -
  have "\<exists>ps1 ps2. c_parser_peek_token ex_ps = (name_tok ''m'', ps1) \<and> take_invocation (name_tok ''m'') ps1
     = (True, [name_tok ''m'', mk_tok CPP_LESS [], name_tok ''x'', mk_tok CPP_GREATER []], ps2)"
    by (simp add: ex_ps_def stream_eval take_invocation_def angle_loop.simps angle_step_def slot_type_def Let_def
        name_tok_def mk_tok_def)
  then obtain ps1 ps2 where t: "c_parser_peek_token ex_ps = (name_tok ''m'', ps1)"
    "take_invocation (name_tok ''m'') ps1
      = (True, [name_tok ''m'', mk_tok CPP_LESS [], name_tok ''x'', mk_tok CPP_GREATER []], ps2)" by blast
  have a: "invocation_args [name_tok ''m'', mk_tok CPP_LESS [], name_tok ''x'', mk_tok CPP_GREATER []] = ex_args"
    by (simp add: invocation_args_def ex_args_def span_def)
  have n: "tk_type (name_tok ''m'') = CPP_NAME" "tk_id_kind (name_tok ''m'') \<noteq> C_ID_TYPENAME" "tk_value (name_tok ''m'') = ''m''"
    "\<not> starts_dollar ''m''" by (simp_all add: name_tok_def mk_tok_def starts_dollar_def)
  from ex_try_arms show ?thesis
    using t a n by (auto simp: c_czet_try_invoke_def c_czet_macro_lookup_def ex_macros_def simp del: try_arms.simps)
qed

subsection \<open>Invocations\<close>

text \<open>
  C1. When an invocation \<^verbatim>\<open>name<...>\<close> of a registered macro is expanded, the tokens consumed are the name
  and its arguments up to the closing angle bracket.  The first arm of the macro that matches them is
  expanded with the captures of this match, each of them a word its parameter's fragment accepts,
  and the parser goes on with the hygienic expansion followed by exactly the tokens that came after
  the invocation.
\<close>

theorem macro_invocation_expands:
  assumes "registry_ok macros" "c_czet_try_invoke macros gen ps = Some (True, gen', errs, ps')"
    and "c_parser_peek_token ps = (tok0, ps1)" "length (cp_tokens ps) \<le> 1" "closed_invocation tok0 ps1"
    and "length (stream ps) < 2 ^ 32"
  shows "\<exists>def pre arm post pt ms own iv raw mark expn.
    macros (tk_value tok0) = Some def \<and> md_arms def = pre @ arm # post \<and> arm_pattern_tree arm = Some pt
    \<and> stream ps = iv @ drop (length iv) (stream ps) \<and> invocation_text iv
    \<and> (\<forall>a \<in> set pre. \<exists>s. match_arm (md_params def) a (invocation_args iv) = Some (False, s))
    \<and> match_arm (md_params def) arm (invocation_args iv) = Some (True, ms)
    \<and> pat_lang (md_params def) pt (invocation_args iv) \<and> store_ok (md_params def) (invocation_args iv) own ms
    \<and> expand_arm (md_params def) arm ms (invocation_args iv) = (raw, mark, errs)
    \<and> c_czet_hygienize raw mark gen = (expn, gen')
    \<and> stream ps' = expn @ drop (length iv) (stream ps)"
proof -
  obtain def iv expn where d: "macros (tk_value tok0) = Some def" "stream ps = iv @ drop (length iv) (stream ps)" "invocation_text iv"
    "try_arms (md_params def) (md_arms def) (invocation_args iv) gen = Some (Some (expn, gen', errs))"
    "stream ps' = expn @ drop (length iv) (stream ps)"
    using try_invoke_expands [OF assms(2-5)] by metis
  obtain pre arm post ms raw mark where a: "md_arms def = pre @ arm # post"
    "\<forall>a \<in> set pre. \<exists>s. match_arm (md_params def) a (invocation_args iv) = Some (False, s)"
    "match_arm (md_params def) arm (invocation_args iv) = Some (True, ms)"
    "expand_arm (md_params def) arm ms (invocation_args iv) = (raw, mark, errs)" "c_czet_hygienize raw mark gen = (expn, gen')"
    by (rule try_arms_expansion [OF d(4)])
  have "length iv \<le> length (stream ps)" by (subst d(2)) simp
  then have "length (invocation_args iv) < 2 ^ 32"
    using assms(6) by (simp add: invocation_args_def span_def)
  moreover have "arm_ok (md_params def) arm" using assms(1) d(1) a(1) by (auto simp: registry_ok_def)
  ultimately obtain own pt where "store_ok (md_params def) (invocation_args iv) own ms"
    "arm_pattern_tree arm = Some pt" "pat_lang (md_params def) pt (invocation_args iv)"
    using match_arm_typed [OF _ a(3)] by metis
  with d a show ?thesis by blast
qed

theorem macro_invocation_expands_witness:
  "\<exists>gen' errs ps' iv expn. c_czet_try_invoke ex_macros 0 ex_ps = Some (True, gen', errs, ps')
     \<and> pat_lang [ex_param] ex_tree (invocation_args iv) \<and> stream ps' = expn @ drop (length iv) (stream ex_ps)"
proof -
  obtain ps1 where p: "c_parser_peek_token ex_ps = (name_tok ''m'', ps1)" "closed_invocation (name_tok ''m'') ps1"
    using ex_peek by blast
  obtain gen' errs ps' where i: "c_czet_try_invoke ex_macros 0 ex_ps = Some (True, gen', errs, ps')" using ex_invoke by blast
  have "length (stream ex_ps) < 2 ^ 32" by (simp add: ex_stream)
  from macro_invocation_expands [OF ex_registry i p(1) ex_stream(1) p(2) this] i show ?thesis
    by (auto simp: Cons_eq_append_conv ex_macros_def ex_arm_def name_tok_def mk_tok_def split: if_splits)
qed

text \<open>
  C15. Matching has a result, and stays within the eight slots of each group's vector, when no group
  can iterate more than seven times: at most six tokens of the input equal its separator, or the group
  has no separator, cannot match the empty input, and the input has at most seven tokens.
\<close>

theorem macro_match_returns:
  assumes "length input < 2 ^ 32" "list_all (fits input) tree"
  shows "\<exists>b st'. c_czet_matcher_tree params tree input 0 st = Some (b, st')"
proof -
  obtain b k s where "c_czet_mt_nodes params tree input 0 st = Some (b, k, s)"
    by (rule returnsE [OF mt_nodes_returns [OF assms], of 0 params st]) auto
  then show ?thesis by (cases b) (auto simp: c_czet_matcher_tree_def)
qed

theorem macro_match_returns_witness:
  "\<exists>b st'. c_czet_matcher_tree [list_param] list_tree (list_input 7) 0 (init_mstate 1) = Some (b, st')"
proof (rule macro_match_returns)
  show "list_all (fits (list_input 7)) list_tree" by code_simp
  have "length (list_input 7) = 13" by code_simp
  then show "length (list_input 7) < 2 ^ 32" by simp
qed

text \<open>
  C17. An attempt that does not expand leaves the token stream, the generation counter and the
  diagnostics as they were, provided a registered name is followed by a closed \<^verbatim>\<open><...>\<close>.
\<close>

theorem try_invoke_rollback:
  assumes "c_czet_try_invoke macros gen ps = Some (False, gen', errs, ps')"
    and "c_parser_peek_token ps = (tok0, ps1)" "length (cp_tokens ps) \<le> 1" "stream ps \<noteq> []"
    and "macros (tk_value tok0) \<noteq> None \<longrightarrow> closed_invocation tok0 ps1"
  shows "stream ps' = stream ps \<and> gen' = gen \<and> errs = []"
proof (cases "ps' = ps1")
  case True
  with assms peek_same_stream [OF assms(2,4)] show ?thesis
    by (auto simp: c_czet_try_invoke_def split: if_splits option.splits prod.splits)
next
  case False
  obtain b iv ps2 where inv: "take_invocation tok0 ps1 = (b, iv, ps2)" by (cases "take_invocation tok0 ps1")
  have m: "tk_type tok0 = CPP_NAME" "macros (tk_value tok0) \<noteq> None" "ps' = c_czet_push_inject ps2 iv"
    "gen' = gen" "errs = []"
    using assms(1,2) False inv
    by (auto simp: c_czet_try_invoke_def c_czet_macro_lookup_def split: if_splits option.splits prod.splits)
  with take_invocation_stream [OF assms(2,3) _ assms(5) [rule_format] inv] push_after_drain [of ps2 iv] show ?thesis
    by simp
qed

theorem try_invoke_rollback_witness:
  "\<exists>ps'. c_czet_try_invoke Map.empty 0 ex_ps = Some (False, 0, [], ps') \<and> stream ps' = stream ex_ps"
proof -
  obtain ps1 where p: "c_parser_peek_token ex_ps = (name_tok ''m'', ps1)" using ex_peek by blast
  then have r: "c_czet_try_invoke Map.empty 0 ex_ps = Some (False, 0, [], ps1)"
    by (simp add: c_czet_try_invoke_def c_czet_macro_lookup_def)
  from try_invoke_rollback [OF r p ex_stream(1,3)] r show ?thesis by simp
qed

text \<open>
  A registered macro name that is not followed by \<^verbatim>\<open><\<close> and does not match by itself is put back
  after the token that had been read ahead: the two tokens change places.
\<close>

theorem bare_name_reordered:
  assumes "length (cp_tokens ps) \<le> 1" "stream ps = tok0 # t # rest" "tk_type t \<noteq> CPP_LESS"
    and "tk_type tok0 = CPP_NAME" "tk_id_kind tok0 \<noteq> C_ID_TYPENAME" "\<not> starts_dollar (tk_value tok0)"
    and "macros (tk_value tok0) = Some def"
    and "try_arms (md_params def) (md_arms def) [tok0] gen = Some None"
  shows "\<exists>ps'. c_czet_try_invoke macros gen ps = Some (False, gen, [], ps') \<and> stream ps' = t # tok0 # rest"
proof -
  obtain u ps1 where p: "c_parser_peek_token ps = (u, ps1)" by (cases "c_parser_peek_token ps")
  have u: "u = tok0" using parser.peek_head [OF assms(2)] p by simp
  let ?c = "c_parser_consume_token ps1"
  have c: "stream ?c = t # rest" "cp_tokens ?c = []"
    using parser.consume_tail [of ps] p assms(2) consume_single [OF peek_single [OF p assms(1)]] by auto
  obtain v ps2 where p2: "c_parser_peek_token ?c = (v, ps2)" by (cases "c_parser_peek_token ?c")
  have v: "v = t" "stream ps2 = t # rest" using parser.peek_head [OF c(1)] p2 by auto
  have "cp_tokens ps2 = [t]" using peek_single [OF p2] c(2) v by simp
  then have "inject_rest ps2 @ cp_lexer ps2 = rest" using v(2) by (simp add: stream_def)
  then have "stream (c_czet_push_inject ps2 [tok0]) = t # tok0 # rest"
    using push_inject_stream [of ps2 "[tok0]"] \<open>cp_tokens ps2 = [t]\<close> by simp
  moreover have "c_czet_try_invoke macros gen ps = Some (False, gen, [], c_czet_push_inject ps2 [tok0])"
    using assms p u p2 v
    by (simp add: c_czet_try_invoke_def take_invocation_def invocation_args_def c_czet_macro_lookup_def span_def)
  ultimately show ?thesis by blast
qed

theorem bare_name_reordered_witness:
  "\<exists>ps'. c_czet_try_invoke ex_macros 0 (ex_parser [name_tok ''m'', mk_tok CPP_SEMICOLON []]) = Some (False, 0, [], ps')
     \<and> stream ps' = [mk_tok CPP_SEMICOLON [], name_tok ''m'']"
proof -
  have "match_arm [ex_param] ex_arm [name_tok ''m''] = Some (False, init_mstate 1)"
    by (simp add: match_arm_def ex_arm_def ex_param_def ex_tree_def match_eval numeral_eq_Suc)
  then have "try_arms [ex_param] [ex_arm] [name_tok ''m''] 0 = Some None" by simp
  then show ?thesis
    by (intro bare_name_reordered [where def = "\<lparr>md_name = ''m'', md_params = [ex_param], md_arms = [ex_arm]\<rparr>"])
      (simp_all add: ex_parser_def stream_def inject_rest_def ex_macros_def name_tok_def mk_tok_def starts_dollar_def)
qed

text \<open>
  C20. What an invocation injects is balanced in parentheses, brackets and braces whenever the
  macro's expansion templates are.
\<close>

theorem try_arms_balanced:
  assumes "try_arms params arms args gen = Some (Some (expn, gen', errs))" "length args < 2 ^ 32"
    and "\<forall>arm \<in> set arms. arm_ok params arm \<and> template_balanced arm"
  shows "balanced expn"
  using assms(1)
proof (rule try_arms_expansion)
  fix pre arm post ms raw mark
  assume a: "arms = pre @ arm # post" "match_arm params arm args = Some (True, ms)"
    "expand_arm params arm ms args = (raw, mark, errs)" "c_czet_hygienize raw mark gen = (expn, gen')"
  with assms(3) have ok: "arm_ok params arm" "template_balanced arm" by auto
  obtain own where own: "store_ok params args own ms"
    using match_arm_typed [OF ok(1) a(2) assms(2)] by blast
  obtain et where et: "arm_expansion_tree arm = Some et" "list_all (node_ok False params 0) et"
    using ok(1) by (auto simp: arm_ok_def)
  have "balanced (es_out (c_czet_build_expansion_tree params et ms args))"
    using ok(2) et node_ok_uses_below [OF et(2)]
    by (intro expansion_balanced [OF own]) (auto simp: template_balanced_def)
  then have "balanced raw" using a(3) et(1) by (simp add: expand_arm_def Let_def)
  then show "balanced expn" using balanced_types [OF hygienize_types [OF a(4)]] by simp
qed

theorem try_arms_balanced_witness:
  "\<exists>expn gen' errs. try_arms [ex_param] [ex_arm] ex_args 0 = Some (Some (expn, gen', errs)) \<and> balanced expn"
proof -
  obtain e g r where t: "try_arms [ex_param] [ex_arm] ex_args 0 = Some (Some (e, g, r))"
    using ex_try_arms by blast
  have "template_balanced ex_arm" by (simp add: template_balanced_def ex_arm_def balanced_def depth_of_def)
  then show ?thesis using try_arms_balanced [OF t] t ex_arm_ok by (auto simp: ex_args_def simp del: try_arms.simps)
qed

subsection \<open>Definitions\<close>

text \<open>
  C16. Every macro in the registry is stored under its own name with well-formed pattern and
  expansion trees, and a macro definition keeps it so; a definition that reports an error leaves
  the registry alone.
\<close>

theorem definition_keeps_registry:
  assumes "c_parser_czet_macro_definition macros ps = (e, macros', ps')" "registry_ok macros"
  shows "registry_ok macros' \<and> (e \<noteq> None \<longrightarrow> macros' = macros)"
  using assms(1)
proof (cases rule: macro_definition_cases)
  case (registered name def q)
  with parse_def_body_ok [OF registered(4)] assms(2) show ?thesis by (auto simp: registry_ok_def)
qed (use assms in simp)

theorem definition_keeps_registry_witness:
  "\<exists>e macros' ps'. c_parser_czet_macro_definition ex_macros ex_ps = (e, macros', ps') \<and> registry_ok macros'"
proof -
  obtain e macros' ps' where d: "c_parser_czet_macro_definition ex_macros ex_ps = (e, macros', ps')" by (metis prod_cases3)
  from definition_keeps_registry [OF d ex_registry] d show ?thesis by blast
qed

subsection \<open>Hygiene\<close>

text \<open>The parameter list of a generated function, \<^verbatim>\<open>int f(int a, int b)\<close>.\<close>

definition two_params :: tokens where
  "two_params = [mk_tok CPP_KEYWORD ''int'', name_tok ''f'', mk_tok CPP_OPEN_PAREN [], mk_tok CPP_KEYWORD ''int'', name_tok ''a'',
     mk_tok CPP_COMMA [], mk_tok CPP_KEYWORD ''int'', name_tok ''b'', mk_tok CPP_CLOSE_PAREN []]"

lemma two_params_binders: "binders_of two_params (replicate 9 False) = {''a''}"
proof -
  have "set (collect_binders two_params (replicate 9 False) [0..<length two_params] []) = {''a''}" by code_simp
  then show ?thesis by (simp only: set_binders)
qed

text \<open>
  C21. Hygiene renames exactly the identifiers of the macro body whose name the body declares, by the
  binder test of the code (a type keyword before, \<^verbatim>\<open>;\<close>, \<^verbatim>\<open>,\<close> or \<^verbatim>\<open>=\<close> after), each to the name with the generation
  suffix; tokens that came from the arguments are never touched.  The test does not tell a local
  variable from a parameter that a comma follows: of \<^verbatim>\<open>int f(int a, int b)\<close> the first parameter is renamed,
  the function and the last parameter are not, although the guide says that
  parameters of generated functions keep their names.
\<close>

theorem hygiene_effect:
  assumes "c_czet_hygienize out mark gen = (out', gen')" "i < length out"
  shows "out' ! i =
    (if \<not> c_czet_marked mark i \<and> tk_type (out ! i) = CPP_NAME \<and> tk_value (out ! i) \<in> binders_of out mark
     then (out ! i)\<lparr>tk_value := fresh_name (tk_value (out ! i)) gen\<rparr> else out ! i)
    \<and> (out = two_params \<and> mark = replicate 9 False \<longrightarrow>
        out' ! i = (if i = 4 then name_tok (fresh_name ''a'' gen) else two_params ! i))"
proof -
  note nth = hygienize_nth [OF assms]
  have "out' ! i = (if i = 4 then name_tok (fresh_name ''a'' gen) else two_params ! i)"
    if "out = two_params" "mark = replicate 9 False"
  proof -
    have "\<forall>i \<in> set [0..<9]. (tk_type (two_params ! i) = CPP_NAME \<and> tk_value (two_params ! i) = ''a'' \<longleftrightarrow> i = 4)
        \<and> \<not> c_czet_marked (replicate 9 False) i" by code_simp
    moreover have "i \<in> set [0..<9]" using that(1) assms(2) by (simp add: two_params_def)
    moreover have "(two_params ! 4)\<lparr>tk_value := x\<rparr> = name_tok x" "tk_value (two_params ! 4) = ''a''" for x
      by (simp_all add: two_params_def name_tok_def mk_tok_def)
    ultimately show ?thesis using nth that two_params_binders by auto
  qed
  with nth show ?thesis by simp
qed

theorem hygiene_effect_witness:
  "tk_value (fst (c_czet_hygienize [mk_tok CPP_KEYWORD ''int'', name_tok ''t'', mk_tok CPP_SEMICOLON []] [False, False, False] 7) ! 1)
     = fresh_name ''t'' 7"
proof -
  let ?o = "[mk_tok CPP_KEYWORD ''int'', name_tok ''t'', mk_tok CPP_SEMICOLON []]"
  have b: "binder_at ?o [False, False, False] 1"
    by (simp add: binder_at_def c_czet_marked_def c_czet_hyg_tag_kw_def c_czet_hyg_type_kw_def c_czet_hyg_qualifier_def
        c_czet_hyg_kw_def name_tok_def mk_tok_def Let_def)
  then have "tk_value (?o ! 1) \<in> binders_of ?o [False, False, False]" unfolding binders_of_def
    by (intro CollectI exI [of _ 1]) simp
  with hygiene_effect [of ?o "[False, False, False]" 7, OF prod.collapse [symmetric], of 1] show ?thesis
    by (simp add: c_czet_marked_def name_tok_def mk_tok_def)
qed

end
