(* ===== verification/Macro_Depth.thy ===== *)
theory Macro_Depth
  imports Macro_Properties
begin

text \<open>
  Where the C parser expands macros (c-parser.cc): file scope, items of a block, statements and postfix
  expressions.  All share one counter of nested expansions, \<^verbatim>\<open>czet_macro_expand_depth\<close>, with the limit
  \<^verbatim>\<open>CZET_MACRO_MAX_DEPTH\<close>.  What the parser does with tokens that are no invocation is a parameter; \<open>None\<close> stands for
  a parse that does not return.
\<close>

subsection \<open>The sites\<close>

definition CZET_MACRO_MAX_DEPTH :: u32 where "CZET_MACRO_MAX_DEPTH = 200"

text \<open>The last component counts the diagnostics \<^verbatim>\<open>macro expansion nested too deeply\<close>.\<close>

record xstate =
  xs_parser :: c_parser
  xs_macros :: macro_map
  xs_gen :: u32
  xs_depth :: u32
  xs_errs :: "(nat \<times> nat) list"
  xs_too_deep :: nat

type_synonym parse_rest = "xstate \<Rightarrow> xstate option"

definition invoke :: "xstate \<Rightarrow> (bool \<times> xstate) option" where
  "invoke st =
     (case c_czet_try_invoke (xs_macros st) (xs_gen st) (xs_parser st) of
        None \<Rightarrow> None
      | Some (b, gen, errs, ps) \<Rightarrow> Some (b, st\<lparr>xs_gen := gen, xs_errs := xs_errs st @ errs, xs_parser := ps\<rparr>))"

definition deeper :: "xstate \<Rightarrow> xstate" where
  "deeper st = st\<lparr>xs_depth := xs_depth st + 1\<rparr>"

definition shallower :: "xstate \<Rightarrow> xstate" where
  "shallower st = st\<lparr>xs_depth := xs_depth st - 1\<rparr>"

definition too_deep :: "xstate \<Rightarrow> xstate" where
  "too_deep st = st\<lparr>xs_too_deep := xs_too_deep st + 1\<rparr>"

definition define_macro :: "xstate \<Rightarrow> xstate" where
  "define_macro st =
     (case c_parser_czet_macro_definition (xs_macros st) (xs_parser st) of (e, macros, ps) \<Rightarrow>
        st\<lparr>xs_macros := macros, xs_parser := ps\<rparr>)"

fun external_declaration_x :: "nat \<Rightarrow> parse_rest \<Rightarrow> xstate \<Rightarrow> xstate option" where
  "external_declaration_x 0 other st = None"
| "external_declaration_x (Suc n) other st =
     (case c_parser_peek_token (xs_parser st) of (t, ps) \<Rightarrow>
        let st0 = st\<lparr>xs_parser := ps\<rparr> in
        if tk_type t \<noteq> CPP_NAME then other st0
        else if tk_value t = ''_Macro'' then Some (define_macro st0)
        else
          (case invoke st0 of
             None \<Rightarrow> None
           | Some (False, st1) \<Rightarrow> other st1
           | Some (True, st1) \<Rightarrow>
               if c_czet_has_inject (xs_parser st1) then
                 if xs_depth st1 < CZET_MACRO_MAX_DEPTH
                 then map_option shallower (external_declaration_x n other (deeper st1))
                 else Some (too_deep st1)
               else Some st1))"

fun statement_x :: "nat \<Rightarrow> parse_rest \<Rightarrow> xstate \<Rightarrow> xstate option" where
  "statement_x 0 other st = None"
| "statement_x (Suc n) other st =
     (case invoke st of
        None \<Rightarrow> None
      | Some (False, st1) \<Rightarrow> other st1
      | Some (True, st1) \<Rightarrow>
          if c_czet_has_inject (xs_parser st1) then
            if xs_depth st1 < CZET_MACRO_MAX_DEPTH
            then map_option shallower (statement_x n other (deeper st1))
            else Some (too_deep st1)
          else Some st1)"

text \<open>An expression: the expansion goes to \<^verbatim>\<open>c_parser_unary_expression\<close>.  The flag is \<^verbatim>\<open>error_mark_node\<close>.\<close>

definition postfix_x :: "parse_rest \<Rightarrow> parse_rest \<Rightarrow> xstate \<Rightarrow> (bool \<times> xstate) option" where
  "postfix_x unary other st =
     (case invoke st of
        None \<Rightarrow> None
      | Some (False, st1) \<Rightarrow> map_option (Pair False) (other st1)
      | Some (True, st1) \<Rightarrow>
          if xs_depth st1 < CZET_MACRO_MAX_DEPTH
          then map_option (\<lambda>st2. (False, shallower st2)) (unary (deeper st1))
          else Some (True, too_deep st1))"

text \<open>
  The loop over the items of a block.  An item that is no invocation either leaves the loop or goes on with it.
  The result also counts the expansions that injected tokens.
\<close>

fun block_x :: "nat \<Rightarrow> (xstate \<Rightarrow> (bool \<times> xstate) option) \<Rightarrow> xstate \<Rightarrow> (nat \<times> xstate) option" where
  "block_x 0 item st = None"
| "block_x (Suc n) item st =
     (case c_parser_peek_token (xs_parser st) of (t, ps) \<Rightarrow>
        let st0 = st\<lparr>xs_parser := ps\<rparr> in
        if tk_type t = CPP_CLOSE_BRACE then Some (0, st0)
        else
          (case invoke st0 of
             None \<Rightarrow> None
           | Some (True, st1) \<Rightarrow>
               let inj = c_czet_has_inject (xs_parser st1);
                   st2 = (if inj \<and> xs_depth st1 < CZET_MACRO_MAX_DEPTH then deeper st1 else if inj then too_deep st1 else st1);
                   st3 = st2\<lparr>xs_parser := (xs_parser st2)\<lparr>cp_error := False\<rparr>\<rparr>
               in map_option (apfst (\<lambda>k. if inj then Suc k else k)) (block_x n item st3)
           | Some (False, st1) \<Rightarrow>
               (case item st1 of
                  None \<Rightarrow> None
                | Some (True, st2) \<Rightarrow> block_x n item st2
                | Some (False, st2) \<Rightarrow> Some (0, st2))))"

subsection \<open>Nesting is bounded outside blocks\<close>

lemma invoke_depth: "invoke st = Some (b, st1) \<Longrightarrow> xs_depth st1 = xs_depth st"
  by (auto simp: invoke_def split: option.splits)

lemma deeper_depth: "xs_depth st < CZET_MACRO_MAX_DEPTH \<Longrightarrow> unat (xs_depth (deeper st)) = Suc (unat (xs_depth st))"
  by (simp add: deeper_def CZET_MACRO_MAX_DEPTH_def unat_arith_simps unat_word_ariths)

lemma below_max: "xs_depth st < CZET_MACRO_MAX_DEPTH \<longleftrightarrow> unat (xs_depth st) < 200"
  by (simp add: CZET_MACRO_MAX_DEPTH_def word_less_nat_alt)

lemma shallower_deeper: "xs_depth st2 = xs_depth (deeper st1) \<Longrightarrow> xs_depth (shallower st2) = xs_depth st1"
  by (simp add: deeper_def shallower_def)

lemma external_fuel:
  "200 < n + unat (xs_depth st) \<Longrightarrow> 200 < n' + unat (xs_depth st) \<Longrightarrow> 0 < n \<Longrightarrow> 0 < n' \<Longrightarrow>
   external_declaration_x n other st = external_declaration_x n' other st"
proof (induction n arbitrary: st n')
  case (Suc n)
  obtain m where n': "n' = Suc m" using Suc.prems(4) by (cases n') auto
  obtain t ps where p: "c_parser_peek_token (xs_parser st) = (t, ps)" by fastforce
  have ih: "external_declaration_x n other (deeper st1) = external_declaration_x m other (deeper st1)"
    if "invoke (st\<lparr>xs_parser := ps\<rparr>) = Some (b, st1)" "xs_depth st1 < CZET_MACRO_MAX_DEPTH" for b st1
    using invoke_depth [OF that(1)] deeper_depth [OF that(2)] that(2) Suc.prems(1,2) n' by (intro Suc.IH) (auto simp: below_max)
  then show ?case unfolding n' by (auto simp: p Let_def split: option.split bool.split)
qed simp

lemma statement_fuel:
  "200 < n + unat (xs_depth st) \<Longrightarrow> 200 < n' + unat (xs_depth st) \<Longrightarrow> 0 < n \<Longrightarrow> 0 < n' \<Longrightarrow>
   statement_x n other st = statement_x n' other st"
proof (induction n arbitrary: st n')
  case (Suc n)
  obtain m where n': "n' = Suc m" using Suc.prems(4) by (cases n') auto
  have ih: "statement_x n other (deeper st1) = statement_x m other (deeper st1)"
    if "invoke st = Some (b, st1)" "xs_depth st1 < CZET_MACRO_MAX_DEPTH" for b st1
    using invoke_depth [OF that(1)] deeper_depth [OF that(2)] that(2) Suc.prems(1,2) n' by (intro Suc.IH) (auto simp: below_max)
  then show ?case unfolding n' by (auto split: option.split bool.split)
qed simp

text \<open>
  The counter moves by exactly what the rest of the parser adds, entered at most once and at a depth
  within the limit.
\<close>

definition moves_by :: "parse_rest \<Rightarrow> xstate \<Rightarrow> xstate \<Rightarrow> bool" where
  "moves_by other st st' \<longleftrightarrow> xs_depth st' = xs_depth st \<or>
     (\<exists>s1 s2. other s1 = Some s2 \<and> unat (xs_depth s1) \<le> max 200 (unat (xs_depth st))
        \<and> xs_depth st' - xs_depth st = xs_depth s2 - xs_depth s1)"

lemma moves_same: "xs_depth st' = xs_depth st \<Longrightarrow> moves_by other st st'"
  by (simp add: moves_by_def)

lemma moves_other: "other s = Some st' \<Longrightarrow> xs_depth s = xs_depth st \<Longrightarrow> moves_by other st st'"
  unfolding moves_by_def by (intro disjI2 exI [of _ s] exI [of _ st']) simp

lemma moves_nested:
  assumes "moves_by other (deeper st1) st2" "xs_depth st1 = xs_depth st" "xs_depth st1 < CZET_MACRO_MAX_DEPTH"
  shows "moves_by other st (shallower st2)"
proof -
  have "unat (xs_depth (deeper st1)) \<le> 200" "unat (xs_depth st) < 200"
    using deeper_depth [OF assms(3)] assms(2,3) by (auto simp: below_max)
  then show ?thesis
    using assms(1,2) unfolding moves_by_def
    by (auto simp: deeper_def shallower_def algebra_simps)
qed

lemma external_moves:
  "external_declaration_x n other st = Some st' \<Longrightarrow> moves_by other st st'"
proof (induction n arbitrary: st st')
  case (Suc n)
  obtain t ps where p: "c_parser_peek_token (xs_parser st) = (t, ps)" by fastforce
  from Suc.prems show ?case
    by (auto simp: p Let_def split: if_splits option.splits bool.splits dest!: invoke_depth Suc.IH)
      (auto simp: define_macro_def too_deep_def split: prod.splits intro: moves_same moves_other moves_nested)
qed simp

lemma statement_moves:
  "statement_x n other st = Some st' \<Longrightarrow> moves_by other st st'"
proof (induction n arbitrary: st st')
  case (Suc n)
  from Suc.prems show ?case
    by (auto split: if_splits option.splits bool.splits dest!: invoke_depth Suc.IH)
      (auto simp: too_deep_def intro: moves_same moves_other moves_nested)
qed simp

subsection \<open>Blocks\<close>

lemma block_depth:
  assumes "\<forall>st b st'. item st = Some (b, st') \<longrightarrow> xs_depth st' = xs_depth st"
  shows "block_x n item st = Some (k, st') \<Longrightarrow> unat (xs_depth st) \<le> 200 \<Longrightarrow> unat (xs_depth st') = min 200 (unat (xs_depth st) + k)"
proof (induction n arbitrary: st k)
  case (Suc n)
  obtain t ps where p: "c_parser_peek_token (xs_parser st) = (t, ps)" by fastforce
  show ?case
  proof (cases "tk_type t = CPP_CLOSE_BRACE")
    case True
    then show ?thesis using Suc.prems p by (auto simp: Let_def)
  next
    case False
    obtain b st1 where i: "invoke (st\<lparr>xs_parser := ps\<rparr>) = Some (b, st1)"
      using Suc.prems(1) p False by (auto simp: Let_def split: option.splits)
    then have d: "xs_depth st1 = xs_depth st" using invoke_depth by fastforce
    show ?thesis
    proof (cases b)
      case True
      define inj where "inj = c_czet_has_inject (xs_parser st1)"
      define st2 where "st2 = (if inj \<and> xs_depth st1 < CZET_MACRO_MAX_DEPTH then deeper st1 else if inj then too_deep st1 else st1)"
      define st3 where "st3 = st2\<lparr>xs_parser := (xs_parser st2)\<lparr>cp_error := False\<rparr>\<rparr>"
      have "block_x (Suc n) item st = map_option (apfst (\<lambda>k. if inj then Suc k else k)) (block_x n item st3)"
        unfolding st3_def st2_def inj_def using p False i True by (simp add: Let_def)
      then obtain k' where r: "block_x n item st3 = Some (k', st')" "k = (if inj then Suc k' else k')"
        using Suc.prems(1) by auto
      have e: "unat (xs_depth st3) = (if inj then min 200 (Suc (unat (xs_depth st))) else unat (xs_depth st))"
        using Suc.prems(2) d deeper_depth [of st1] by (auto simp: st3_def st2_def below_max too_deep_def)
      then show ?thesis using Suc.IH [OF r(1)] r(2) Suc.prems(2) by (auto simp: min_def split: if_splits)
    next
      case b: False
      then obtain c st2 where c: "item st1 = Some (c, st2)" using Suc.prems(1) p False i by (auto simp: Let_def split: option.splits)
      then have "xs_depth st2 = xs_depth st" using assms d by metis
      then show ?thesis using Suc.IH [of st2 k] Suc.prems p False i b c by (cases c) (auto simp: Let_def)
    qed
  qed
qed simp

text \<open>
  C36. Outside blocks the limit works: at file scope and for statements at most 200 expansions nest, so a bound of that depth
  decides the parse (more makes no difference), whatever is expanded and whatever the rest of the parser does.  Every
  nested expansion gives back its count: the counter moves by exactly what the rest of the parser adds to it, which is entered
  at most once and at a depth within the limit.
\<close>

theorem nesting_bounded:
  assumes "200 < n + unat (xs_depth st)" "0 < n"
  shows "external_declaration_x (n + m) other st = external_declaration_x n other st
    \<and> statement_x (n + m) other st = statement_x n other st
    \<and> (\<forall>st'. external_declaration_x n other st = Some st' \<or> statement_x n other st = Some st' \<longrightarrow> moves_by other st st')"
  using assms external_fuel [of "n + m" st n] statement_fuel [of "n + m" st n] external_moves statement_moves by auto

text \<open>
  C38. In a block the counter is never decreased: after \<open>k\<close> expansions one after the other, none inside another, it
  has grown by \<open>k\<close>, up to the limit.  From then on every macro in an expression is refused, in all of the file.
\<close>

theorem block_depth_leaks:
  assumes "\<forall>st b st'. item st = Some (b, st') \<longrightarrow> xs_depth st' = xs_depth st"
    "block_x n item st = Some (k, st')" "unat (xs_depth st) \<le> 200"
  shows "unat (xs_depth st') = min 200 (unat (xs_depth st) + k)
    \<and> (200 \<le> unat (xs_depth st) + k \<longrightarrow>
         (\<forall>later st1. xs_depth later = xs_depth st' \<longrightarrow> invoke later = Some (True, st1) \<longrightarrow>
            postfix_x unary other later = Some (True, too_deep st1)))"
proof -
  have d: "unat (xs_depth st') = min 200 (unat (xs_depth st) + k)" by (rule block_depth [OF assms])
  have "postfix_x unary other later = Some (True, too_deep st1)"
    if "200 \<le> unat (xs_depth st) + k" "xs_depth later = xs_depth st'" "invoke later = Some (True, st1)" for later st1
    using that d invoke_depth [OF that(3)] below_max [of st1] by (simp add: postfix_x_def)
  with d show ?thesis by blast
qed

text \<open>An invocation that expands to itself, wherever it stands in the input.\<close>

definition self_expanding :: "macro_map \<Rightarrow> tokens \<Rightarrow> bool" where
  "self_expanding macros iv \<longleftrightarrow> iv \<noteq> [] \<and> tk_type (hd iv) = CPP_NAME
     \<and> (\<forall>gen ps rest. stream ps = iv @ rest \<longrightarrow> length (cp_tokens ps) \<le> 1 \<longrightarrow>
          (\<exists>gen' errs ps'. c_czet_try_invoke macros gen ps = Some (True, gen', errs, ps')
             \<and> stream ps' = iv @ rest \<and> length (cp_tokens ps') \<le> 1))"

lemma stream_error [simp]: "stream (ps\<lparr>cp_error := b\<rparr>) = stream ps"
  by (simp add: stream_def)

text \<open>
  C37. The limit does not stop a recursive macro in a block: after the diagnostic the loop expands the invocation
  again, and never ends.
\<close>

theorem block_recursion_diverges:
  assumes "self_expanding (xs_macros st) iv" "stream (xs_parser st) = iv @ rest" "length (cp_tokens (xs_parser st)) \<le> 1"
  shows "block_x n item st = None"
  using assms
proof (induction n arbitrary: st)
  case (Suc n)
  obtain v vs where v: "iv = v # vs" "tk_type v = CPP_NAME" using Suc.prems(1) by (cases iv) (auto simp: self_expanding_def)
  obtain ps where p: "c_parser_peek_token (xs_parser st) = (v, ps)" "stream ps = iv @ rest"
    using parser.peek_head [of "xs_parser st" v "vs @ rest"] Suc.prems(2) v(1) by (cases "c_parser_peek_token (xs_parser st)") auto
  have "length (cp_tokens ps) \<le> 1" using peek_single [OF p(1) Suc.prems(3)] by simp
  with p(2) obtain gen' errs ps' where e: "c_czet_try_invoke (xs_macros st) (xs_gen st) ps = Some (True, gen', errs, ps')"
    "stream ps' = iv @ rest" "length (cp_tokens ps') \<le> 1" using Suc.prems(1) unfolding self_expanding_def by blast
  define st1 where "st1 = st\<lparr>xs_gen := gen', xs_errs := xs_errs st @ errs, xs_parser := ps'\<rparr>"
  define inj where "inj = c_czet_has_inject (xs_parser st1)"
  define st2 where "st2 = (if inj \<and> xs_depth st1 < CZET_MACRO_MAX_DEPTH then deeper st1 else if inj then too_deep st1 else st1)"
  have "block_x n item (st2\<lparr>xs_parser := (xs_parser st2)\<lparr>cp_error := False\<rparr>\<rparr>) = None"
    using Suc.prems(1) e(2,3) by (intro Suc.IH) (auto simp: st2_def st1_def deeper_def too_deep_def)
  moreover have "invoke (st\<lparr>xs_parser := ps\<rparr>) = Some (True, st1)" using e(1) by (simp add: invoke_def st1_def)
  ultimately show ?case using p(1) v(2) unfolding st2_def inj_def by (simp add: Let_def)
qed simp

subsection \<open>Examples\<close>

definition ex_xstate :: "u32 \<Rightarrow> c_parser \<Rightarrow> macro_map \<Rightarrow> xstate" where
  "ex_xstate d ps macros = \<lparr>xs_parser = ps, xs_macros = macros, xs_gen = 0, xs_depth = d, xs_errs = [], xs_too_deep = 0\<rparr>"

theorem nesting_bounded_witness:
  "external_declaration_x 202 Some (ex_xstate 0 ex_ps ex_macros) = external_declaration_x 201 Some (ex_xstate 0 ex_ps ex_macros)"
  using nesting_bounded [of 201 "ex_xstate 0 ex_ps ex_macros" 1 Some]
  by (simp add: ex_xstate_def del: external_declaration_x.simps statement_x.simps)

lemma ex_block: "map_option fst (block_x 2 (\<lambda>st. Some (False, st)) (ex_xstate 199 ex_ps ex_macros)) = Some 1"
  by code_simp

theorem block_depth_leaks_witness:
  "\<exists>st'. block_x 2 (\<lambda>st. Some (False, st)) (ex_xstate 199 ex_ps ex_macros) = Some (1, st') \<and> unat (xs_depth st') = 200"
proof -
  obtain st' where b: "block_x 2 (\<lambda>st. Some (False, st)) (ex_xstate 199 ex_ps ex_macros) = Some (1, st')"
    using ex_block by (auto simp del: block_x.simps)
  have "unat (xs_depth (ex_xstate 199 ex_ps ex_macros)) = 199" by (simp add: ex_xstate_def)
  then show ?thesis using block_depth_leaks [OF _ b] b by (auto simp del: block_x.simps)
qed

definition rec_call :: tokens where
  "rec_call = [name_tok ''m'', mk_tok CPP_LESS [], mk_tok CPP_GREATER []]"

definition rec_macros :: macro_map where
  "rec_macros = [''m'' \<mapsto> \<lparr>md_name = ''m'', md_params = [],
     md_arms = [\<lparr>arm_pattern = [name_tok ''m''], arm_expansion = rec_call, arm_pattern_tree = Some [CZET_RN_TOK (name_tok ''m'')],
                 arm_expansion_tree = Some (map CZET_RN_TOK rec_call)\<rparr>]\<rparr>]"

lemma rec_arms:
  "try_arms [] (md_arms (the (rec_macros ''m''))) [name_tok ''m''] gen = Some (Some (rec_call, gen, []))"
proof -
  define arm where "arm = hd (md_arms (the (rec_macros ''m'')))"
  have m: "match_arm [] arm [name_tok ''m''] = Some (True, init_mstate 0)" unfolding arm_def by code_simp
  have e: "expand_arm [] arm (init_mstate 0) [name_tok ''m''] = (rec_call, [False, False, False], [])" unfolding arm_def by code_simp
  have "collect_binders rec_call [False, False, False] [0..<length rec_call] [] = []" by code_simp
  then have h: "c_czet_hygienize rec_call [False, False, False] gen = (rec_call, gen)" by (simp add: c_czet_hygienize_def)
  have "md_arms (the (rec_macros ''m'')) = [arm]" by (simp add: arm_def rec_macros_def)
  then show ?thesis by (simp add: m e h)
qed

lemma rec_self_expanding: "self_expanding rec_macros rec_call"
  unfolding self_expanding_def
proof (intro conjI allI impI)
  fix gen ps rest
  assume s: "stream ps = rec_call @ rest" and one: "length (cp_tokens ps) \<le> 1"
  let ?lt = "mk_tok CPP_LESS []" and ?gt = "mk_tok CPP_GREATER []" and ?m = "name_tok ''m''"
  have step: "\<exists>q. c_parser_peek_token p = (t, q) \<and> stream (c_parser_consume_token q) = ts \<and> cp_tokens (c_parser_consume_token q) = []"
    if "stream p = t # ts" "length (cp_tokens p) \<le> 1" for p t ts
    using parser.peek_head [OF that(1)] parser.consume_tail [of p] peek_single [OF _ that(2)] that(1) consume_single
    by (cases "c_parser_peek_token p") fastforce
  obtain p1 where p1: "c_parser_peek_token ps = (?m, p1)" "stream (c_parser_consume_token p1) = ?lt # ?gt # rest" "cp_tokens (c_parser_consume_token p1) = []"
    using step [OF _ one, of ?m "?lt # ?gt # rest"] s by (auto simp: rec_call_def)
  obtain p2 where p2: "c_parser_peek_token (c_parser_consume_token p1) = (?lt, p2)" "stream (c_parser_consume_token p2) = ?gt # rest"
      "cp_tokens (c_parser_consume_token p2) = []"
    using step [OF p1(2)] p1(3) by auto
  obtain p3 where p3: "c_parser_peek_token (c_parser_consume_token p2) = (?gt, p3)" "stream (c_parser_consume_token p3) = rest"
      "cp_tokens (c_parser_consume_token p3) = []"
    using step [OF p2(2)] p2(3) by auto
  have "angle_step (slot_type ?gt (c_parser_consume_token p3)) 1 0 = (0, 0)"
    using p3(3) by (simp add: slot_type_def angle_step_def mk_tok_def)
  then have "angle_loop 1 0 [?m, ?lt] (c_parser_consume_token p2) = (True, rec_call, c_parser_consume_token p3)"
    using p3(1) by (subst angle_loop.simps, subst angle_loop.simps) (simp add: Let_def mk_tok_def rec_call_def)
  then have t: "take_invocation ?m p1 = (True, rec_call, c_parser_consume_token p3)"
    using p2(1) by (simp add: take_invocation_def mk_tok_def)
  have a: "invocation_args rec_call = [?m]" by code_simp
  have "c_czet_try_invoke rec_macros gen ps = Some (True, gen, [], c_czet_push_inject (c_parser_consume_token p3) rec_call)"
    using p1(1) t a rec_arms [of gen]
    by (simp add: c_czet_try_invoke_def c_czet_macro_lookup_def rec_macros_def name_tok_def mk_tok_def starts_dollar_def del: try_arms.simps)
  moreover have "stream (c_czet_push_inject (c_parser_consume_token p3) rec_call) = rec_call @ rest"
    using push_after_drain [OF p3(3)] p3(2) by simp
  moreover have "cp_tokens (c_czet_push_inject (c_parser_consume_token p3) rec_call) = []"
    using p3(3) by (simp add: c_czet_push_inject_def Let_def split: option.split)
  ultimately show "\<exists>gen' errs ps'. c_czet_try_invoke rec_macros gen ps = Some (True, gen', errs, ps')
      \<and> stream ps' = rec_call @ rest \<and> length (cp_tokens ps') \<le> 1" by auto
qed (simp_all add: rec_call_def name_tok_def mk_tok_def)

theorem block_recursion_diverges_witness:
  "\<forall>n. block_x n (\<lambda>st. Some (False, st)) (ex_xstate 0 (ex_parser rec_call) rec_macros) = None"
  using block_recursion_diverges [of "ex_xstate 0 (ex_parser rec_call) rec_macros" rec_call "[]"] rec_self_expanding
  by (simp add: ex_xstate_def ex_parser_def stream_def inject_rest_def)

end
