(* ===== verification/Hashmap.thy ===== *)
theory Hashmap
  imports Czet_Prelude
begin

text \<open>
  The open-addressed string map of stdlib/utils/hashmap.h.  Keys are C strings, values are
  addresses (0 is \<^verbatim>\<open>NULL\<close>).  The probe loop has no bound in the source: the model runs it for
  \<open>cap\<close> steps, and \<open>None\<close> is a loop that finds neither the key nor an empty slot; \<open>hmap_put\<close> and
  \<open>hmap_rehash\<close> call each other, and their fuel bounds that nesting.  \<open>calloc\<close> is a parameter that
  says whether an allocation of the given number of entries succeeds.  A null table is the empty
  list.  Every routine first refuses a null structure or key pointer; the arguments here are the
  structure and the key themselves.  The counters are natural numbers: they are bounded by the
  number of table entries, and ten times that number fits 64 bits for every table that fits memory.
\<close>

datatype hmap_state = HMAP_EMPTY | HMAP_USED | HMAP_TOMB

record hmap_entry =
  he_key :: string
  he_val :: nat
  he_state :: hmap_state

record hmap =
  hm_tab :: "hmap_entry list"
  hm_cap :: nat
  hm_count :: nat
  hm_tombs :: nat

definition hmap_hash :: "string \<Rightarrow> u64" where
  "hmap_hash s = foldl (\<lambda>h c. (h XOR of_char c) * 1099511628211) 1469598103934665603 s"

definition zero_entry :: hmap_entry where
  "zero_entry = \<lparr>he_key = [], he_val = 0, he_state = HMAP_EMPTY\<rparr>"

definition hmap_init :: "(nat \<Rightarrow> bool) \<Rightarrow> int \<times> hmap" where
  "hmap_init calloc =
     (if calloc 16 then (0, \<lparr>hm_tab = replicate 16 zero_entry, hm_cap = 16, hm_count = 0, hm_tombs = 0\<rparr>)
      else (-1, \<lparr>hm_tab = [], hm_cap = 16, hm_count = 0, hm_tombs = 0\<rparr>))"

definition hmap_free :: "hmap \<Rightarrow> hmap" where
  "hmap_free m = \<lparr>hm_tab = [], hm_cap = 0, hm_count = 0, hm_tombs = 0\<rparr>"

definition hm_mask :: "hmap \<Rightarrow> nat \<Rightarrow> nat" where
  "hm_mask m i = i AND (hm_cap m - 1)"

fun probe_loop :: "nat \<Rightarrow> hmap \<Rightarrow> string \<Rightarrow> nat \<Rightarrow> nat \<Rightarrow> (nat \<times> bool) option" where
  "probe_loop 0 m key i first_tomb = None"
| "probe_loop (Suc n) m key i first_tomb =
     (case he_state (hm_tab m ! i) of
        HMAP_EMPTY \<Rightarrow> Some (if first_tomb \<noteq> hm_cap m then first_tomb else i, False)
      | HMAP_TOMB \<Rightarrow> probe_loop n m key (hm_mask m (i + 1)) (if first_tomb = hm_cap m then i else first_tomb)
      | HMAP_USED \<Rightarrow>
          if he_key (hm_tab m ! i) = key then Some (i, True)
          else probe_loop n m key (hm_mask m (i + 1)) first_tomb)"

definition hmap_probe :: "hmap \<Rightarrow> string \<Rightarrow> (nat \<times> bool) option" where
  "hmap_probe m key = probe_loop (hm_cap m) m key (hm_mask m (unat (hmap_hash key))) (hm_cap m)"

text \<open>The second half of \<open>hmap_put\<close>: store into the probed slot.\<close>

definition put_slot :: "hmap \<Rightarrow> string \<Rightarrow> nat \<Rightarrow> nat \<Rightarrow> bool \<Rightarrow> hmap" where
  "put_slot m key val i found =
     (let m1 = (if found then m
                else m\<lparr>hm_tombs := (if he_state (hm_tab m ! i) = HMAP_TOMB then hm_tombs m - 1 else hm_tombs m),
                       hm_tab := (hm_tab m)[i := (hm_tab m ! i)\<lparr>he_state := HMAP_USED, he_key := key\<rparr>],
                       hm_count := hm_count m + 1\<rparr>)
      in m1\<lparr>hm_tab := (hm_tab m1)[i := (hm_tab m1 ! i)\<lparr>he_val := val\<rparr>]\<rparr>)"

text \<open>\<open>Some (0, m)\<close> is success, \<open>Some (-1, m)\<close> an error return, \<open>None\<close> a call that does not return.\<close>

definition rehash_with :: "(hmap \<Rightarrow> string \<Rightarrow> nat \<Rightarrow> (int \<times> hmap) option) \<Rightarrow> (nat \<Rightarrow> bool) \<Rightarrow> hmap \<Rightarrow> nat
    \<Rightarrow> (int \<times> hmap) option" where
  "rehash_with put calloc m ncap =
     (if \<not> calloc ncap then Some (-1, m)
      else map_option (Pair 0)
        (foldl (\<lambda>acc e. case acc of None \<Rightarrow> None
                  | Some m' \<Rightarrow> if he_state e = HMAP_USED
                               then map_option snd (put m' (he_key e) (he_val e)) else Some m')
           (Some \<lparr>hm_tab = replicate ncap zero_entry, hm_cap = ncap, hm_count = 0, hm_tombs = 0\<rparr>)
           (take (hm_cap m) (hm_tab m))))"

fun hmap_put :: "nat \<Rightarrow> (nat \<Rightarrow> bool) \<Rightarrow> hmap \<Rightarrow> string \<Rightarrow> nat \<Rightarrow> (int \<times> hmap) option" where
  "hmap_put 0 calloc m key val = None"
| "hmap_put (Suc fuel) calloc m key val =
     (if val = 0 then Some (-1, m)
      else
        (case (if hm_cap m * 7 \<le> (hm_count m + hm_tombs m + 1) * 10
               then rehash_with (hmap_put fuel calloc) calloc m (hm_cap m * 2) else Some (0, m)) of
           None \<Rightarrow> None
         | Some (r, m1) \<Rightarrow>
             if r \<noteq> 0 then Some (-1, m1)
             else (case hmap_probe m1 key of
                     None \<Rightarrow> None
                   | Some (i, found) \<Rightarrow> Some (0, put_slot m1 key val i found))))"

definition hmap_rehash :: "nat \<Rightarrow> (nat \<Rightarrow> bool) \<Rightarrow> hmap \<Rightarrow> nat \<Rightarrow> (int \<times> hmap) option" where
  "hmap_rehash fuel calloc m ncap = rehash_with (hmap_put fuel calloc) calloc m ncap"

definition hmap_get :: "hmap \<Rightarrow> string \<Rightarrow> nat option" where
  "hmap_get m key =
     (if hm_tab m = [] then Some 0
      else map_option (\<lambda>(i, found). if found then he_val (hm_tab m ! i) else 0) (hmap_probe m key))"

definition hmap_del :: "hmap \<Rightarrow> string \<Rightarrow> (int \<times> hmap) option" where
  "hmap_del m key =
     (if hm_tab m = [] then Some (-1, m)
      else map_option (\<lambda>(i, found).
             if \<not> found then (-1, m)
             else (0, m\<lparr>hm_tab := (hm_tab m)[i := (hm_tab m ! i)\<lparr>he_state := HMAP_TOMB, he_val := 0\<rparr>],
                        hm_count := hm_count m - 1, hm_tombs := hm_tombs m + 1\<rparr>)) (hmap_probe m key))"

definition hmap_count :: "hmap \<Rightarrow> nat" where
  "hmap_count m = hm_count m"

subsection \<open>The representation invariant\<close>

definition slot_state :: "hmap \<Rightarrow> nat \<Rightarrow> hmap_state" where
  "slot_state m i = he_state (hm_tab m ! i)"

text \<open>The \<open>j\<close>-th slot the probe of \<open>key\<close> visits.\<close>

definition path :: "hmap \<Rightarrow> string \<Rightarrow> nat \<Rightarrow> nat" where
  "path m key j = (unat (hmap_hash key) + j) mod hm_cap m"

definition holds :: "hmap \<Rightarrow> string \<Rightarrow> nat \<Rightarrow> bool" where
  "holds m key i \<longleftrightarrow> i < hm_cap m \<and> slot_state m i = HMAP_USED \<and> he_key (hm_tab m ! i) = key"

text \<open>Slot \<open>i\<close> is reachable: the probe of \<open>key\<close> gets to it without meeting an empty slot.\<close>

definition reach :: "hmap \<Rightarrow> string \<Rightarrow> nat \<Rightarrow> bool" where
  "reach m key i \<longleftrightarrow> (\<exists>j < hm_cap m. path m key j = i \<and> (\<forall>j' < j. slot_state m (path m key j') \<noteq> HMAP_EMPTY))"

definition slots :: "hmap \<Rightarrow> hmap_state \<Rightarrow> nat set" where
  "slots m s = {i. i < hm_cap m \<and> slot_state m i = s}"

definition hmap_ok :: "hmap \<Rightarrow> bool" where
  "hmap_ok m \<longleftrightarrow>
     (\<exists>k. hm_cap m = 2 ^ k) \<and> length (hm_tab m) = hm_cap m
     \<and> hm_count m = card (slots m HMAP_USED) \<and> hm_tombs m = card (slots m HMAP_TOMB)
     \<and> hm_count m + hm_tombs m < hm_cap m
     \<and> (\<forall>key i. holds m key i \<longrightarrow> reach m key i)
     \<and> (\<forall>key i i'. holds m key i \<longrightarrow> holds m key i' \<longrightarrow> i = i')
     \<and> (\<forall>i \<in> slots m HMAP_USED. he_val (hm_tab m ! i) \<noteq> 0)"

text \<open>The finite map a table represents.\<close>

definition hmap_abs :: "hmap \<Rightarrow> string \<rightharpoonup> nat" where
  "hmap_abs m key = (if \<exists>i. holds m key i then Some (he_val (hm_tab m ! (THE i. holds m key i))) else None)"

lemma hmap_abs_holds:
  assumes "hmap_ok m" "holds m key i"
  shows "hmap_abs m key = Some (he_val (hm_tab m ! i))"
proof -
  have "(THE i. holds m key i) = i"
    using assms unfolding hmap_ok_def by (intro the_equality) blast+
  with assms(2) show ?thesis by (auto simp: hmap_abs_def)
qed

lemma hmap_abs_None: "\<nexists>i. holds m key i \<Longrightarrow> hmap_abs m key = None"
  by (simp add: hmap_abs_def)

lemma hm_mask_mod: "hm_cap m = 2 ^ k \<Longrightarrow> hm_mask m i = i mod hm_cap m"
  by (metis hm_mask_def mask_eq_exp_minus_1 take_bit_eq_mask take_bit_eq_mod)

lemma path_Suc: "hm_cap m = 2 ^ k \<Longrightarrow> hm_mask m (path m key j + 1) = path m key (Suc j)"
  by (simp add: hm_mask_mod path_def mod_Suc_eq)

lemma path_less: "0 < hm_cap m \<Longrightarrow> path m key j < hm_cap m"
  by (simp add: path_def)

text \<open>The first \<open>cap\<close> steps of a probe visit every slot.\<close>

lemma path_surj:
  assumes "i < hm_cap m"
  shows "\<exists>j < hm_cap m. path m key j = i"
proof -
  define h where "h = unat (hmap_hash key)"
  define c where "c = hm_cap m"
  have c: "0 < c" "i < c" using assms by (auto simp: c_def)
  let ?j = "(i + (c - h mod c)) mod c"
  have "(h + ?j) mod c = (h mod c + (i + (c - h mod c))) mod c"
    by (simp add: mod_simps)
  also have "h mod c + (i + (c - h mod c)) = i + c"
    using c mod_less_divisor [of c h] by linarith
  also have "(i + c) mod c = i" using c by simp
  finally show ?thesis using c by (intro exI [of _ ?j]) (simp add: path_def h_def c_def)
qed

subsection \<open>The probe loop\<close>

lemma slots_finite [simp]: "finite (slots m s)"
  by (simp add: slots_def)

lemma slots_card:
  "card (slots m HMAP_EMPTY) + card (slots m HMAP_USED) + card (slots m HMAP_TOMB) = hm_cap m"
proof -
  have "slots m HMAP_EMPTY \<union> slots m HMAP_USED \<union> slots m HMAP_TOMB = {..< hm_cap m}"
    using hmap_state.exhaust by (auto simp: slots_def)
  moreover have "slots m HMAP_EMPTY \<inter> slots m HMAP_USED = {}"
    "(slots m HMAP_EMPTY \<union> slots m HMAP_USED) \<inter> slots m HMAP_TOMB = {}"
    by (auto simp: slots_def)
  ultimately show ?thesis
    by (metis card_Un_disjoint card_lessThan finite_Un slots_finite)
qed

lemma empty_slot:
  assumes "hmap_ok m"
  shows "\<exists>j < hm_cap m. slot_state m (path m key j) = HMAP_EMPTY"
proof -
  have "0 < card (slots m HMAP_EMPTY)"
    using slots_card [of m] assms by (simp add: hmap_ok_def)
  then obtain i where "i \<in> slots m HMAP_EMPTY"
    by (metis card_gt_0_iff ex_in_conv)
  then show ?thesis
    using path_surj [of i m key] by (auto simp: slots_def)
qed

text \<open>What the loop returns: the slot of the key, or a free slot its probe reaches.\<close>

definition probe_result :: "hmap \<Rightarrow> string \<Rightarrow> nat \<times> bool \<Rightarrow> bool" where
  "probe_result m key r \<longleftrightarrow>
     (case r of (i, found) \<Rightarrow>
        if found then holds m key i
        else i < hm_cap m \<and> slot_state m i \<noteq> HMAP_USED \<and> reach m key i \<and> (\<nexists>i'. holds m key i'))"

lemma probe_loop_spec:
  assumes "hmap_ok m" "j0 < hm_cap m" "slot_state m (path m key j0) = HMAP_EMPTY"
    and "\<forall>j < j0. slot_state m (path m key j) \<noteq> HMAP_EMPTY"
    and "j + n = hm_cap m" "j \<le> j0" "\<forall>j' < j. \<not> holds m key (path m key j')"
    and "ft = hm_cap m \<or> (\<exists>jt < j. path m key jt = ft \<and> slot_state m ft = HMAP_TOMB)"
  shows "\<exists>r. probe_loop n m key (path m key j) ft = Some r \<and> probe_result m key r"
  using assms(5-)
proof (induction n arbitrary: j ft)
  case 0
  with assms(2) show ?case by simp
next
  case (Suc n)
  obtain k where k: "hm_cap m = 2 ^ k" using assms(1) by (auto simp: hmap_ok_def)
  have lt: "path m key j < hm_cap m" by (rule path_less) (simp add: k)
  let ?s = "slot_state m (path m key j)"
  have go: "\<exists>r. probe_loop n m key (hm_mask m (path m key j + 1)) ft' = Some r \<and> probe_result m key r"
    if "?s \<noteq> HMAP_EMPTY" "\<not> holds m key (path m key j)"
      "ft' = hm_cap m \<or> (\<exists>jt < Suc j. path m key jt = ft' \<and> slot_state m ft' = HMAP_TOMB)" for ft'
  proof -
    have "j \<noteq> j0" using that(1) assms(3) by auto
    then show ?thesis
      unfolding path_Suc [OF k] using Suc.prems that
      by (intro Suc.IH) (auto simp: less_Suc_eq)
  qed
  show ?case
  proof (cases ?s)
    case HMAP_EMPTY
    then have j: "j = j0" using assms(4) Suc.prems(2) by (metis le_neq_implies_less)
    have absent: "\<not> holds m key i" for i
    proof
      assume h: "holds m key i"
      then obtain j1 where j1: "j1 < hm_cap m" "path m key j1 = i"
        "\<forall>j' < j1. slot_state m (path m key j') \<noteq> HMAP_EMPTY"
        using assms(1) unfolding hmap_ok_def reach_def by blast
      with HMAP_EMPTY have "j1 \<le> j" by (meson not_less)
      moreover have "j1 \<noteq> j" using h j1 HMAP_EMPTY by (auto simp: holds_def)
      ultimately show False using Suc.prems(3) h j1 by (metis le_neq_implies_less)
    qed
    have rj: "reach m key (path m key j)" using assms(2,4) j by (auto simp: reach_def)
    have rt: "reach m key ft" "ft < hm_cap m" "slot_state m ft = HMAP_TOMB" if ne: "ft \<noteq> hm_cap m"
    proof -
      obtain jt where jt: "jt < j" "path m key jt = ft" "slot_state m ft = HMAP_TOMB"
        using Suc.prems(4) ne by auto
      then show "reach m key ft" "ft < hm_cap m" "slot_state m ft = HMAP_TOMB"
        using assms(2,4) j lt path_less [of m key jt] k unfolding reach_def
        by (auto intro!: exI [of _ jt])
    qed
    have "probe_loop (Suc n) m key (path m key j) ft = Some (if ft \<noteq> hm_cap m then ft else path m key j, False)"
      using HMAP_EMPTY by (simp add: slot_state_def)
    with absent rj rt lt HMAP_EMPTY show ?thesis
      by (cases "ft = hm_cap m") (auto simp: probe_result_def)
  next
    case HMAP_USED
    show ?thesis
    proof (cases "he_key (hm_tab m ! path m key j) = key")
      case True
      with HMAP_USED lt show ?thesis by (auto simp: slot_state_def probe_result_def holds_def)
    next
      case False
      then have "\<not> holds m key (path m key j)" by (simp add: holds_def)
      with go [of ft] HMAP_USED False Suc.prems(4) show ?thesis
        by (auto simp: slot_state_def less_Suc_eq)
    qed
  next
    case HMAP_TOMB
    then have "\<not> holds m key (path m key j)" by (simp add: holds_def)
    moreover let ?ft = "if ft = hm_cap m then path m key j else ft"
    have "?ft = hm_cap m \<or> (\<exists>jt < Suc j. path m key jt = ?ft \<and> slot_state m ?ft = HMAP_TOMB)"
      using HMAP_TOMB Suc.prems(4) by (auto intro: less_SucI)
    ultimately show ?thesis
      using go [of ?ft] HMAP_TOMB by (simp add: slot_state_def)
  qed
qed

lemma hmap_probe_spec:
  assumes "hmap_ok m"
  shows "\<exists>r. hmap_probe m key = Some r \<and> probe_result m key r"
proof -
  obtain k where k: "hm_cap m = 2 ^ k" using assms by (auto simp: hmap_ok_def)
  define P where "P j \<longleftrightarrow> slot_state m (path m key j) = HMAP_EMPTY" for j
  obtain j1 where j1: "j1 < hm_cap m" "P j1" using empty_slot [OF assms] by (auto simp: P_def)
  define j0 where "j0 = (LEAST j. P j)"
  have "P j0" "j0 \<le> j1" "\<forall>j < j0. \<not> P j"
    unfolding j0_def using j1(2) by (auto intro: LeastI Least_le dest: not_less_Least)
  with j1 have j0: "j0 < hm_cap m" "slot_state m (path m key j0) = HMAP_EMPTY"
    "\<forall>j < j0. slot_state m (path m key j) \<noteq> HMAP_EMPTY" by (auto simp: P_def)
  have "hm_mask m (unat (hmap_hash key)) = path m key 0"
    by (simp add: hm_mask_mod [OF k] path_def)
  with probe_loop_spec [OF assms j0, of 0 "hm_cap m" "hm_cap m"] show ?thesis
    by (simp add: hmap_probe_def)
qed

subsection \<open>Changing one slot\<close>

definition set_slot :: "hmap \<Rightarrow> nat \<Rightarrow> hmap_entry \<Rightarrow> nat \<Rightarrow> nat \<Rightarrow> hmap" where
  "set_slot m i e c t = m\<lparr>hm_tab := (hm_tab m)[i := e], hm_count := c, hm_tombs := t\<rparr>"

lemma set_slot_simps [simp]:
  "hm_cap (set_slot m i e c t) = hm_cap m" "hm_count (set_slot m i e c t) = c"
  "hm_tombs (set_slot m i e c t) = t" "hm_tab (set_slot m i e c t) = (hm_tab m)[i := e]"
  "path (set_slot m i e c t) = path m"
  by (auto simp: set_slot_def path_def fun_eq_iff)

lemma set_slot_state:
  "length (hm_tab m) = hm_cap m \<Longrightarrow> j < hm_cap m \<Longrightarrow>
     slot_state (set_slot m i e c t) j = (if j = i then he_state e else slot_state m j)"
  by (auto simp: slot_state_def nth_upd)

lemma set_slot_holds:
  "length (hm_tab m) = hm_cap m \<Longrightarrow> holds (set_slot m i e c t) key j \<longleftrightarrow>
     (if j = i then i < hm_cap m \<and> he_state e = HMAP_USED \<and> he_key e = key else holds m key j)"
  by (auto simp: holds_def slot_state_def nth_upd)

text \<open>A slot that does not become empty keeps every probe path open.\<close>

lemma set_slot_reach:
  assumes "hmap_ok m" "he_state e \<noteq> HMAP_EMPTY" "reach m key j"
  shows "reach (set_slot m i e c t) key j"
proof -
  have len: "length (hm_tab m) = hm_cap m" and "0 < hm_cap m"
    using assms(1) by (auto simp: hmap_ok_def)
  then have "path m key j' < hm_cap m" for j' using path_less by blast
  with assms(2,3) show ?thesis
    unfolding reach_def by (force simp: set_slot_state [OF len])
qed

lemma set_slot_slots:
  assumes "length (hm_tab m) = hm_cap m" "i < hm_cap m"
  shows "slots (set_slot m i e c t) s = (if he_state e = s then insert i (slots m s) else slots m s - {i})"
  using assms by (auto simp: slots_def set_slot_state)

text \<open>
  The one invariant proof for all updates: the new entry is a tombstone, or a key that was not
  held elsewhere and whose probe reaches the slot.
\<close>

lemma set_slot_ok:
  assumes ok: "hmap_ok m" and i: "i < hm_cap m" and ne: "he_state e \<noteq> HMAP_EMPTY"
    and used: "he_state e = HMAP_USED \<Longrightarrow>
      reach m (he_key e) i \<and> he_val e \<noteq> 0 \<and> (\<forall>j. j \<noteq> i \<longrightarrow> \<not> holds m (he_key e) j)"
    and c: "c = card (slots (set_slot m i e c t) HMAP_USED)"
    and t: "t = card (slots (set_slot m i e c t) HMAP_TOMB)" and room: "c + t < hm_cap m"
  shows "hmap_ok (set_slot m i e c t)" (is "hmap_ok ?m")
proof -
  have len: "length (hm_tab m) = hm_cap m" using ok by (simp add: hmap_ok_def)
  have chain: "reach ?m key j" if "holds ?m key j" for key j
  proof (rule set_slot_reach [OF ok ne])
    show "reach m key j"
      using that ok used by (cases "j = i") (auto simp: set_slot_holds [OF len] hmap_ok_def)
  qed
  have uniq: "j = j'" if "holds ?m key j" "holds ?m key j'" for key j j'
    using that ok used unfolding hmap_ok_def
    by (auto simp: set_slot_holds [OF len] split: if_splits)
  have vals: "\<forall>j \<in> slots ?m HMAP_USED. he_val (hm_tab ?m ! j) \<noteq> 0"
    using ok used len by (auto simp: slots_def set_slot_state hmap_ok_def nth_upd split: if_splits)
  show ?thesis
    using ok c t room chain uniq vals by (simp add: hmap_ok_def)
qed

lemma set_slot_abs:
  assumes "hmap_ok m" "hmap_ok (set_slot m i e c t)" "i < hm_cap m" "holds m key i \<or> (\<nexists>j. holds m key j)"
    and "he_state e = HMAP_USED \<Longrightarrow> he_key e = key"
    and "slot_state m i = HMAP_USED \<Longrightarrow> he_key (hm_tab m ! i) = key"
  shows "hmap_abs (set_slot m i e c t) = (hmap_abs m)(key := if he_state e = HMAP_USED then Some (he_val e) else None)"
proof
  fix k
  let ?m = "set_slot m i e c t"
  have len: "length (hm_tab m) = hm_cap m" using assms(1) by (simp add: hmap_ok_def)
  note holds = set_slot_holds [OF len, of i e c t]
  show "hmap_abs ?m k = ((hmap_abs m)(key := if he_state e = HMAP_USED then Some (he_val e) else None)) k"
  proof (cases "k = key")
    case True
    show ?thesis
    proof (cases "he_state e = HMAP_USED")
      case U: True
      then have "holds ?m key i" using assms(3,5) by (simp add: holds)
      from hmap_abs_holds [OF assms(2) this] U True len assms(3) show ?thesis by simp
    next
      case False
      have "\<nexists>j. holds ?m key j"
        using assms(1,4) False unfolding hmap_ok_def holds by metis
      with hmap_abs_None False True show ?thesis by simp
    qed
  next
    case False
    have same: "holds ?m k j \<longleftrightarrow> holds m k j" for j
      using False assms(3,5,6) by (auto simp: holds) (auto simp: holds_def)
    show ?thesis
    proof (cases "\<exists>j. holds m k j")
      case True
      then obtain j where j: "holds m k j" by blast
      moreover have "j \<noteq> i" using j False assms(6) by (auto simp: holds_def)
      ultimately show ?thesis
        using False hmap_abs_holds [OF assms(1) j] hmap_abs_holds [OF assms(2), of k j] same
        by simp
    qed (use False same hmap_abs_None in auto)
  qed
qed

subsection \<open>Insertion\<close>

lemma hmap_ok_simps:
  assumes "hmap_ok m"
  shows "length (hm_tab m) = hm_cap m" "0 < hm_cap m" "hm_count m = card (slots m HMAP_USED)"
    "hm_tombs m = card (slots m HMAP_TOMB)"
  using assms by (auto simp: hmap_ok_def)

lemma put_slot_found:
  assumes "hmap_ok m" "holds m key i" "val \<noteq> 0"
  shows "hmap_ok (put_slot m key val i True)" "hmap_abs (put_slot m key val i True) = (hmap_abs m)(key \<mapsto> val)"
    "hm_count (put_slot m key val i True) = hm_count m" "hm_tombs (put_slot m key val i True) = hm_tombs m"
proof -
  note ok = hmap_ok_simps [OF assms(1)]
  let ?e = "(hm_tab m ! i)\<lparr>he_val := val\<rparr>"
  have i: "i < hm_cap m" "he_state ?e = HMAP_USED" "he_key ?e = key"
    using assms(2) by (auto simp: holds_def slot_state_def)
  have eq: "put_slot m key val i True = set_slot m i ?e (hm_count m) (hm_tombs m)"
    by (simp add: put_slot_def set_slot_def)
  have other: "j = i" if "holds m key j" for j
    using that assms(1,2) unfolding hmap_ok_def by blast
  have r: "reach m key i" using assms(1,2) unfolding hmap_ok_def by blast
  have s: "slots (set_slot m i ?e (hm_count m) (hm_tombs m)) s = slots m s" for s
    unfolding set_slot_slots [OF ok(1) i(1)] using i assms(2) by (auto simp: slots_def holds_def)
  have cards: "hm_count m = card (slots (set_slot m i ?e (hm_count m) (hm_tombs m)) HMAP_USED)"
    "hm_tombs m = card (slots (set_slot m i ?e (hm_count m) (hm_tombs m)) HMAP_TOMB)"
    unfolding s using ok by simp_all
  have "hm_count m + hm_tombs m < hm_cap m" using assms(1) by (simp add: hmap_ok_def)
  then have okm: "hmap_ok (set_slot m i ?e (hm_count m) (hm_tombs m))"
    using assms(3) i r other by (intro set_slot_ok [OF assms(1) i(1) _ _ cards]) auto
  have "hmap_abs (set_slot m i ?e (hm_count m) (hm_tombs m)) = (hmap_abs m)(key \<mapsto> val)"
    using set_slot_abs [OF assms(1) okm i(1), of key] assms(2) i(2,3) by simp
  with okm show "hmap_ok (put_slot m key val i True)"
    "hmap_abs (put_slot m key val i True) = (hmap_abs m)(key \<mapsto> val)"
    "hm_count (put_slot m key val i True) = hm_count m" "hm_tombs (put_slot m key val i True) = hm_tombs m"
    by (simp_all add: eq)
qed

lemma put_slot_fresh:
  assumes "hmap_ok m" "probe_result m key (i, False)" "val \<noteq> 0" "hm_count m + hm_tombs m + 1 < hm_cap m"
  shows "hmap_ok (put_slot m key val i False)" "hmap_abs (put_slot m key val i False) = (hmap_abs m)(key \<mapsto> val)"
    "hm_count (put_slot m key val i False) = hm_count m + 1" "hm_tombs (put_slot m key val i False) \<le> hm_tombs m"
proof -
  note ok = hmap_ok_simps [OF assms(1)]
  define t where "t = (if he_state (hm_tab m ! i) = HMAP_TOMB then hm_tombs m - 1 else hm_tombs m)"
  let ?e = "(hm_tab m ! i)\<lparr>he_state := HMAP_USED, he_key := key, he_val := val\<rparr>"
  let ?m = "set_slot m i ?e (hm_count m + 1) t"
  have i: "i < hm_cap m" "slot_state m i \<noteq> HMAP_USED" "reach m key i" "\<nexists>j. holds m key j"
    using assms(2) by (auto simp: probe_result_def)
  have eq: "put_slot m key val i False = ?m"
    using i(1) ok(1) by (simp add: put_slot_def set_slot_def t_def)
  have used: "i \<notin> slots m HMAP_USED" "slots ?m HMAP_USED = insert i (slots m HMAP_USED)"
    and tombs: "slots ?m HMAP_TOMB = slots m HMAP_TOMB - {i}"
    unfolding set_slot_slots [OF ok(1) i(1)] using i(2) by (simp_all add: slots_def)
  have in_t: "i \<in> slots m HMAP_TOMB \<longleftrightarrow> he_state (hm_tab m ! i) = HMAP_TOMB"
    using i(1) by (simp add: slots_def slot_state_def)
  have "card (slots ?m HMAP_TOMB) = t"
    unfolding tombs using in_t ok(4) by (auto simp: t_def card_Diff_singleton_if)
  then have t: "t = card (slots ?m HMAP_TOMB)" "t \<le> hm_tombs m"
    by (simp_all add: t_def)
  have okm: "hmap_ok ?m"
    using assms(3,4) i t used ok by (intro set_slot_ok [OF assms(1)]) auto
  have "hmap_abs ?m = (hmap_abs m)(key \<mapsto> val)"
    using set_slot_abs [OF assms(1) okm i(1), of key] i by simp
  with okm t(2) show "hmap_ok (put_slot m key val i False)"
    "hmap_abs (put_slot m key val i False) = (hmap_abs m)(key \<mapsto> val)"
    "hm_count (put_slot m key val i False) = hm_count m + 1" "hm_tombs (put_slot m key val i False) \<le> hm_tombs m"
    by (simp_all add: eq)
qed

lemma put_slot_cap [simp]: "hm_cap (put_slot m key val i found) = hm_cap m"
  by (simp add: put_slot_def Let_def)

lemma load_room: "(n :: nat) * 10 < c * 7 \<Longrightarrow> n < c"
  by linarith

text \<open>Below the load threshold \<open>hmap_put\<close> does not rehash.\<close>

lemma hmap_put_roomy:
  assumes "hmap_ok m" "val \<noteq> 0" "(hm_count m + hm_tombs m + 1) * 10 < hm_cap m * 7"
  shows "\<exists>m'. hmap_put (Suc fuel) calloc m key val = Some (0, m') \<and> hmap_ok m'
    \<and> hmap_abs m' = (hmap_abs m)(key \<mapsto> val) \<and> hm_cap m' = hm_cap m
    \<and> hm_count m' + hm_tombs m' \<le> hm_count m + hm_tombs m + 1"
proof -
  obtain i found where p: "hmap_probe m key = Some (i, found)" "probe_result m key (i, found)"
    using hmap_probe_spec [OF assms(1), of key] by auto
  have put: "hmap_put (Suc fuel) calloc m key val = Some (0, put_slot m key val i found)"
    using assms p by simp
  show ?thesis
  proof (cases found)
    case True
    with p(2) have "holds m key i" by (simp add: probe_result_def)
    with put put_slot_found [OF assms(1) this assms(2)] True show ?thesis by simp
  next
    case False
    have room: "hm_count m + hm_tombs m + 1 < hm_cap m" using load_room [OF assms(3)] .
    with put put_slot_fresh [OF assms(1) _ assms(2) room] p(2) False show ?thesis by simp
  qed
qed

definition fresh_table :: "nat \<Rightarrow> hmap" where
  "fresh_table n = \<lparr>hm_tab = replicate n zero_entry, hm_cap = n, hm_count = 0, hm_tombs = 0\<rparr>"

lemma fresh_table_ok: "hmap_ok (fresh_table (2 ^ k)) \<and> hmap_abs (fresh_table (2 ^ k)) = Map.empty"
  by (auto simp: hmap_ok_def fresh_table_def slots_def slot_state_def zero_entry_def holds_def hmap_abs_def
      fun_eq_iff)

definition rehash_step :: "nat \<Rightarrow> (nat \<Rightarrow> bool) \<Rightarrow> hmap option \<Rightarrow> hmap_entry \<Rightarrow> hmap option" where
  "rehash_step fuel calloc acc e = (case acc of None \<Rightarrow> None
     | Some m' \<Rightarrow> if he_state e = HMAP_USED
                  then map_option snd (hmap_put fuel calloc m' (he_key e) (he_val e)) else Some m')"

lemma rehash_unfold:
  "hmap_rehash fuel calloc m ncap =
     (if \<not> calloc ncap then Some (-1, m)
      else map_option (Pair 0) (foldl (rehash_step fuel calloc) (Some (fresh_table ncap)) (take (hm_cap m) (hm_tab m))))"
  by (simp add: hmap_rehash_def rehash_with_def rehash_step_def [abs_def] fresh_table_def)

text \<open>After \<open>n\<close> slots of the old table the new one holds the pairs of those slots.\<close>

lemma rehash_prefix:
  assumes "hmap_ok m" "n \<le> hm_cap m"
  shows "\<exists>m'. foldl (rehash_step (Suc fuel) calloc) (Some (fresh_table (hm_cap m * 2))) (take n (hm_tab m)) = Some m'
    \<and> hmap_ok m' \<and> hm_cap m' = hm_cap m * 2
    \<and> hm_count m' + hm_tombs m' \<le> card {i. i < n \<and> slot_state m i = HMAP_USED}
    \<and> (\<forall>k. hmap_abs m' k = (if \<exists>i < n. holds m k i then hmap_abs m k else None))"
  using assms(2)
proof (induction n)
  case 0
  obtain k where k: "hm_cap m * 2 = 2 ^ Suc k" using assms(1) by (auto simp: hmap_ok_def)
  have "hm_cap (fresh_table n) = n" "hm_count (fresh_table n) + hm_tombs (fresh_table n) = 0" for n
    by (simp_all add: fresh_table_def)
  with fresh_table_ok [of "Suc k"] show ?case unfolding k by simp
next
  case (Suc n)
  note ok = hmap_ok_simps [OF assms(1)]
  let ?U = "\<lambda>n. {i. i < n \<and> slot_state m i = HMAP_USED}"
  obtain m' where m': "foldl (rehash_step (Suc fuel) calloc) (Some (fresh_table (hm_cap m * 2))) (take n (hm_tab m)) = Some m'"
    "hmap_ok m'" "hm_cap m' = hm_cap m * 2" "hm_count m' + hm_tombs m' \<le> card (?U n)"
    "\<forall>k. hmap_abs m' k = (if \<exists>i < n. holds m k i then hmap_abs m k else None)"
    using Suc by auto
  let ?e = "hm_tab m ! n"
  have fold: "foldl (rehash_step (Suc fuel) calloc) (Some (fresh_table (hm_cap m * 2))) (take (Suc n) (hm_tab m))
      = rehash_step (Suc fuel) calloc (Some m') ?e"
    using Suc.prems ok(1) m'(1) by (simp add: take_Suc_conv_app_nth)
  show ?case
  proof (cases "he_state ?e = HMAP_USED")
    case False
    then have "?U (Suc n) = ?U n" "holds m k n \<longleftrightarrow> False" for k
      by (auto simp: slot_state_def less_Suc_eq holds_def)
    moreover have "rehash_step (Suc fuel) calloc (Some m') ?e = Some m'"
      using False by (simp add: rehash_step_def)
    ultimately show ?thesis
      using m' fold by (intro exI [of _ m']) (auto simp: less_Suc_eq)
  next
    case True
    have h: "holds m (he_key ?e) n" using True Suc.prems by (simp add: holds_def slot_state_def)
    have U: "?U (Suc n) = insert n (?U n)" "n \<notin> ?U n" using True by (auto simp: slot_state_def less_Suc_eq)
    have "card (?U (Suc n)) \<le> card (slots m HMAP_USED)"
      using Suc.prems by (intro card_mono) (auto simp: slots_def)
    then have room: "(hm_count m' + hm_tombs m' + 1) * 10 < hm_cap m' * 7"
      using m'(3,4) U assms(1) by (simp add: hmap_ok_def)
    have v: "he_val ?e \<noteq> 0" "hmap_abs m (he_key ?e) = Some (he_val ?e)"
      using h assms(1) hmap_abs_holds [OF assms(1) h] by (auto simp: hmap_ok_def slots_def holds_def)
    obtain m'' where m'': "hmap_put (Suc fuel) calloc m' (he_key ?e) (he_val ?e) = Some (0, m'')" "hmap_ok m''"
      "hmap_abs m'' = (hmap_abs m')(he_key ?e \<mapsto> he_val ?e)" "hm_cap m'' = hm_cap m'"
      "hm_count m'' + hm_tombs m'' \<le> hm_count m' + hm_tombs m' + 1"
      using hmap_put_roomy [OF m'(2) v(1) room] by blast
    have "hmap_abs m'' k = (if \<exists>i < Suc n. holds m k i then hmap_abs m k else None)" for k
      using m''(3) m'(5) v h by (auto simp: less_Suc_eq holds_def)
    moreover have "rehash_step (Suc fuel) calloc (Some m') ?e = Some m''"
      using True m''(1) by (simp add: rehash_step_def del: hmap_put.simps)
    moreover have "hm_count m'' + hm_tombs m'' \<le> card (?U (Suc n))"
      using m''(5) m'(4) U by simp
    ultimately show ?thesis using m''(2,4) m'(3) fold by (intro exI [of _ m'']) simp
  qed
qed

lemma hmap_rehash_ok:
  assumes "hmap_ok m"
  shows "if calloc (hm_cap m * 2)
    then \<exists>m'. hmap_rehash (Suc fuel) calloc m (hm_cap m * 2) = Some (0, m') \<and> hmap_ok m'
      \<and> hmap_abs m' = hmap_abs m \<and> hm_cap m' = hm_cap m * 2
      \<and> hm_count m' + hm_tombs m' \<le> hm_count m
    else hmap_rehash (Suc fuel) calloc m (hm_cap m * 2) = Some (-1, m)"
proof (cases "calloc (hm_cap m * 2)")
  case True
  obtain m' where m': "foldl (rehash_step (Suc fuel) calloc) (Some (fresh_table (hm_cap m * 2)))
      (take (hm_cap m) (hm_tab m)) = Some m'" "hmap_ok m'" "hm_cap m' = hm_cap m * 2"
    "hm_count m' + hm_tombs m' \<le> card (slots m HMAP_USED)"
    "\<forall>k. hmap_abs m' k = (if \<exists>i < hm_cap m. holds m k i then hmap_abs m k else None)"
    using rehash_prefix [OF assms order_refl, of fuel calloc] by (auto simp: slots_def)
  have "hmap_abs m' = hmap_abs m"
  proof
    fix k
    have "(\<exists>i < hm_cap m. holds m k i) \<longleftrightarrow> (\<exists>i. holds m k i)" by (auto simp: holds_def)
    with m'(5) hmap_abs_None [of m k] show "hmap_abs m' k = hmap_abs m k" by auto
  qed
  with m' True show ?thesis
    using hmap_ok_simps(3) [OF assms] by (simp add: rehash_unfold)
qed (simp add: rehash_unfold)

text \<open>Insertion always returns; it fails only when the table cannot grow, and then changes nothing.\<close>

lemma hmap_put_ok:
  assumes "hmap_ok m" "val \<noteq> 0"
  shows "(\<exists>m'. hmap_put (Suc (Suc fuel)) calloc m key val = Some (0, m') \<and> hmap_ok m'
      \<and> hmap_abs m' = (hmap_abs m)(key \<mapsto> val))
    \<or> (\<not> calloc (hm_cap m * 2) \<and> hm_cap m * 7 \<le> (hm_count m + hm_tombs m + 1) * 10
       \<and> hmap_put (Suc (Suc fuel)) calloc m key val = Some (-1, m))"
proof (cases "hm_cap m * 7 \<le> (hm_count m + hm_tombs m + 1) * 10")
  case False
  with hmap_put_roomy [OF assms, of "Suc fuel" calloc key] show ?thesis by fastforce
next
  case full: True
  show ?thesis
  proof (cases "calloc (hm_cap m * 2)")
    case False
    with hmap_rehash_ok [OF assms(1), of calloc fuel]
    have "rehash_with (hmap_put (Suc fuel) calloc) calloc m (hm_cap m * 2) = Some (-1, m)"
      by (simp add: hmap_rehash_def)
    with full False assms(2) show ?thesis by simp
  next
    case True
    then obtain m1 where m1: "hmap_rehash (Suc fuel) calloc m (hm_cap m * 2) = Some (0, m1)" "hmap_ok m1"
      "hmap_abs m1 = hmap_abs m" "hm_cap m1 = hm_cap m * 2" "hm_count m1 + hm_tombs m1 \<le> hm_count m"
      using hmap_rehash_ok [OF assms(1), of calloc fuel] by auto
    have "hm_count m < hm_cap m" using assms(1) by (simp add: hmap_ok_def)
    with m1(4,5) have room: "(hm_count m1 + hm_tombs m1 + 1) * 10 < hm_cap m1 * 7" by simp
    obtain m' where m': "hmap_put (Suc 0) calloc m1 key val = Some (0, m')" "hmap_ok m'"
      "hmap_abs m' = (hmap_abs m1)(key \<mapsto> val)"
      using hmap_put_roomy [OF m1(2) assms(2) room] by blast
    from m'(1) assms(2) room have "(case hmap_probe m1 key of None \<Rightarrow> None
        | Some (i, found) \<Rightarrow> Some (0 :: int, put_slot m1 key val i found)) = Some (0, m')" by simp
    with full assms(2) m1(1) have "hmap_put (Suc (Suc fuel)) calloc m key val = Some (0, m')"
      by (simp add: hmap_rehash_def)
    with m' m1(3) show ?thesis by simp
  qed
qed

subsection \<open>Lookup and deletion\<close>

lemma hmap_get_ok:
  assumes "hmap_ok m"
  shows "hmap_get m key = Some (case hmap_abs m key of None \<Rightarrow> 0 | Some v \<Rightarrow> v)"
proof -
  note ok = hmap_ok_simps [OF assms]
  obtain i found where p: "hmap_probe m key = Some (i, found)" "probe_result m key (i, found)"
    using hmap_probe_spec [OF assms, of key] by auto
  have "hm_tab m \<noteq> []" using ok by auto
  with p hmap_abs_holds [OF assms, of key i] hmap_abs_None [of m key] show ?thesis
    by (cases found) (auto simp: hmap_get_def probe_result_def)
qed

lemma hmap_del_ok:
  assumes "hmap_ok m"
  shows "\<exists>m'. hmap_del m key = Some (if hmap_abs m key = None then -1 else 0, m') \<and> hmap_ok m'
    \<and> hmap_abs m' = (hmap_abs m)(key := None)"
proof -
  note ok = hmap_ok_simps [OF assms]
  obtain i found where p: "hmap_probe m key = Some (i, found)" "probe_result m key (i, found)"
    using hmap_probe_spec [OF assms, of key] by auto
  have tab: "hm_tab m \<noteq> []" using ok by auto
  show ?thesis
  proof (cases found)
    case False
    with p(2) have "hmap_abs m key = None" by (intro hmap_abs_None) (simp add: probe_result_def)
    with p False tab assms show ?thesis by (auto simp: hmap_del_def fun_upd_idem)
  next
    case True
    with p(2) have h: "holds m key i" by (simp add: probe_result_def)
    then have i: "i < hm_cap m" "i \<in> slots m HMAP_USED" "i \<notin> slots m HMAP_TOMB"
      by (auto simp: holds_def slots_def)
    let ?e = "(hm_tab m ! i)\<lparr>he_state := HMAP_TOMB, he_val := 0\<rparr>"
    let ?m = "set_slot m i ?e (hm_count m - 1) (hm_tombs m + 1)"
    have pos: "0 < hm_count m" using ok(3) i(2) by (auto simp: card_gt_0_iff)
    have "hm_count m + hm_tombs m < hm_cap m" using assms by (simp add: hmap_ok_def)
    then have okm: "hmap_ok ?m"
      using i ok pos
      by (intro set_slot_ok [OF assms]) (auto simp: set_slot_slots [OF ok(1)] card_Diff_singleton)
    have "hmap_abs ?m = (hmap_abs m)(key := None)"
      using set_slot_abs [OF assms okm i(1), of key] h by (auto simp: holds_def)
    moreover have "hmap_del m key = Some (0, ?m)"
      using p True tab by (simp add: hmap_del_def set_slot_def)
    ultimately show ?thesis using okm hmap_abs_holds [OF assms h] by auto
  qed
qed

lemma hmap_init_ok:
  "hmap_init calloc = (0, m) \<Longrightarrow> hmap_ok m \<and> hmap_abs m = Map.empty"
  using fresh_table_ok [of 4] by (auto simp: hmap_init_def fresh_table_def split: if_splits)

lemma hmap_count_ok:
  assumes "hmap_ok m"
  shows "hmap_count m = card (dom (hmap_abs m))"
proof -
  have "bij_betw (\<lambda>i. he_key (hm_tab m ! i)) (slots m HMAP_USED) (dom (hmap_abs m))"
    unfolding bij_betw_def
  proof
    show "inj_on (\<lambda>i. he_key (hm_tab m ! i)) (slots m HMAP_USED)"
    proof (rule inj_onI)
      fix i j
      assume "i \<in> slots m HMAP_USED" "j \<in> slots m HMAP_USED" "he_key (hm_tab m ! i) = he_key (hm_tab m ! j)"
      then have "holds m (he_key (hm_tab m ! i)) i" "holds m (he_key (hm_tab m ! i)) j"
        by (auto simp: holds_def slots_def)
      with assms show "i = j" unfolding hmap_ok_def by blast
    qed
    show "(\<lambda>i. he_key (hm_tab m ! i)) ` slots m HMAP_USED = dom (hmap_abs m)"
      by (auto simp: hmap_abs_def dom_def holds_def slots_def split: if_splits)
  qed
  from bij_betw_same_card [OF this] hmap_ok_simps(3) [OF assms] show ?thesis
    by (simp add: hmap_count_def)
qed

subsection \<open>The contract of a string map\<close>

text \<open>
  What a client of the map relies on.  Insertion may report that it could not grow; every other
  call always gives an answer.
\<close>

locale string_map =
  fixes ok :: "'m \<Rightarrow> bool"
    and abs :: "'m \<Rightarrow> string \<rightharpoonup> nat"
    and get :: "'m \<Rightarrow> string \<Rightarrow> nat option"
    and put :: "'m \<Rightarrow> string \<Rightarrow> nat \<Rightarrow> (int \<times> 'm) option"
    and del :: "'m \<Rightarrow> string \<Rightarrow> (int \<times> 'm) option"
  assumes get_abs: "ok m \<Longrightarrow> get m k = Some (case abs m k of None \<Rightarrow> 0 | Some v \<Rightarrow> v)"
    and put_abs: "ok m \<Longrightarrow> v \<noteq> 0 \<Longrightarrow>
      (\<exists>m'. put m k v = Some (0, m') \<and> ok m' \<and> abs m' = (abs m)(k \<mapsto> v)) \<or> put m k v = Some (-1, m)"
    and del_abs: "ok m \<Longrightarrow> \<exists>m'. del m k = Some (if abs m k = None then -1 else 0, m') \<and> ok m'
      \<and> abs m' = (abs m)(k := None)"
begin

lemma put_cases:
  assumes "ok m" "v \<noteq> 0"
  obtains (stored) m' where "put m k v = Some (0, m')" "ok m'" "abs m' = (abs m)(k \<mapsto> v)"
  | (full) "put m k v = Some (-1, m)"
  using put_abs [OF assms] by blast

lemma get_after_put:
  assumes "ok m" "v \<noteq> 0" "put m k v = Some (0, m')"
  shows "ok m' \<and> get m' k' = (if k' = k then Some v else get m k')"
  using assms(1,2)
proof (cases rule: put_cases [of m v k])
  case (stored m1)
  with assms show ?thesis by (simp add: get_abs)
qed (use assms in simp)

lemma get_after_del:
  assumes "ok m" "del m k = Some (r, m')"
  shows "ok m' \<and> get m' k' = (if k' = k then Some 0 else get m k')"
  using del_abs [OF assms(1), of k] assms by (auto simp: get_abs)

text \<open>A failed insertion leaves every binding as it was.\<close>

lemma put_error_frame:
  assumes "ok m" "v \<noteq> 0" "put m k v = Some (r, m')" "r \<noteq> 0"
  shows "m' = m"
  using put_abs [OF assms(1,2), of k] assms(3,4) by auto

end

interpretation hm: string_map hmap_ok hmap_abs hmap_get "hmap_put (Suc (Suc fuel)) calloc" hmap_del
  for fuel calloc
proof unfold_locales
  fix m k and v :: nat
  assume ok: "hmap_ok m"
  show "hmap_get m k = Some (case hmap_abs m k of None \<Rightarrow> 0 | Some v \<Rightarrow> v)"
    by (rule hmap_get_ok [OF ok])
  show "\<exists>m'. hmap_del m k = Some (if hmap_abs m k = None then -1 else 0, m') \<and> hmap_ok m'
      \<and> hmap_abs m' = (hmap_abs m)(k := None)"
    by (rule hmap_del_ok [OF ok])
  assume "v \<noteq> 0"
  from hmap_put_ok [OF ok this, of fuel calloc k]
  show "(\<exists>m'. hmap_put (Suc (Suc fuel)) calloc m k v = Some (0, m') \<and> hmap_ok m'
      \<and> hmap_abs m' = (hmap_abs m)(k \<mapsto> v)) \<or> hmap_put (Suc (Suc fuel)) calloc m k v = Some (-1, m)"
    by blast
qed

subsection \<open>Properties\<close>

lemma hmap_abs_value: "hmap_ok m \<Longrightarrow> hmap_abs m key \<noteq> Some 0"
  by (metis (mono_tags, lifting) hmap_abs_None hmap_abs_holds hmap_ok_def holds_def mem_Collect_eq option.distinct(1)
      option.inject slots_def)

lemma empty_table:
  "hmap_ok (snd (hmap_init (\<lambda>n. True)))" "hmap_abs (snd (hmap_init (\<lambda>n. True))) = Map.empty"
  using hmap_init_ok [of "\<lambda>n. True" "snd (hmap_init (\<lambda>n. True))"] by (auto simp: hmap_init_def)

text \<open>
  C4. Putting a non-null value returns, and with memory for a larger table it succeeds: the new
  table is well formed, represents the old map updated at the key, and counts its keys.
\<close>

theorem hashmap_put_refines:
  assumes "hmap_ok m" "val \<noteq> 0" "calloc (hm_cap m * 2)"
  shows "\<exists>m'. hmap_put (Suc (Suc fuel)) calloc m key val = Some (0, m') \<and> hmap_ok m'
    \<and> hmap_abs m' = (hmap_abs m)(key \<mapsto> val) \<and> hmap_count m' = card (insert key (dom (hmap_abs m)))"
  using hmap_put_ok [OF assms(1,2), of fuel calloc key] assms(3) hmap_count_ok by fastforce

theorem hashmap_put_refines_witness:
  "\<exists>m. hmap_put 2 (\<lambda>n. True) (snd (hmap_init (\<lambda>n. True))) ''k'' 7 = Some (0, m) \<and> hmap_abs m = [''k'' \<mapsto> 7]
    \<and> hmap_count m = 1"
proof -
  from hashmap_put_refines [of "snd (hmap_init (\<lambda>n. True))" 7 "\<lambda>n. True" 0 "''k''"] empty_table
  show ?thesis by (auto simp: numeral_2_eq_2)
qed

text \<open>
  After a successful put a lookup of that key returns the value, and every other key
  returns what it returned before.
\<close>

theorem hashmap_get_after_put:
  assumes "hmap_ok m" "val \<noteq> 0" "hmap_put (Suc (Suc fuel)) calloc m key val = Some (0, m')"
  shows "hmap_get m' key' = (if key' = key then Some val else hmap_get m key')"
  using hm.get_after_put [OF assms] by blast

theorem hashmap_get_after_put_witness:
  "\<exists>m. hmap_put 2 (\<lambda>n. True) (snd (hmap_init (\<lambda>n. True))) ''k'' 7 = Some (0, m) \<and> hmap_get m ''k'' = Some 7
    \<and> hmap_get m ''j'' = Some 0"
proof -
  let ?m = "snd (hmap_init (\<lambda>n. True))"
  note m = empty_table
  with hmap_put_ok [of ?m 7 0 "\<lambda>n. True" "''k''"] obtain m' where
    p: "hmap_put (Suc (Suc 0)) (\<lambda>n. True) ?m ''k'' 7 = Some (0, m')" by auto
  from hashmap_get_after_put [OF m(1) _ p] p m show ?thesis by (auto simp: numeral_2_eq_2 hmap_get_ok)
qed

text \<open>
  Deleting a key returns 0 when it was there and -1 when it was not, keeps the table well
  formed, and afterwards the key is missing while every other key is as before.
\<close>

theorem hashmap_del:
  assumes "hmap_ok m"
  shows "\<exists>m'. hmap_del m key = Some (if hmap_get m key = Some 0 then -1 else 0, m') \<and> hmap_ok m'
    \<and> (\<forall>key'. hmap_get m' key' = (if key' = key then Some 0 else hmap_get m key'))"
proof -
  obtain m' where d: "hmap_del m key = Some (if hmap_abs m key = None then -1 else 0, m')" "hmap_ok m'"
    using hmap_del_ok [OF assms] by blast
  have "hmap_get m key = Some 0 \<longleftrightarrow> hmap_abs m key = None"
    using assms hmap_abs_value [of m key] by (auto simp: hmap_get_ok split: option.splits)
  with d hm.get_after_del [OF assms d(1)] show ?thesis by auto
qed

theorem hashmap_del_witness:
  "\<exists>m. hmap_del (snd (hmap_init (\<lambda>n. True))) ''k'' = Some (-1, m) \<and> hmap_get m ''j'' = Some 0"
proof -
  let ?m = "snd (hmap_init (\<lambda>n. True))"
  note m = empty_table
  from hashmap_del [OF m(1), of "''k''"] m show ?thesis by (auto simp: hmap_get_ok)
qed

end
