(* ===== verification/Arena.thy ===== *)
theory Arena
  imports Czet_Prelude
begin

text \<open>
  The bump allocator of stdlib/utils/arena.h.  Pointers are 64-bit addresses, 0 is \<^verbatim>\<open>NULL\<close>, and all
  address arithmetic wraps as \<^verbatim>\<open>uintptr_t\<close> does.  The result of \<^verbatim>\<open>malloc\<close> is a parameter.
  The null check every routine makes on its structure argument has no counterpart: the argument
  is the structure itself.
\<close>

record arena =
  ar_base :: u64
  ar_ptr :: u64
  ar_end :: u64

definition MAX_ALIGN :: u64 where
  "MAX_ALIGN = 16"

definition arena_init :: "(u64 \<Rightarrow> u64) \<Rightarrow> u64 \<Rightarrow> int \<times> arena" where
  "arena_init malloc cap =
     (let null = \<lparr>ar_base = 0, ar_ptr = 0, ar_end = 0\<rparr> in
      if cap = 0 then (0, null)
      else if malloc cap = 0 then (-1, null)
      else (0, \<lparr>ar_base = malloc cap, ar_ptr = malloc cap, ar_end = malloc cap + cap\<rparr>))"

definition align_up :: "u64 \<Rightarrow> u64 \<Rightarrow> u64" where
  "align_up cur align = (cur + (align - 1)) AND NOT (align - 1)"

definition arena_alloc :: "arena \<Rightarrow> u64 \<Rightarrow> u64 \<Rightarrow> u64 \<times> arena" where
  "arena_alloc a sz align0 =
     (if ar_base a = 0 then (0, a)
      else
        let align = (if align0 = 0 then MAX_ALIGN else align0) in
        if align AND (align - 1) \<noteq> 0 then (0, a)
        else
          let aligned = align_up (ar_ptr a) align in
          if ar_end a - aligned < sz then (0, a)
          else (aligned, a\<lparr>ar_ptr := aligned + sz\<rparr>))"

text \<open>The block to be cleared by \<^verbatim>\<open>memset\<close> is returned as an address and a length.\<close>

definition arena_calloc :: "arena \<Rightarrow> u64 \<Rightarrow> u64 \<Rightarrow> u64 \<Rightarrow> u64 \<times> u64 \<times> arena" where
  "arena_calloc a count sz align =
     (if sz \<noteq> 0 \<and> (NOT 0) div sz < count then (0, 0, a)
      else (case arena_alloc a (count * sz) align of
              (p, a') \<Rightarrow> (p, if p \<noteq> 0 then count * sz else 0, a')))"

definition arena_used :: "arena \<Rightarrow> u64" where
  "arena_used a = (if ar_base a = 0 then 0 else ar_ptr a - ar_base a)"

definition arena_capacity :: "arena \<Rightarrow> u64" where
  "arena_capacity a = (if ar_base a = 0 then 0 else ar_end a - ar_base a)"

definition arena_reset :: "arena \<Rightarrow> arena" where
  "arena_reset a = a\<lparr>ar_ptr := ar_base a\<rparr>"

definition arena_free :: "arena \<Rightarrow> arena" where
  "arena_free a = \<lparr>ar_base = 0, ar_ptr = 0, ar_end = 0\<rparr>"

subsection \<open>Alignment\<close>

definition pow2 :: "u64 \<Rightarrow> bool" where
  "pow2 w \<longleftrightarrow> (\<exists>k < 64. w = 2 ^ k)"

lemma pow2_mask: "k < 64 \<Longrightarrow> (2 :: u64) ^ k - 1 = mask k"
  by (simp add: mask_eq_exp_minus_1)

text \<open>Rounding up when the sum does not wrap: the least multiple not below \<open>cur\<close>.\<close>

lemma and_not_mask: "(x :: u64) AND NOT (mask k) = push_bit k (drop_bit k x)"
  by (rule bit_eqI) (auto simp: bit_simps)

lemma unat_and_not_mask: "unat ((x :: u64) AND NOT (mask k)) = unat x div 2 ^ k * 2 ^ k"
proof -
  have "unat x div 2 ^ k * 2 ^ k \<le> unat x" by simp
  also have "\<dots> < 2 ^ 64" using unat_less64 [of x] by simp
  finally show ?thesis
    by (simp only: and_not_mask unsigned_push_bit_eq unsigned_drop_bit_eq)
       (simp add: push_bit_eq_mult drop_bit_eq_div take_bit_nat_eq_self take_bit_nat_eq_self [OF unat_less64])
qed

lemma unat_plus_mask:
  assumes "k < 64" "unat cur + (2 ^ k - 1) < 2 ^ 64"
  shows "unat ((cur :: u64) + mask k) = unat cur + (2 ^ k - 1)"
proof -
  have m: "unat (mask k :: u64) = 2 ^ k - 1"
    using assms(1) unat_pow2 [of k] unat_sub [of 1 "2 ^ k :: u64"] by (simp add: mask_eq_exp_minus_1 word_le_nat_alt)
  with assms(2) show ?thesis
    by (simp add: unat_word_ariths)
qed

lemma align_up_unat:
  assumes "k < 64" "unat cur + (2 ^ k - 1) < 2 ^ 64"
  shows "unat (align_up cur (2 ^ k)) = (unat cur + (2 ^ k - 1)) div 2 ^ k * 2 ^ k"
  using unat_plus_mask [OF assms] assms(1)
  by (simp add: align_up_def pow2_mask unat_and_not_mask)

lemma round_up_bounds:
  fixes n m :: nat
  assumes "0 < m"
  shows "n \<le> (n + (m - 1)) div m * m" "(n + (m - 1)) div m * m < n + m"
proof -
  have "(n + (m - 1)) mod m < m" using assms by simp
  moreover have "(n + (m - 1)) div m * m + (n + (m - 1)) mod m = n + (m - 1)"
    by simp
  ultimately show "n \<le> (n + (m - 1)) div m * m" "(n + (m - 1)) div m * m < n + m"
    using assms by linarith+
qed

lemma pow2_test: "k < 64 \<Longrightarrow> (2 :: u64) ^ k AND (2 ^ k - 1) = 0"
  by (rule bit_eqI) (auto simp: pow2_mask bit_simps)

subsection \<open>Allocation\<close>

definition arena_ok :: "arena \<Rightarrow> bool" where
  "arena_ok a \<longleftrightarrow> (ar_base a = 0 \<longrightarrow> ar_ptr a = 0 \<and> ar_end a = 0)
     \<and> unat (ar_base a) \<le> unat (ar_ptr a) \<and> unat (ar_ptr a) \<le> unat (ar_end a)"

lemma arena_init_ok:
  assumes "unat (malloc cap) + unat cap < 2 ^ 64"
  shows "arena_ok (snd (arena_init malloc cap))"
proof -
  have "unat (malloc cap + cap) = unat (malloc cap) + unat cap"
    using assms by (simp add: unat_word_ariths)
  then show ?thesis
    by (auto simp: arena_init_def Let_def arena_ok_def)
qed

text \<open>
  C26. When rounding up stays inside the arena the block is aligned, starts at or after the old top,
  ends at the new top, and lies within the arena; when it does not fit nothing changes.
\<close>

theorem arena_alloc_ok:
  assumes "arena_ok a" "ar_base a \<noteq> 0" "k < 64" "unat (align_up (ar_ptr a) (2 ^ k)) \<le> unat (ar_end a)"
    and "unat (ar_ptr a) + (2 ^ k - 1) < 2 ^ 64" "arena_alloc a sz (2 ^ k) = (p, a')"
  shows "(p = 0 \<and> a' = a \<and> unat (ar_end a) < unat (align_up (ar_ptr a) (2 ^ k)) + unat sz)
    \<or> (2 ^ k dvd unat p \<and> unat (ar_ptr a) \<le> unat p \<and> unat (ar_ptr a') = unat p + unat sz
       \<and> unat (ar_ptr a') \<le> unat (ar_end a) \<and> ar_base a' = ar_base a \<and> ar_end a' = ar_end a)"
proof -
  let ?al = "align_up (ar_ptr a) (2 ^ k)"
  have al: "unat ?al = (unat (ar_ptr a) + (2 ^ k - 1)) div 2 ^ k * 2 ^ k"
    by (rule align_up_unat [OF assms(3,5)])
  have room: "unat (ar_end a - ?al) = unat (ar_end a) - unat ?al"
    using assms(4) by (simp add: unat_sub_if')
  have nz: "(2 :: u64) ^ k \<noteq> 0" using assms(3) by (metis unat_pow2 unat_0 power_not_zero zero_neq_numeral)
  show ?thesis
  proof (cases "ar_end a - ?al < sz")
    case True
    with assms(2,6) nz have "p = 0" "a' = a" by (auto simp: arena_alloc_def Let_def pow2_test [OF assms(3)])
    moreover have "unat (ar_end a) - unat ?al < unat sz" using True room by (simp add: word_less_nat_alt)
    ultimately show ?thesis by auto
  next
    case False
    then have p: "p = ?al" "a' = a\<lparr>ar_ptr := ?al + sz\<rparr>"
      using assms(2,6) nz by (auto simp: arena_alloc_def Let_def pow2_test [OF assms(3)])
    have fit: "unat ?al + unat sz \<le> unat (ar_end a)"
      using False room assms(4) by (simp add: word_less_nat_alt)
    then have "unat (?al + sz) = unat ?al + unat sz"
      using unat_less64 [of "ar_end a"] by (simp add: unat_word_ariths)
    with p fit al round_up_bounds(1) [of "2 ^ k" "unat (ar_ptr a)"] show ?thesis by simp
  qed
qed

theorem arena_alloc_ok_witness:
  "fst (arena_alloc \<lparr>ar_base = 4096, ar_ptr = 4100, ar_end = 4200\<rparr> 10 16) = 4112
   \<and> unat (ar_ptr (snd (arena_alloc \<lparr>ar_base = 4096, ar_ptr = 4100, ar_end = 4200\<rparr> 10 16))) \<le> 4200"
proof -
  let ?a = "\<lparr>ar_base = 4096, ar_ptr = 4100, ar_end = 4200\<rparr>"
  have r: "arena_alloc ?a 10 (2 ^ 4) = (4112, ?a\<lparr>ar_ptr := 4122\<rparr>)"
    by (simp add: arena_alloc_def align_up_def Let_def)
  show ?thesis
    using arena_alloc_ok [of ?a 4 10 4112 "?a\<lparr>ar_ptr := 4122\<rparr>"] r by (simp add: arena_ok_def align_up_def)
qed

text \<open>
  When rounding up passes the end of the arena, the difference \<^verbatim>\<open>end - aligned\<close> is negative, its
  conversion to \<^verbatim>\<open>unsigned long\<close> is huge, and a block outside the arena is handed out.
\<close>

theorem arena_alloc_escapes:
  assumes "ar_base a \<noteq> 0" "k < 64" "unat (ar_end a) < unat (align_up (ar_ptr a) (2 ^ k))"
    and "unat (align_up (ar_ptr a) (2 ^ k)) - unat (ar_end a) + unat sz \<le> 2 ^ 64"
  shows "fst (arena_alloc a sz (2 ^ k)) = align_up (ar_ptr a) (2 ^ k)"
proof -
  let ?al = "align_up (ar_ptr a) (2 ^ k)"
  have "unat (ar_end a - ?al) = unat (ar_end a) + 2 ^ 64 - unat ?al"
    using assms(3) by (simp add: unat_sub_if')
  then have "\<not> ar_end a - ?al < sz"
    using assms(3,4) by (simp add: word_less_nat_alt)
  moreover have "(2 :: u64) ^ k \<noteq> 0" using assms(2) by (metis unat_pow2 unat_0 power_not_zero zero_neq_numeral)
  ultimately show ?thesis
    using assms(1) by (simp add: arena_alloc_def Let_def pow2_test [OF assms(2)])
qed

theorem arena_alloc_escapes_witness:
  "fst (arena_alloc \<lparr>ar_base = 4096, ar_ptr = 4100, ar_end = 4104\<rparr> 64 16) = 4112"
  using arena_alloc_escapes [of "\<lparr>ar_base = 4096, ar_ptr = 4100, ar_end = 4104\<rparr>" 4 64]
  by (simp add: align_up_def)

text \<open>The product that \<open>arena_calloc\<close> requests never wraps.\<close>

lemma arena_calloc_no_wrap:
  assumes "\<not> (sz \<noteq> 0 \<and> (NOT 0) div sz < count)"
  shows "unat (count * sz) = unat count * unat (sz :: u64)"
proof (cases "sz = 0")
  case False
  with assms have "unat count \<le> unat ((NOT 0 :: u64) div sz)" by (simp add: word_le_nat_alt not_less)
  also have "\<dots> = (2 ^ 64 - 1) div unat sz" by (simp add: unat_div unsigned_minus_1_eq_mask mask_eq_exp_minus_1)
  finally have "unat count * unat sz \<le> (2 ^ 64 - 1) div unat sz * unat sz" by simp
  also have "\<dots> \<le> 2 ^ 64 - 1" by (rule div_times_less_eq_dividend)
  finally show ?thesis by (simp add: unat_word_ariths)
qed simp

text \<open>
  A non-null result of \<open>arena_calloc\<close> is the result of \<open>arena_alloc\<close> for the exact product of count
  and size, which is also the number of bytes cleared: the product never wraps.
\<close>

theorem arena_calloc_exact:
  assumes "arena_calloc a count sz align = (p, n, a')" "p \<noteq> 0"
  shows "unat n = unat count * unat sz \<and> arena_alloc a n align = (p, a')"
  using assms arena_calloc_no_wrap [of sz count]
  by (auto simp: arena_calloc_def split: if_splits prod.splits)

theorem arena_calloc_exact_witness:
  "arena_alloc \<lparr>ar_base = 4096, ar_ptr = 4096, ar_end = 4200\<rparr> (3 * 8) 8
     = (4096, \<lparr>ar_base = 4096, ar_ptr = 4120, ar_end = 4200\<rparr>)"
  using arena_calloc_exact [of "\<lparr>ar_base = 4096, ar_ptr = 4096, ar_end = 4200\<rparr>" 3 8 8 4096 24
      "\<lparr>ar_base = 4096, ar_ptr = 4120, ar_end = 4200\<rparr>"]
  by (simp add: arena_calloc_def arena_alloc_def align_up_def Let_def)

end
