(* ===== verification/Strbuf.thy ===== *)
theory Strbuf
  imports Czet_Prelude
begin

text \<open>
  The growable string of stdlib/utils/str.h.  The buffer is a list of \<open>st_cap\<close> characters
  (\<open>None\<close> is \<^verbatim>\<open>NULL\<close>); \<open>realloc\<close> says whether a request succeeds and \<open>fill\<close> what fresh memory holds.
  The doubling loop of \<open>str_reserve\<close> wraps at 64 bits and may then run for ever: it takes fuel, and
  \<open>None\<close> is a loop that has not ended.  The arguments are the structures and texts themselves, so
  the null checks on their addresses have no counterpart.
\<close>

record str =
  st_data :: "string option"
  st_len :: u64
  st_cap :: u64

definition str_init :: str where
  "str_init = \<lparr>st_data = None, st_len = 0, st_cap = 0\<rparr>"

fun grow :: "nat \<Rightarrow> u64 \<Rightarrow> u64 \<Rightarrow> u64 option" where
  "grow 0 ncap need = None"
| "grow (Suc fuel) ncap need = (if ncap < need then grow fuel (ncap * 2) need else Some ncap)"

definition resize :: "(nat \<Rightarrow> char) \<Rightarrow> nat \<Rightarrow> string \<Rightarrow> string" where
  "resize fill n d = take n d @ map fill [length d..<n]"

definition str_reserve :: "nat \<Rightarrow> (u64 \<Rightarrow> bool) \<Rightarrow> (nat \<Rightarrow> char) \<Rightarrow> str \<Rightarrow> u64 \<Rightarrow> (int \<times> str) option" where
  "str_reserve fuel realloc fill s extra =
     (let need = st_len s + extra + 1 in
      if need \<le> st_cap s then Some (0, s)
      else map_option (\<lambda>ncap.
             if \<not> realloc ncap then (-1, s)
             else (0, s\<lparr>st_data := Some (resize fill (unat ncap) (case st_data s of None \<Rightarrow> [] | Some d \<Rightarrow> d)),
                        st_cap := ncap\<rparr>))
           (grow fuel (if st_cap s \<noteq> 0 then st_cap s else 32) need))"

text \<open>\<^verbatim>\<open>memcpy (data + off, p, length p)\<close>.\<close>

definition overlay :: "nat \<Rightarrow> string \<Rightarrow> string \<Rightarrow> string" where
  "overlay off p d = take off d @ p @ drop (off + length p) d"

definition write_at :: "u64 \<Rightarrow> string \<Rightarrow> str \<Rightarrow> str" where
  "write_at off p s = s\<lparr>st_data := map_option (overlay (unat off) p) (st_data s)\<rparr>"

definition str_push_n :: "nat \<Rightarrow> (u64 \<Rightarrow> bool) \<Rightarrow> (nat \<Rightarrow> char) \<Rightarrow> str \<Rightarrow> string \<Rightarrow> (int \<times> str) option" where
  "str_push_n fuel realloc fill s p =
     (if p = [] then Some (0, s)
      else (case str_reserve fuel realloc fill s (of_nat (length p)) of
              None \<Rightarrow> None
            | Some (r, s1) \<Rightarrow>
                if r \<noteq> 0 then Some (-1, s1)
                else
                  let s2 = (write_at (st_len s1) p s1)\<lparr>st_len := st_len s1 + of_nat (length p)\<rparr>
                  in Some (0, write_at (st_len s2) [CHR 0x00] s2)))"

definition cstrlen :: "string \<Rightarrow> string" where
  "cstrlen c = takeWhile (\<lambda>x. x \<noteq> CHR 0x00) c"

definition str_push_cstr :: "nat \<Rightarrow> (u64 \<Rightarrow> bool) \<Rightarrow> (nat \<Rightarrow> char) \<Rightarrow> str \<Rightarrow> string \<Rightarrow> (int \<times> str) option" where
  "str_push_cstr fuel realloc fill s cstr = str_push_n fuel realloc fill s (cstrlen cstr)"

definition str_push_char :: "nat \<Rightarrow> (u64 \<Rightarrow> bool) \<Rightarrow> (nat \<Rightarrow> char) \<Rightarrow> str \<Rightarrow> char \<Rightarrow> (int \<times> str) option" where
  "str_push_char fuel realloc fill s c = str_push_n fuel realloc fill s [c]"

text \<open>The text \<^verbatim>\<open>vsnprintf\<close> produces is a parameter; \<open>None\<close> is its negative return.\<close>

definition str_push_fmt :: "nat \<Rightarrow> (u64 \<Rightarrow> bool) \<Rightarrow> (nat \<Rightarrow> char) \<Rightarrow> str \<Rightarrow> string option \<Rightarrow> (int \<times> str) option" where
  "str_push_fmt fuel realloc fill s txt =
     (case txt of
        None \<Rightarrow> Some (-1, s)
      | Some t \<Rightarrow>
          (case str_reserve fuel realloc fill s (of_nat (length t)) of
             None \<Rightarrow> None
           | Some (r, s1) \<Rightarrow>
               if r \<noteq> 0 then Some (-1, s1)
               else Some (0, (write_at (st_len s1) (t @ [CHR 0x00]) s1)\<lparr>st_len := st_len s1 + of_nat (length t)\<rparr>)))"

definition str_cstr :: "str \<Rightarrow> string" where
  "str_cstr s = (case st_data s of None \<Rightarrow> [] | Some d \<Rightarrow> takeWhile (\<lambda>x. x \<noteq> CHR 0x00) d)"

definition str_clear :: "str \<Rightarrow> str" where
  "str_clear s = s\<lparr>st_len := 0, st_data := map_option (overlay 0 [CHR 0x00]) (st_data s)\<rparr>"

definition str_free :: "str \<Rightarrow> str" where
  "str_free s = \<lparr>st_data = None, st_len = 0, st_cap = 0\<rparr>"

subsection \<open>The doubling loop\<close>

lemma grow_returns:
  assumes "k \<le> 63" "unat need \<le> 2 ^ 63" "64 - k \<le> fuel"
  shows "\<exists>j. k \<le> j \<and> j \<le> 63 \<and> grow fuel (2 ^ k) need = Some (2 ^ j) \<and> need \<le> 2 ^ j"
  using assms(1,3)
proof (induction fuel arbitrary: k)
  case (Suc fuel)
  show ?case
  proof (cases "(2 :: u64) ^ k < need")
    case True
    then have "2 ^ k < unat need" using Suc.prems(1) by (simp add: word_less_nat_alt unat_pow2)
    with assms(2) have "(2 :: nat) ^ k < 2 ^ 63" by linarith
    then have k: "k < 63" by (rule power_less_imp_less_exp [rotated]) simp
    have "64 - Suc k \<le> fuel" using Suc.prems(2) by linarith
    with k obtain j where "Suc k \<le> j" "j \<le> 63" "grow fuel (2 ^ Suc k) need = Some (2 ^ j)" "need \<le> 2 ^ j"
      using Suc.IH [of "Suc k"] by auto
    with True show ?thesis by (intro exI [of _ j]) (simp add: mult.commute)
  next
    case False
    with Suc.prems show ?thesis by (intro exI [of _ k]) auto
  qed
qed simp

text \<open>Past half of the address space the capacity wraps to zero and the loop never ends.\<close>

lemma grow_zero: "0 < need \<Longrightarrow> grow fuel 0 need = None"
  by (induction fuel) auto

lemma grow_diverges:
  assumes "2 ^ 63 < unat need"
  shows "k \<le> 63 \<Longrightarrow> grow fuel (2 ^ k) need = None"
proof (induction fuel arbitrary: k)
  case (Suc fuel)
  have "(2 :: nat) ^ k \<le> 2 ^ 63" using Suc.prems by (intro power_increasing) auto
  with assms have lt: "(2 :: u64) ^ k < need" using Suc.prems by (simp add: word_less_nat_alt unat_pow2)
  show ?case
  proof (cases "k = 63")
    case True
    have "0 < need" using assms by (simp add: word_less_nat_alt)
    then have "grow fuel (2 ^ k * 2) need = None"
      using grow_zero [of need fuel] arg_cong [of "2 ^ k * 2" 0 "\<lambda>c. grow fuel c need"] True
      by (simp add: word_unat_eq_iff)
    with lt show ?thesis by (simp only: grow.simps if_True)
  next
    case False
    with lt Suc show ?thesis by (simp add: mult.commute flip: power_Suc)
  qed
qed simp

subsection \<open>The invariant of a string\<close>

definition str_ok :: "str \<Rightarrow> bool" where
  "str_ok s \<longleftrightarrow> (case st_data s of
      None \<Rightarrow> st_len s = 0 \<and> st_cap s = 0
    | Some d \<Rightarrow> (\<exists>k. 5 \<le> k \<and> k \<le> 63 \<and> st_cap s = 2 ^ k) \<and> length d = unat (st_cap s)
        \<and> unat (st_len s) < unat (st_cap s) \<and> d ! unat (st_len s) = CHR 0x00)"

definition content :: "str \<Rightarrow> string" where
  "content s = (case st_data s of None \<Rightarrow> [] | Some d \<Rightarrow> take (unat (st_len s)) d)"

lemma length_resize [simp]: "length (resize fill n d) = n"
  by (simp add: resize_def)

lemma resize_nth: "length d \<le> n \<Longrightarrow> i < length d \<Longrightarrow> resize fill n d ! i = d ! i"
  by (simp add: resize_def nth_append)

lemma length_overlay: "off + length p \<le> length d \<Longrightarrow> length (overlay off p d) = length d"
  by (simp add: overlay_def)

lemma take_overlay: "off \<le> length d \<Longrightarrow> take (off + length p) (overlay off p d) = take off d @ p"
  by (simp add: overlay_def min_def)

lemma take_overlay_below: "n \<le> off \<Longrightarrow> off \<le> length d \<Longrightarrow> take n (overlay off p d) = take n d"
  by (simp add: overlay_def min_def)

lemma nth_overlay: "off \<le> length d \<Longrightarrow> i < length p \<Longrightarrow> overlay off p d ! (off + i) = p ! i"
  by (simp add: overlay_def nth_append min_def)

text \<open>A reservation keeps the content and makes room, or fails and changes nothing.\<close>

lemma str_reserve_ok:
  assumes "str_ok s" "unat (st_len s) + unat extra + 1 \<le> 2 ^ 63" "64 \<le> fuel"
  obtains (room) s' d where "str_reserve fuel realloc fill s extra = Some (0, s')" "st_data s' = Some d"
      "length d = unat (st_cap s')" "(\<exists>k. 5 \<le> k \<and> k \<le> 63 \<and> st_cap s' = 2 ^ k)" "st_len s' = st_len s"
      "unat (st_len s) + unat extra + 1 \<le> length d" "content s' = content s"
  | (oom) "str_reserve fuel realloc fill s extra = Some (-1, s)"
proof -
  let ?need = "st_len s + extra + 1"
  let ?c0 = "if st_cap s \<noteq> 0 then st_cap s else 32"
  let ?d0 = "case st_data s of None \<Rightarrow> [] | Some d \<Rightarrow> d"
  have need: "unat ?need = unat (st_len s) + unat extra + 1"
    using assms(2) by (simp add: unat_word_ariths)
  show thesis
  proof (cases "?need \<le> st_cap s")
    case True
    then obtain d where d: "st_data s = Some d" using assms(1) need
      by (cases "st_data s") (auto simp: str_ok_def word_le_nat_alt)
    with True assms(1) need show thesis
      by (intro room [of s d]) (auto simp: str_reserve_def Let_def str_ok_def word_le_nat_alt)
  next
    case False
    obtain k where k: "5 \<le> k" "k \<le> 63" "?c0 = 2 ^ k"
    proof (cases "st_data s")
      case None
      with assms(1) that [of 5] show thesis by (simp add: str_ok_def)
    next
      case (Some d)
      with assms(1) obtain k where "5 \<le> k" "k \<le> 63" "st_cap s = 2 ^ k" by (auto simp: str_ok_def)
      moreover from this have "st_cap s \<noteq> 0" using unat_pow2 [of k] by auto
      ultimately show thesis using that [of k] by simp
    qed
    obtain j where j: "k \<le> j" "j \<le> 63" "grow fuel (2 ^ k) ?need = Some (2 ^ j)" "?need \<le> 2 ^ j"
      using grow_returns [OF k(2), of ?need fuel] need assms(2,3) by fastforce
    have len0: "length ?d0 \<le> 2 ^ j" "unat (st_len s) \<le> length ?d0"
    proof -
      have "(2 :: nat) ^ k \<le> 2 ^ j" using j(1) by (intro power_increasing) auto
      moreover have "length ?d0 \<le> unat ?c0"
        using assms(1) by (cases "st_data s") (simp_all add: str_ok_def)
      moreover have "unat ?c0 = 2 ^ k" unfolding k(3) using k(2) by (intro unat_pow2) simp
      ultimately show "length ?d0 \<le> 2 ^ j" by linarith
      from assms(1) show "unat (st_len s) \<le> length ?d0"
        by (cases "st_data s") (auto simp: str_ok_def)
    qed
    let ?d = "resize fill (2 ^ j) ?d0"
    let ?s' = "s\<lparr>st_data := Some ?d, st_cap := 2 ^ j\<rparr>"
    have "content ?s' = content s"
      using len0 by (cases "st_data s") (auto simp: content_def resize_def)
    moreover have "str_reserve fuel realloc fill s extra = Some (if realloc (2 ^ j) then (0, ?s') else (-1, s))"
      using False j k unat_pow2 [of j] by (simp add: str_reserve_def Let_def)
    moreover have "unat (st_len s) + unat extra + 1 \<le> 2 ^ j"
      using j(2,4) need by (simp add: word_le_nat_alt unat_pow2)
    moreover have "\<exists>k. 5 \<le> k \<and> k \<le> 63 \<and> st_cap ?s' = 2 ^ k" using j k by (intro exI [of _ j]) simp
    ultimately show thesis
      using room [of ?s' ?d] oom j(2) unat_pow2 [of j] by (cases "realloc (2 ^ j)") auto
  qed
qed

text \<open>Appending.\<close>

lemma append_written:
  assumes "st_data s = Some d" "length d = unat (st_cap s)" "\<exists>k. 5 \<le> k \<and> k \<le> 63 \<and> st_cap s = 2 ^ k"
    and "unat (st_len s) + length p + 1 \<le> length d" "unat l = unat (st_len s) + length p"
  shows "str_ok (s\<lparr>st_data := Some (overlay (unat (st_len s)) (p @ [CHR 0x00]) d), st_len := l\<rparr>)"
    "content (s\<lparr>st_data := Some (overlay (unat (st_len s)) (p @ [CHR 0x00]) d), st_len := l\<rparr>) = content s @ p"
proof -
  let ?o = "unat (st_len s)"
  have "overlay ?o (p @ [CHR 0x00]) d ! (?o + length p) = CHR 0x00"
    using nth_overlay [of ?o d "length p" "p @ [CHR 0x00]"] assms(4) by simp
  then show "str_ok (s\<lparr>st_data := Some (overlay ?o (p @ [CHR 0x00]) d), st_len := l\<rparr>)"
    using assms by (simp add: str_ok_def length_overlay)
  show "content (s\<lparr>st_data := Some (overlay ?o (p @ [CHR 0x00]) d), st_len := l\<rparr>) = content s @ p"
    using assms by (simp add: content_def overlay_def min_def)
qed

lemma overlay_twice: "off + length p < length d \<Longrightarrow>
  overlay (off + length p) [c] (overlay off p d) = overlay off (p @ [c]) d"
  by (simp add: overlay_def min_def)

lemma str_push_n_ok:
  assumes "str_ok s" "unat (st_len s) + length p + 1 \<le> 2 ^ 63" "64 \<le> fuel"
  shows "str_push_n fuel realloc fill s p = Some (-1, s)
    \<or> (\<exists>s'. str_push_n fuel realloc fill s p = Some (0, s') \<and> str_ok s' \<and> content s' = content s @ p)"
proof (cases "p = []")
  case True
  with assms show ?thesis by (simp add: str_push_n_def)
next
  case False
  have n: "unat (of_nat (length p) :: u64) = length p"
    using assms(2) by (simp add: unsigned_of_nat take_bit_nat_eq_self)
  have "unat (st_len s) + unat (of_nat (length p) :: u64) + 1 \<le> 2 ^ 63" using assms(2) n by simp
  from assms(1) this assms(3) show ?thesis
  proof (cases rule: str_reserve_ok [where realloc = realloc and fill = fill])
    case oom
    with False show ?thesis by (simp add: str_push_n_def)
  next
    case (room s' d)
    have l: "unat (st_len s' + of_nat (length p)) = unat (st_len s') + length p"
      using room(5) assms(2) n by (simp add: unat_word_ariths)
    have fit: "unat (st_len s') + length p + 1 \<le> length d" using room(5,6) n by simp
    have "str_push_n fuel realloc fill s p = Some (0, s'\<lparr>st_data := Some (overlay (unat (st_len s')) (p @ [CHR 0x00]) d),
        st_len := st_len s' + of_nat (length p)\<rparr>)"
      using False room l fit overlay_twice [of "unat (st_len s')" p d]
      by (simp add: str_push_n_def Let_def write_at_def)
    with append_written [OF room(2-4) fit l] room(7) show ?thesis by simp
  qed
qed

lemma str_push_fmt_ok:
  assumes "str_ok s" "unat (st_len s) + length t + 1 \<le> 2 ^ 63" "64 \<le> fuel"
  shows "str_push_fmt fuel realloc fill s (Some t) = Some (-1, s)
    \<or> (\<exists>s'. str_push_fmt fuel realloc fill s (Some t) = Some (0, s') \<and> str_ok s' \<and> content s' = content s @ t)"
proof -
  have n: "unat (of_nat (length t) :: u64) = length t"
    using assms(2) by (simp add: unsigned_of_nat take_bit_nat_eq_self)
  have "unat (st_len s) + unat (of_nat (length t) :: u64) + 1 \<le> 2 ^ 63" using assms(2) n by simp
  from assms(1) this assms(3) show ?thesis
  proof (cases rule: str_reserve_ok [where realloc = realloc and fill = fill])
    case oom
    then show ?thesis by (simp add: str_push_fmt_def)
  next
    case (room s' d)
    have l: "unat (st_len s' + of_nat (length t)) = unat (st_len s') + length t"
      using room(5) assms(2) n by (simp add: unat_word_ariths)
    have fit: "unat (st_len s') + length t + 1 \<le> length d" using room(5,6) n by simp
    have "str_push_fmt fuel realloc fill s (Some t) = Some (0, s'\<lparr>st_data := Some (overlay (unat (st_len s')) (t @ [CHR 0x00]) d),
        st_len := st_len s' + of_nat (length t)\<rparr>)"
      using room by (simp add: str_push_fmt_def Let_def write_at_def)
    with append_written [OF room(2-4) fit l] room(7) show ?thesis by simp
  qed
qed

text \<open>The C string of a buffer is its content, up to the first embedded zero.\<close>

lemma str_cstr_content:
  assumes "str_ok s" "CHR 0x00 \<notin> set (content s)"
  shows "str_cstr s = content s"
proof (cases "st_data s")
  case (Some d)
  with assms(1) have d: "unat (st_len s) < length d" "d ! unat (st_len s) = CHR 0x00" by (auto simp: str_ok_def)
  then have "d = content s @ CHR 0x00 # drop (Suc (unat (st_len s))) d"
    using Some id_take_nth_drop [OF d(1)] by (simp add: content_def)
  moreover have "takeWhile (\<lambda>x. x \<noteq> CHR 0x00) (content s @ CHR 0x00 # drop (Suc (unat (st_len s))) d) = content s"
    using assms(2) by (subst takeWhile_append2) auto
  ultimately show ?thesis by (simp add: str_cstr_def Some)
qed (simp add: str_cstr_def content_def)

lemma str_clear_ok: "str_ok s \<Longrightarrow> str_ok (str_clear s) \<and> content (str_clear s) = []"
  by (cases "st_data s") (auto simp: str_ok_def str_clear_def content_def overlay_def)

subsection \<open>Properties\<close>

text \<open>
  Pushing a C string fails and leaves the buffer as it was, or keeps the invariant and
  appends exactly the characters of the string; it always returns.
\<close>

theorem str_push_cstr_appends:
  assumes "str_ok s" "CHR 0x00 \<notin> set (content s)" "unat (st_len s) + length (cstrlen c) + 1 \<le> 2 ^ 63" "64 \<le> fuel"
  shows "str_push_cstr fuel realloc fill s c = Some (-1, s)
    \<or> (\<exists>s'. str_push_cstr fuel realloc fill s c = Some (0, s') \<and> str_ok s' \<and> str_cstr s' = str_cstr s @ cstrlen c)"
proof -
  have "CHR 0x00 \<notin> set (cstrlen c)" by (auto simp: cstrlen_def dest: set_takeWhileD)
  with str_push_n_ok [OF assms(1,3,4), of realloc fill] assms(1,2) show ?thesis
    by (auto simp: str_push_cstr_def str_cstr_content)
qed

theorem str_push_cstr_appends_witness:
  "\<exists>s'. str_push_cstr (Suc 63) (\<lambda>n. True) (\<lambda>i. CHR ''x'') str_init ''ab'' = Some (0, s') \<and> str_ok s' \<and> str_cstr s' = ''ab''"
proof -
  have "grow 64 32 3 = Some 32" using grow.simps(2) [of 63 32 3] by simp
  then have "str_push_cstr (Suc 63) (\<lambda>n. True) (\<lambda>i. CHR ''x'') str_init ''ab'' \<noteq> Some (-1, str_init)"
    by (auto simp: str_push_cstr_def str_push_n_def str_reserve_def str_init_def cstrlen_def Let_def)
  with str_push_cstr_appends [of str_init "''ab''" "Suc 63" "\<lambda>n. True" "\<lambda>i. CHR ''x''"] show ?thesis
    by (auto simp: str_init_def str_ok_def content_def cstrlen_def str_cstr_def)
qed

text \<open>
  A reservation that needs more than \<^verbatim>\<open>2^63\<close> bytes never returns: the doubled capacity wraps to
  zero and stays there.
\<close>

theorem str_reserve_hangs:
  assumes "str_ok s" "2 ^ 63 < unat (st_len s + extra + 1)"
  shows "str_reserve fuel realloc fill s extra = None"
proof -
  have "\<exists>k \<le> 63. (if st_cap s \<noteq> 0 then st_cap s else 32) = 2 ^ k \<and> st_cap s \<le> 2 ^ k"
  proof (cases "st_data s")
    case None
    with assms(1) show ?thesis by (intro exI [of _ 5]) (simp add: str_ok_def)
  next
    case (Some d)
    with assms(1) obtain k where "5 \<le> k" "k \<le> 63" "st_cap s = 2 ^ k" by (auto simp: str_ok_def)
    moreover from this have "st_cap s \<noteq> 0" using unat_pow2 [of k] by auto
    ultimately show ?thesis by (intro exI [of _ k]) simp
  qed
  then obtain k where k: "k \<le> 63" "(if st_cap s \<noteq> 0 then st_cap s else 32) = 2 ^ k" "st_cap s \<le> 2 ^ k" by blast
  have "unat (st_cap s) \<le> 2 ^ k" using k(1,3) by (simp add: word_le_nat_alt unat_pow2)
  also have "\<dots> \<le> 2 ^ 63" using k(1) by (intro power_increasing) auto
  finally have "\<not> st_len s + extra + 1 \<le> st_cap s" using assms(2) by (simp add: word_le_nat_alt)
  with k(2) grow_diverges [OF assms(2) k(1)] show ?thesis by (simp add: str_reserve_def Let_def)
qed

theorem str_reserve_hangs_witness:
  "str_reserve 1000 (\<lambda>n. True) (\<lambda>i. CHR ''x'') str_init (2 ^ 63) = None"
  by (rule str_reserve_hangs) (simp_all add: str_init_def str_ok_def unat_word_ariths)

end
