(* ===== verification/Slice.thy ===== *)
theory Slice
  imports Czet_Prelude
begin

text \<open>
  The borrowed view of stdlib/utils/slice.h: an address (0 is \<^verbatim>\<open>NULL\<close>) and a length.  The element
  size \<^verbatim>\<open>sizeof(T)\<close> is a parameter; an out-parameter set to \<^verbatim>\<open>NULL\<close> is the address 0.
  Out-parameters are results, so the null checks on their addresses have no counterpart.
\<close>

record slice =
  sl_data :: u64
  sl_len :: u64

definition slice_make :: "u64 \<Rightarrow> u64 \<Rightarrow> slice" where
  "slice_make data len = (if len = 0 \<or> data = 0 then \<lparr>sl_data = 0, sl_len = 0\<rparr>
     else \<lparr>sl_data = data, sl_len = len\<rparr>)"

definition slice_len :: "slice \<Rightarrow> u64" where
  "slice_len s = sl_len s"

definition slice_at :: "u64 \<Rightarrow> slice \<Rightarrow> u64 \<Rightarrow> u64" where
  "slice_at esz s i = (if sl_data s = 0 \<or> sl_len s \<le> i then 0 else sl_data s + i * esz)"

definition slice_sub :: "u64 \<Rightarrow> slice \<Rightarrow> u64 \<Rightarrow> u64 \<Rightarrow> slice" where
  "slice_sub esz s off len =
     (if sl_data s = 0 \<or> sl_len s \<le> off then \<lparr>sl_data = 0, sl_len = 0\<rparr>
      else \<lparr>sl_data = sl_data s + off * esz,
            sl_len = (if sl_len s - off < len then sl_len s - off else len)\<rparr>)"

text \<open>
  Element \<open>i\<close> of a sub-slice is element \<open>off + i\<close> of the slice; outside the clamped range there is
  none.  The start of the sub-slice must not be the null address.
\<close>

theorem slice_sub_at:
  assumes "sl_data s + off * esz \<noteq> 0"
  shows "slice_at esz (slice_sub esz s off len) i =
    (if off < sl_len s \<and> i < len \<and> i < sl_len s - off then slice_at esz s (off + i) else 0)"
proof (cases "sl_data s = 0 \<or> sl_len s \<le> off")
  case True
  then show ?thesis by (auto simp: slice_sub_def slice_at_def)
next
  case False
  have inside: "off + i < sl_len s" if "i < sl_len s - off"
  proof -
    have "unat (sl_len s - off) = unat (sl_len s) - unat off"
      using False by (simp add: unat_sub word_le_nat_alt not_le)
    moreover have "unat i < unat (sl_len s - off)" using that by (simp only: word_less_nat_alt)
    ultimately have lt: "unat off + unat i < unat (sl_len s)" by linarith
    with unat_less64 [of "sl_len s"] have "unat (off + i) = unat off + unat i"
      by (simp add: unat_word_ariths)
    with lt show ?thesis by (simp only: word_less_nat_alt)
  qed
  define n where "n = sl_len s - off"
  have clamp: "(if n < len then n else len) \<le> i \<longleftrightarrow> \<not> (i < len \<and> i < n)"
  proof -
    have "(if n < len then n else len) = min n len" by (auto simp: min_def not_less)
    then show ?thesis by (simp only: min_le_iff_disj not_less de_Morgan_conj) blast
  qed
  have addr: "sl_data s + off * esz + i * esz = sl_data s + (off + i) * esz"
    by (simp add: distrib_right add.assoc)
  have sub: "slice_at esz (slice_sub esz s off len) i =
      (if \<not> (i < len \<and> i < n) then 0 else sl_data s + off * esz + i * esz)"
  proof -
    have "slice_sub esz s off len = \<lparr>sl_data = sl_data s + off * esz, sl_len = if n < len then n else len\<rparr>"
      using False by (simp add: slice_sub_def n_def)
    then show ?thesis
      unfolding slice_at_def clamp [symmetric] using assms by simp
  qed
  have "slice_at esz s (off + i) = sl_data s + (off + i) * esz" if "i < n"
    using inside that False by (simp add: slice_at_def n_def not_le [symmetric])
  with sub addr False show ?thesis by (simp add: n_def not_le)
qed

theorem slice_sub_at_witness:
  "slice_at 4 (slice_sub 4 \<lparr>sl_data = 4096, sl_len = 10\<rparr> 3 5) 2 = slice_at 4 \<lparr>sl_data = 4096, sl_len = 10\<rparr> 5
   \<and> slice_at 4 (slice_sub 4 \<lparr>sl_data = 4096, sl_len = 10\<rparr> 8 5) 2 = 0"
  using slice_sub_at [of "\<lparr>sl_data = 4096, sl_len = 10\<rparr>" 3 4 5 2] slice_sub_at [of "\<lparr>sl_data = 4096, sl_len = 10\<rparr>" 8 4 5 2]
  by simp

text \<open>A sub-slice never reaches past the slice it was taken from.\<close>

lemma slice_sub_len:
  "sl_len (slice_sub esz s off len) \<le> len
   \<and> (unat off \<le> unat (sl_len s) \<longrightarrow> unat off + unat (sl_len (slice_sub esz s off len)) \<le> unat (sl_len s))"
proof (cases "sl_data s = 0 \<or> sl_len s \<le> off")
  case True
  then show ?thesis by (auto simp: slice_sub_def)
next
  case False
  then have "unat (sl_len s - off) = unat (sl_len s) - unat off" "unat off \<le> unat (sl_len s)"
    by (auto simp: unat_sub word_le_nat_alt not_le)
  with False show ?thesis by (auto simp: slice_sub_def word_less_nat_alt word_le_nat_alt)
qed

end
