(* ===== verification/Buffers.thy ===== *)
theory Buffers
  imports Czet_Prelude
begin

text \<open>
  The single-producer single-consumer buffers of stdlib/utils/double_buffering.h and
  triple_buffering.h as interleavings of the atomic accesses and copies of the two threads.
  The consumer is about to copy from the slot its program counter names; a frame is torn when the
  producer copies into that slot.  The relation \<open>tb_step excl\<close> with \<open>excl\<close> set leaves out the interleavings
  in which the consumer takes a frame between the producer's load and its store.
\<close>

subsection \<open>Sequential operations\<close>

record 'a dbuf =
  db_slots :: "'a list"
  db_front :: u8

definition dbuf_init :: "'a \<Rightarrow> 'a dbuf" where
  "dbuf_init x = \<lparr>db_slots = [x, x], db_front = 0\<rparr>"

definition dbuf_write :: "'a dbuf \<Rightarrow> 'a \<Rightarrow> 'a dbuf" where
  "dbuf_write b v = (let f = db_front b in
     b\<lparr>db_slots := (db_slots b)[unat (f XOR 1) := v], db_front := f XOR 1\<rparr>)"

definition dbuf_read :: "'a dbuf \<Rightarrow> 'a" where
  "dbuf_read b = db_slots b ! unat (db_front b)"

record 'a tbuf =
  tb_slots :: "'a list"
  tb_state :: u8

definition tbuf_init :: "'a \<Rightarrow> 'a tbuf" where
  "tbuf_init x = \<lparr>tb_slots = [x, x, x], tb_state = 0\<rparr>"

definition tb_front :: "u8 \<Rightarrow> u8" where
  "tb_front s = s AND 3"

definition tb_shared :: "u8 \<Rightarrow> u8" where
  "tb_shared s = drop_bit 2 s AND 3"

definition tb_dirty :: "u8 \<Rightarrow> bool" where
  "tb_dirty s \<longleftrightarrow> s AND 16 \<noteq> 0"

definition tb_back :: "u8 \<Rightarrow> u8" where
  "tb_back s = (if tb_front s = tb_shared s then (tb_front s + 1) mod 3 else 3 - tb_front s - tb_shared s)"

definition tb_publish :: "u8 \<Rightarrow> u8" where
  "tb_publish s = tb_front s OR push_bit 2 (tb_back s) OR 16"

definition tb_take :: "u8 \<Rightarrow> u8" where
  "tb_take s = tb_shared s OR (s AND NOT 0x13)"

definition tbuf_write :: "'a tbuf \<Rightarrow> 'a \<Rightarrow> 'a tbuf" where
  "tbuf_write b v = (let s = tb_state b in
     b\<lparr>tb_slots := (tb_slots b)[unat (tb_back s) := v], tb_state := tb_publish s\<rparr>)"

definition tbuf_read :: "'a tbuf \<Rightarrow> 'a \<times> 'a tbuf" where
  "tbuf_read b = (let s = tb_state b in
     if \<not> tb_dirty s then (tb_slots b ! unat (tb_front s), b)
     else (tb_slots b ! unat (tb_front (tb_take s)), b\<lparr>tb_state := tb_take s\<rparr>))"

subsection \<open>The state byte\<close>

text \<open>Reachable state bytes: two slot numbers below 3 and the dirty bit.\<close>

definition tb_byte :: "nat \<Rightarrow> nat \<Rightarrow> bool \<Rightarrow> u8" where
  "tb_byte f sh d = of_nat (f + 4 * sh + (if d then 16 else 0))"

lemma less3_cases: "(n :: nat) < 3 \<Longrightarrow> n = 0 \<or> n = 1 \<or> n = 2"
  by auto

lemma tb_byte_fields:
  assumes "f < 3" "sh < 3"
  shows "unat (tb_front (tb_byte f sh d)) = f" "unat (tb_shared (tb_byte f sh d)) = sh"
    "tb_dirty (tb_byte f sh d) = d"
    "unat (tb_back (tb_byte f sh d)) = (if f = sh then (f + 1) mod 3 else 3 - f - sh)"
    "tb_publish (tb_byte f sh d) = tb_byte f (if f = sh then (f + 1) mod 3 else 3 - f - sh) True"
    "tb_take (tb_byte f sh d) = tb_byte sh sh False"
  using less3_cases [OF assms(1)] less3_cases [OF assms(2)]
  by (cases d; auto simp: tb_byte_def tb_front_def tb_shared_def tb_dirty_def tb_back_def tb_publish_def tb_take_def)+

subsection \<open>Without overlap a read returns the last frame written\<close>

definition dbuf_ok :: "'a dbuf \<Rightarrow> bool" where
  "dbuf_ok b \<longleftrightarrow> length (db_slots b) = 2 \<and> (db_front b = 0 \<or> db_front b = 1)"

lemma dbuf_write_read: "dbuf_ok b \<Longrightarrow> dbuf_ok (dbuf_write b v) \<and> dbuf_read (dbuf_write b v) = v"
  by (auto simp: dbuf_ok_def dbuf_write_def dbuf_read_def Let_def)

definition tbyte_ok :: "u8 \<Rightarrow> bool" where
  "tbyte_ok s \<longleftrightarrow> (\<exists>f sh d. f < 3 \<and> sh < 3 \<and> s = tb_byte f sh d)"

lemma tbyte_okE:
  assumes "tbyte_ok s"
  obtains f sh d where "f < 3" "sh < 3" "s = tb_byte f sh d"
  using assms by (auto simp: tbyte_ok_def)

lemma tbyte_ok_zero: "tbyte_ok 0"
  unfolding tbyte_ok_def by (rule exI [of _ 0], rule exI [of _ 0], rule exI [of _ False]) (simp add: tb_byte_def)

lemma back_less: "f < 3 \<Longrightarrow> sh < 3 \<Longrightarrow> (if f = sh then (f + 1) mod 3 else 3 - f - sh) < (3 :: nat)"
  by auto

lemma tbyte_ok_steps:
  assumes "tbyte_ok s"
  shows "tbyte_ok (tb_publish s)" "tbyte_ok (tb_take s)" "tb_front (tb_publish s) = tb_front s"
    "tb_dirty (tb_publish s)" "\<not> tb_dirty (tb_take s)" "tb_front (tb_take s) = tb_shared s"
    "tb_shared (tb_publish s) = tb_back s" "unat (tb_front s) < 3" "unat (tb_back s) < 3"
    "tb_back s \<noteq> tb_front s"
proof -
  obtain f sh d where b: "f < 3" "sh < 3" "s = tb_byte f sh d" by (rule tbyte_okE [OF assms])
  let ?k = "if f = sh then (f + 1) mod 3 else 3 - f - sh"
  note here = tb_byte_fields [OF b(1,2), of d, folded b(3)]
  note pub = tb_byte_fields [OF b(1) back_less [OF b(1,2)], of True, folded here(5)]
  note tak = tb_byte_fields [OF b(2,2), of False, folded here(6)]
  show "tbyte_ok (tb_publish s)" unfolding tbyte_ok_def using here(5) b back_less [OF b(1,2)] by blast
  show "tbyte_ok (tb_take s)" unfolding tbyte_ok_def using here(6) b by blast
  show "tb_front (tb_publish s) = tb_front s" "tb_shared (tb_publish s) = tb_back s"
    "tb_front (tb_take s) = tb_shared s"
    using here pub tak by (simp_all add: word_unat_eq_iff)
  show "tb_dirty (tb_publish s)" "\<not> tb_dirty (tb_take s)" using pub(3) tak(3) by simp_all
  show "unat (tb_front s) < 3" "unat (tb_back s) < 3" using here b back_less [OF b(1,2)] by simp_all
  have "?k \<noteq> f" using less3_cases [OF b(1)] less3_cases [OF b(2)] by auto
  then show "tb_back s \<noteq> tb_front s" using here by (metis word_unat_eq_iff)
qed

definition tbuf_ok :: "'a tbuf \<Rightarrow> bool" where
  "tbuf_ok b \<longleftrightarrow> length (tb_slots b) = 3 \<and> tbyte_ok (tb_state b)"

lemma tbuf_write_read:
  assumes "tbuf_ok b"
  shows "tbuf_ok (tbuf_write b v)" "fst (tbuf_read (tbuf_write b v)) = v"
    "tbuf_ok (snd (tbuf_read (tbuf_write b v)))" "fst (tbuf_read (snd (tbuf_read (tbuf_write b v)))) = v"
  using assms tbyte_ok_steps [of "tb_state b"] tbyte_ok_steps [of "tb_publish (tb_state b)"]
  by (auto simp: tbuf_ok_def tbuf_write_def tbuf_read_def Let_def)

text \<open>
  Without interference a read of the triple buffer returns the last frame written, again and
  again, and both operations keep the state byte well formed.
\<close>

theorem tbuf_latest:
  assumes "tbuf_ok b"
  shows "tbuf_ok (tbuf_write b v) \<and> fst (tbuf_read (tbuf_write b v)) = v
    \<and> fst (tbuf_read (snd (tbuf_read (tbuf_write b v)))) = v"
  by (intro conjI tbuf_write_read [OF assms])

theorem tbuf_latest_witness: "fst (tbuf_read (tbuf_write (tbuf_write (tbuf_init 1) 2) (3 :: nat))) = 3"
proof -
  have "tbuf_ok (tbuf_init (1 :: nat))"
    by (simp add: tbuf_ok_def tbuf_init_def tbyte_ok_zero)
  then have "tbuf_ok (tbuf_write (tbuf_init 1) (2 :: nat))" by (rule tbuf_write_read(1))
  from conjunct1 [OF conjunct2 [OF tbuf_latest [OF this]]] show ?thesis .
qed

subsection \<open>Interleavings of the triple buffer\<close>

datatype 'a wpc = W_idle | W_loaded u8 'a | W_copied u8

datatype rpc = R_idle | R_loaded u8 | R_reading nat

record 'a tconf =
  tc_slots :: "'a list"
  tc_state :: u8
  tc_w :: "'a wpc"
  tc_r :: rpc

inductive tb_step :: "bool \<Rightarrow> 'a tconf \<Rightarrow> 'a tconf \<Rightarrow> bool" for excl where
  w_load: "tc_w c = W_idle \<Longrightarrow> tb_step excl c (c\<lparr>tc_w := W_loaded (tc_state c) v\<rparr>)"
| w_copy: "tc_w c = W_loaded s v \<Longrightarrow>
    tb_step excl c (c\<lparr>tc_slots := (tc_slots c)[unat (tb_back s) := v], tc_w := W_copied s\<rparr>)"
| w_store: "tc_w c = W_copied s \<Longrightarrow> tb_step excl c (c\<lparr>tc_state := tb_publish s, tc_w := W_idle\<rparr>)"
| r_load: "tc_r c = R_idle \<Longrightarrow> tb_step excl c (c\<lparr>tc_r := R_loaded (tc_state c)\<rparr>)"
| r_clean: "tc_r c = R_loaded s \<Longrightarrow> \<not> tb_dirty s \<Longrightarrow>
    tb_step excl c (c\<lparr>tc_r := R_reading (unat (tb_front s))\<rparr>)"
| r_cas: "tc_r c = R_loaded s \<Longrightarrow> tb_dirty s \<Longrightarrow> tc_state c = s \<Longrightarrow> (excl \<longrightarrow> tc_w c = W_idle) \<Longrightarrow>
    tb_step excl c (c\<lparr>tc_state := tb_take s, tc_r := R_reading (unat (tb_front (tb_take s)))\<rparr>)"
| r_retry: "tc_r c = R_loaded s \<Longrightarrow> tb_dirty s \<Longrightarrow> tb_step excl c (c\<lparr>tc_r := R_idle\<rparr>)"
| r_copy: "tc_r c = R_reading i \<Longrightarrow> tb_step excl c (c\<lparr>tc_r := R_idle\<rparr>)"

definition tb_start :: "'a \<Rightarrow> 'a tconf" where
  "tb_start x = \<lparr>tc_slots = tb_slots (tbuf_init x), tc_state = tb_state (tbuf_init x), tc_w = W_idle, tc_r = R_idle\<rparr>"

definition tb_reachable :: "bool \<Rightarrow> 'a \<Rightarrow> 'a tconf \<Rightarrow> bool" where
  "tb_reachable excl x c \<longleftrightarrow> (tb_step excl)\<^sup>*\<^sup>* (tb_start x) c"

text \<open>
  The invariant of the excluding relation: what the producer has loaded is still the state, and
  the consumer reads the front slot of the state.
\<close>

definition tb_inv :: "'a tconf \<Rightarrow> bool" where
  "tb_inv c \<longleftrightarrow> tbyte_ok (tc_state c)
     \<and> (case tc_w c of W_idle \<Rightarrow> True | W_loaded s v \<Rightarrow> s = tc_state c | W_copied s \<Rightarrow> s = tc_state c)
     \<and> (case tc_r c of R_idle \<Rightarrow> True | R_loaded s \<Rightarrow> tb_front s = tb_front (tc_state c)
        | R_reading i \<Rightarrow> i = unat (tb_front (tc_state c)))"

lemma tb_inv_step: "tb_step True c c' \<Longrightarrow> tb_inv c \<Longrightarrow> tb_inv c'"
proof (induction rule: tb_step.induct)
  case (w_store c s)
  then show ?case
    using tbyte_ok_steps [of s] by (auto simp: tb_inv_def split: rpc.splits)
next
  case (r_cas c s)
  then show ?case
    using tbyte_ok_steps [of s] by (auto simp: tb_inv_def)
qed (auto simp: tb_inv_def split: wpc.splits rpc.splits)

lemma tb_inv_reachable: "tb_reachable True x c \<Longrightarrow> tb_inv c"
  unfolding tb_reachable_def
proof (induction rule: rtranclp_induct)
  case base
  show ?case using tbyte_ok_zero by (simp add: tb_inv_def tb_start_def tbuf_init_def)
qed (rule tb_inv_step)

text \<open>
  As long as the consumer takes no frame between the load and the store of a write, the producer
  never copies into the slot the consumer is reading.
\<close>

theorem tb_no_tear:
  assumes "tb_reachable True x c" "tc_w c = W_loaded s v" "tc_r c = R_reading i"
  shows "unat (tb_back s) \<noteq> i"
proof -
  have "tbyte_ok s" "i = unat (tb_front s)"
    using tb_inv_reachable [OF assms(1)] assms(2,3) by (auto simp: tb_inv_def)
  with tbyte_ok_steps(10) [of s] show ?thesis by (simp add: word_unat_eq_iff)
qed

lemma tb_both_busy:
  "tb_reachable e x \<lparr>tc_slots = [x, x, x], tc_state = 0, tc_w = W_loaded 0 x, tc_r = R_reading 0\<rparr>"
proof -
  let ?c = "\<lambda>w r. \<lparr>tc_slots = [x, x, x], tc_state = 0, tc_w = w, tc_r = r\<rparr>"
  have "tb_step e (?c W_idle R_idle) (?c W_idle (R_loaded 0))"
    using tb_step.r_load [of "?c W_idle R_idle" e] by simp
  moreover have "tb_step e (?c W_idle (R_loaded 0)) (?c W_idle (R_reading 0))"
    using tb_step.r_clean [of "?c W_idle (R_loaded 0)" 0 e] by (simp add: tb_dirty_def tb_front_def)
  moreover have "tb_step e (?c W_idle (R_reading 0)) (?c (W_loaded 0 x) (R_reading 0))"
    using tb_step.w_load [of "?c W_idle (R_reading 0)" e x] by simp
  moreover have "tb_start x = ?c W_idle R_idle" by (simp add: tb_start_def tbuf_init_def)
  ultimately show ?thesis
    unfolding tb_reachable_def by (metis (no_types, lifting) converse_rtranclp_into_rtranclp rtranclp.rtrancl_refl)
qed

theorem tb_no_tear_witness: "unat (tb_back 0) \<noteq> 0"
  by (rule tb_no_tear [OF tb_both_busy [of True "0 :: nat"], of 0 0 0]) simp_all

text \<open>In the unrestricted interleavings it does: the store restores an outdated front.\<close>

lemma tb_write_run:
  assumes "tc_w c = W_idle"
  shows "(tb_step e)\<^sup>*\<^sup>* c (c\<lparr>tc_slots := (tc_slots c)[unat (tb_back (tc_state c)) := v],
    tc_state := tb_publish (tc_state c)\<rparr>)"
proof -
  let ?c1 = "c\<lparr>tc_w := W_loaded (tc_state c) v\<rparr>"
  let ?c2 = "?c1\<lparr>tc_slots := (tc_slots c)[unat (tb_back (tc_state c)) := v], tc_w := W_copied (tc_state c)\<rparr>"
  have "tb_step e c ?c1" "tb_step e ?c1 ?c2"
    using tb_step.w_load [of c e v] tb_step.w_copy [of ?c1 "tc_state c" v e] assms by simp_all
  moreover have "tb_step e ?c2 (?c2\<lparr>tc_state := tb_publish (tc_state c), tc_w := W_idle\<rparr>)"
    by (rule tb_step.w_store) simp
  ultimately have "(tb_step e)\<^sup>*\<^sup>* c (?c2\<lparr>tc_state := tb_publish (tc_state c), tc_w := W_idle\<rparr>)"
    by (meson converse_rtranclp_into_rtranclp rtranclp.rtrancl_refl)
  moreover have "?c2\<lparr>tc_state := tb_publish (tc_state c), tc_w := W_idle\<rparr>
      = c\<lparr>tc_slots := (tc_slots c)[unat (tb_back (tc_state c)) := v], tc_state := tb_publish (tc_state c)\<rparr>"
    using assms by simp
  ultimately show ?thesis by simp
qed

lemma tb_bytes: "tb_publish 0 = 20" "tb_publish 20 = 24" "tb_take 20 = 5" "tb_dirty 20"
  "unat (tb_front 5) = 1" "unat (tb_back 24) = 1"
  by (simp_all add: tb_publish_def tb_take_def tb_dirty_def tb_front_def tb_back_def tb_shared_def)

text \<open>
  In the unrestricted interleavings the producer can copy into the slot the consumer is reading:
  a take between load and store is undone by the store.
\<close>

theorem tb_tear_reachable:
  fixes x :: 'a
  shows "\<exists>c s v i. tb_reachable False x c \<and> tc_w c = W_loaded s v \<and> tc_r c = R_reading i \<and> unat (tb_back s) = i"
proof -
  let ?R = "(tb_step False)\<^sup>*\<^sup>* (tb_start x)"
  obtain sl :: "'a list" where c1: "?R \<lparr>tc_slots = sl, tc_state = 20, tc_w = W_idle, tc_r = R_idle\<rparr>"
    using tb_write_run [of "tb_start x" False x] by (simp add: tb_start_def tbuf_init_def tb_bytes)
  have c2: "?R \<lparr>tc_slots = sl, tc_state = 20, tc_w = W_loaded 20 x, tc_r = R_idle\<rparr>"
    using tb_step.w_load [of "\<lparr>tc_slots = sl, tc_state = 20, tc_w = W_idle, tc_r = R_idle\<rparr>" False x] c1
    by (auto intro: rtranclp.rtrancl_into_rtrancl)
  have c3: "?R \<lparr>tc_slots = sl, tc_state = 20, tc_w = W_loaded 20 x, tc_r = R_loaded 20\<rparr>"
    using tb_step.r_load [of "\<lparr>tc_slots = sl, tc_state = 20, tc_w = W_loaded 20 x, tc_r = R_idle\<rparr>" False] c2
    by (auto intro: rtranclp.rtrancl_into_rtrancl)
  have c4: "?R \<lparr>tc_slots = sl, tc_state = 5, tc_w = W_loaded 20 x, tc_r = R_reading 1\<rparr>"
    using tb_step.r_cas [of "\<lparr>tc_slots = sl, tc_state = 20, tc_w = W_loaded 20 x, tc_r = R_loaded 20\<rparr>" 20 False] c3
    by (auto simp: tb_bytes intro: rtranclp.rtrancl_into_rtrancl)
  obtain sl' where c5: "?R \<lparr>tc_slots = sl', tc_state = 5, tc_w = W_copied 20, tc_r = R_reading 1\<rparr>"
    using tb_step.w_copy [of "\<lparr>tc_slots = sl, tc_state = 5, tc_w = W_loaded 20 x, tc_r = R_reading 1\<rparr>" 20 x False] c4
    by (auto intro: rtranclp.rtrancl_into_rtrancl)
  have c6: "?R \<lparr>tc_slots = sl', tc_state = 24, tc_w = W_idle, tc_r = R_reading 1\<rparr>"
    using tb_step.w_store [of "\<lparr>tc_slots = sl', tc_state = 5, tc_w = W_copied 20, tc_r = R_reading 1\<rparr>" 20 False] c5
    by (auto simp: tb_bytes intro: rtranclp.rtrancl_into_rtrancl)
  let ?c = "\<lparr>tc_slots = sl', tc_state = 24, tc_w = W_loaded 24 x, tc_r = R_reading 1\<rparr>"
  have "?R ?c"
    using tb_step.w_load [of "\<lparr>tc_slots = sl', tc_state = 24, tc_w = W_idle, tc_r = R_reading 1\<rparr>" False x] c6
    by (auto intro: rtranclp.rtrancl_into_rtrancl)
  then have "tb_reachable False x ?c \<and> tc_w ?c = W_loaded 24 x \<and> tc_r ?c = R_reading 1 \<and> unat (tb_back 24) = 1"
    by (simp add: tb_reachable_def tb_bytes)
  then show ?thesis by blast
qed

subsection \<open>Interleavings of the double buffer\<close>

record 'a dconf =
  dc_slots :: "'a list"
  dc_front :: u8
  dc_w :: "'a wpc"
  dc_r :: "u8 option"
  dc_stores :: nat

text \<open>\<open>dc_stores\<close> counts the frames published since the consumer loaded \<^verbatim>\<open>front\<close>.\<close>

inductive db_step :: "'a dconf \<Rightarrow> 'a dconf \<Rightarrow> bool" where
  d_load: "dc_w c = W_idle \<Longrightarrow> db_step c (c\<lparr>dc_w := W_loaded (dc_front c) v\<rparr>)"
| d_copy: "dc_w c = W_loaded f v \<Longrightarrow>
    db_step c (c\<lparr>dc_slots := (dc_slots c)[unat (f XOR 1) := v], dc_w := W_copied f\<rparr>)"
| d_store: "dc_w c = W_copied f \<Longrightarrow>
    db_step c (c\<lparr>dc_front := f XOR 1, dc_w := W_idle, dc_stores := dc_stores c + 1\<rparr>)"
| d_read: "dc_r c = None \<Longrightarrow> db_step c (c\<lparr>dc_r := Some (dc_front c), dc_stores := 0\<rparr>)"
| d_out: "dc_r c = Some f \<Longrightarrow> db_step c (c\<lparr>dc_r := None\<rparr>)"

definition db_start :: "'a \<Rightarrow> 'a dconf" where
  "db_start x = \<lparr>dc_slots = db_slots (dbuf_init x), dc_front = db_front (dbuf_init x), dc_w = W_idle,
     dc_r = None, dc_stores = 0\<rparr>"

definition db_reachable :: "'a \<Rightarrow> 'a dconf \<Rightarrow> bool" where
  "db_reachable x c \<longleftrightarrow> db_step\<^sup>*\<^sup>* (db_start x) c"

definition db_inv :: "'a dconf \<Rightarrow> bool" where
  "db_inv c \<longleftrightarrow> (dc_front c = 0 \<or> dc_front c = 1)
     \<and> (case dc_w c of W_idle \<Rightarrow> True | W_loaded f v \<Rightarrow> f = dc_front c | W_copied f \<Rightarrow> f = dc_front c)
     \<and> (dc_stores c = 0 \<longrightarrow> (case dc_r c of None \<Rightarrow> True | Some f \<Rightarrow> f = dc_front c))"

lemma db_inv_reachable: "db_reachable x c \<Longrightarrow> db_inv c"
  unfolding db_reachable_def
proof (induction rule: rtranclp_induct)
  case base
  show ?case by (simp add: db_inv_def db_start_def dbuf_init_def)
next
  case (step c c')
  from step(2,3) show ?case
    by (induction rule: db_step.induct) (auto simp: db_inv_def split: wpc.splits option.splits)
qed

text \<open>
  Until a frame has been published during a read, the producer of the double buffer works on
  the other slot.
\<close>

theorem db_no_tear:
  assumes "db_reachable x c" "dc_w c = W_loaded f v" "dc_r c = Some g" "dc_stores c = 0"
  shows "f XOR 1 \<noteq> g"
  using db_inv_reachable [OF assms(1)] assms(2-) by (auto simp: db_inv_def)

lemma db_both_busy:
  "db_reachable x \<lparr>dc_slots = [x, x], dc_front = 0, dc_w = W_loaded 0 x, dc_r = Some 0, dc_stores = 0\<rparr>"
proof -
  let ?c = "\<lambda>w r. \<lparr>dc_slots = [x, x], dc_front = 0, dc_w = w, dc_r = r, dc_stores = 0\<rparr>"
  have "db_step (?c W_idle None) (?c W_idle (Some 0))"
    using db_step.d_read [of "?c W_idle None"] by simp
  moreover have "db_step (?c W_idle (Some 0)) (?c (W_loaded 0 x) (Some 0))"
    using db_step.d_load [of "?c W_idle (Some 0)" x] by simp
  moreover have "db_start x = ?c W_idle None" by (simp add: db_start_def dbuf_init_def)
  ultimately show ?thesis
    unfolding db_reachable_def by (metis (no_types, lifting) converse_rtranclp_into_rtranclp rtranclp.rtrancl_refl)
qed

theorem db_no_tear_witness: "0 XOR 1 \<noteq> (0 :: u8)"
  by (rule db_no_tear [OF db_both_busy [of "0 :: nat"], of 0 0 0]) simp_all

text \<open>
  A second frame published during the same read goes into the slot being read.
\<close>

theorem db_tear_reachable:
  fixes x :: 'a
  shows "\<exists>c f v. db_reachable x c \<and> dc_w c = W_loaded f v \<and> dc_r c = Some (f XOR 1) \<and> dc_stores c = 1"
proof -
  let ?R = "db_step\<^sup>*\<^sup>* (db_start x)"
  let ?c = "\<lambda>sl f w n. \<lparr>dc_slots = sl, dc_front = f, dc_w = w, dc_r = Some 0, dc_stores = n\<rparr>"
  have c1: "?R (?c [x, x] 0 W_idle 0)"
    using db_step.d_read [of "db_start x"] by (auto simp: db_start_def dbuf_init_def)
  have c2: "?R (?c [x, x] 0 (W_loaded 0 x) 0)"
    using db_step.d_load [of "?c [x, x] 0 W_idle 0" x] c1 by (auto intro: rtranclp.rtrancl_into_rtrancl)
  have c3: "?R (?c [x, x] 0 (W_copied 0) 0)"
    using db_step.d_copy [of "?c [x, x] 0 (W_loaded 0 x) 0" 0 x] c2
    by (auto simp: list_update_code intro: rtranclp.rtrancl_into_rtrancl)
  have c4: "?R (?c [x, x] 1 W_idle 1)"
    using db_step.d_store [of "?c [x, x] 0 (W_copied 0) 0" 0] c3 by (auto intro: rtranclp.rtrancl_into_rtrancl)
  let ?d = "?c [x, x] 1 (W_loaded 1 x) 1"
  have "?R ?d"
    using db_step.d_load [of "?c [x, x] 1 W_idle 1" x] c4 by (auto intro: rtranclp.rtrancl_into_rtrancl)
  then have "db_reachable x ?d \<and> dc_w ?d = W_loaded 1 x \<and> dc_r ?d = Some (1 XOR 1) \<and> dc_stores ?d = 1"
    by (simp add: db_reachable_def)
  then show ?thesis by blast
qed

end
