(* ===== verification/Save_Memory.thy ===== *)
theory Save_Memory
  imports Czet_Prelude
begin

text \<open>
  Binary save and load over reflection metadata, stdlib/utils/save_memory.h.  An object lives in a
  byte list, a \<open>FILE\<close> open for writing is the bytes written and the room left (\<^verbatim>\<open>fwrite\<close> may come
  up short), one open for reading is the bytes left.  The byte order of the host and the success
  of \<^verbatim>\<open>malloc\<close> are parameters.
\<close>

datatype reflect_t = Reflect (rf_kind: nat) (rf_size: nat) (rf_count: nat)
  (rf_elem: "reflect_t option") (rf_fields: "(reflect_t option \<times> nat) list option")

record wfile =
  wf_data :: "u8 list"
  wf_room :: nat

subsection \<open>Bytes\<close>

text \<open>\<^verbatim>\<open>for (i = 0, j = n ? n - 1 : 0; i < j; i++, j--)\<close> swapping in place.\<close>

function swap_loop :: "u8 list \<Rightarrow> nat \<Rightarrow> nat \<Rightarrow> u8 list" where
  "swap_loop a i j = (if i < j then swap_loop (a[i := a ! j, j := a ! i]) (i + 1) (j - 1) else a)"
  by pat_completeness auto
termination
  by (relation "measure (\<lambda>(a, i, j). j - i)") auto

declare swap_loop.simps [simp del]

definition sm_swap_bytes :: "u8 list \<Rightarrow> u8 list" where
  "sm_swap_bytes a = swap_loop a 0 (if length a \<noteq> 0 then length a - 1 else 0)"

definition store_bytes :: "nat \<Rightarrow> u8 list \<Rightarrow> u8 list \<Rightarrow> u8 list" where
  "store_bytes p bs mem = take p mem @ bs @ drop (p + length bs) mem"

definition sm_write_raw :: "wfile \<Rightarrow> u8 list \<Rightarrow> int \<times> wfile" where
  "sm_write_raw f bs =
     (if bs = [] then (0, f)
      else (if length bs \<le> wf_room f then 0 else -1,
            f\<lparr>wf_data := wf_data f @ take (wf_room f) bs, wf_room := wf_room f - length bs\<rparr>))"

definition sm_read_raw :: "u8 list \<Rightarrow> u8 list \<Rightarrow> nat \<Rightarrow> nat \<Rightarrow> int \<times> u8 list \<times> u8 list" where
  "sm_read_raw f mem p n =
     (if n = 0 then (0, mem, f)
      else (if n \<le> length f then 0 else -1, store_bytes p (take n f) mem, drop n f))"

definition sm_write_scalar :: "bool \<Rightarrow> (nat \<Rightarrow> bool) \<Rightarrow> wfile \<Rightarrow> u8 list \<Rightarrow> int \<times> wfile" where
  "sm_write_scalar le malloc f bs =
     (if bs = [] then (0, f)
      else if length bs = 1 \<or> le then sm_write_raw f bs
      else if \<not> malloc (length bs) then (-1, f)
      else sm_write_raw f (sm_swap_bytes bs))"

definition sm_read_scalar :: "bool \<Rightarrow> u8 list \<Rightarrow> u8 list \<Rightarrow> nat \<Rightarrow> nat \<Rightarrow> int \<times> u8 list \<times> u8 list" where
  "sm_read_scalar le f mem p n =
     (case sm_read_raw f mem p n of (rc, mem', f') \<Rightarrow>
        if rc \<noteq> 0 then (-1, mem', f')
        else (0, if 1 < n \<and> \<not> le then store_bytes p (sm_swap_bytes (span mem' p (p + n))) mem' else mem', f'))"

subsection \<open>Loops and the largest field\<close>

fun loop_from :: "(nat \<Rightarrow> 's \<Rightarrow> int \<times> 's) \<Rightarrow> nat \<Rightarrow> nat \<Rightarrow> 's \<Rightarrow> int \<times> 's" where
  "loop_from step i 0 st = (0, st)"
| "loop_from step i (Suc n) st =
     (case step i st of (rc, st') \<Rightarrow> if rc \<noteq> 0 then (-1, st') else loop_from step (Suc i) n st')"

fun loop_list :: "('f \<Rightarrow> 's \<Rightarrow> int \<times> 's) \<Rightarrow> 'f list \<Rightarrow> 's \<Rightarrow> int \<times> 's" where
  "loop_list step [] st = (0, st)"
| "loop_list step (x # xs) st =
     (case step x st of (rc, st') \<Rightarrow> if rc \<noteq> 0 then (-1, st') else loop_list step xs st')"

lemma loop_list_cong [fundef_cong]:
  "xs = ys \<Longrightarrow> st = st' \<Longrightarrow> (\<And>x s. x \<in> set ys \<Longrightarrow> f x s = g x s) \<Longrightarrow> loop_list f xs st = loop_list g ys st'"
proof (induction xs arbitrary: ys st st')
  case (Cons x xs)
  then show ?case by (auto split: prod.splits)
qed simp

fun largest :: "(reflect_t option \<times> nat) list \<Rightarrow> nat \<Rightarrow> (reflect_t \<times> nat) option \<Rightarrow> (reflect_t \<times> nat) option" where
  "largest [] best cur = cur"
| "largest ((None, off) # fs) best cur = largest fs best cur"
| "largest ((Some t, off) # fs) best cur =
     (if best < rf_size t then largest fs (rf_size t) (Some (t, off)) else largest fs best cur)"

lemma largest_mem:
  "largest fs best cur = Some (t, off) \<Longrightarrow> cur = Some (t, off) \<or> (Some t, off) \<in> set fs"
  by (induction fs best cur rule: largest.induct) (auto split: if_splits)

lemma field_size:
  assumes "(Some t, off) \<in> set fs"
  shows "size t < size (Reflect k s c e (Some fs))"
  using assms
proof (induction fs)
  case (Cons x fs)
  then show ?case by (cases "x = (Some t, off)") auto
qed simp

lemma elem_size: "size e < size (Reflect k s c (Some e) fs)"
  by simp

subsection \<open>Writing and reading a value\<close>

function sm_write_value :: "bool \<Rightarrow> (nat \<Rightarrow> bool) \<Rightarrow> u8 list \<Rightarrow> nat \<Rightarrow> reflect_t \<Rightarrow> wfile \<Rightarrow> int \<times> wfile" where
  "sm_write_value le malloc mem p (Reflect k sz cnt el fs) f =
     (if k = 2 \<or> k = 8 \<or> k = 3 then sm_write_scalar le malloc f (span mem p (p + sz))
      else if k = 5 then
        (case el of
           None \<Rightarrow> (-1, f)
         | Some e \<Rightarrow> if rf_size e = 0 then (-1, f)
                     else loop_from (\<lambda>i. sm_write_value le malloc mem (p + i * rf_size e) e) 0 cnt f)
      else if k = 6 \<or> k = 7 then
        (case fs of
           None \<Rightarrow> (if cnt = 0 then 0 else -1, f)
         | Some fl \<Rightarrow>
             if k = 7 then
               (case largest (take cnt fl) 0 None of
                  None \<Rightarrow> (0, f)
                | Some (t, off) \<Rightarrow> sm_write_value le malloc mem (p + off) t f)
             else loop_list (\<lambda>(t, off) s. case t of None \<Rightarrow> (-1, s)
                               | Some r \<Rightarrow> sm_write_value le malloc mem (p + off) r s) (take cnt fl) f)
      else if k = 10 then (case el of None \<Rightarrow> (-1, f) | Some e \<Rightarrow> sm_write_value le malloc mem p e f)
      else (-1, f))"
  by pat_completeness auto
termination
proof (relation "measure (\<lambda>(le, malloc, mem, p, r, f). size r)")
qed (auto dest!: largest_mem in_set_takeD intro: field_size elem_size simp del: reflect_t.size)

function sm_read_value :: "bool \<Rightarrow> nat \<Rightarrow> reflect_t \<Rightarrow> u8 list \<times> u8 list \<Rightarrow> int \<times> u8 list \<times> u8 list" where
  "sm_read_value le p (Reflect k sz cnt el fs) (mem, f) =
     (if k = 2 \<or> k = 8 \<or> k = 3 then sm_read_scalar le f mem p sz
      else if k = 5 then
        (case el of
           None \<Rightarrow> (-1, mem, f)
         | Some e \<Rightarrow> if rf_size e = 0 then (-1, mem, f)
                     else loop_from (\<lambda>i. sm_read_value le (p + i * rf_size e) e) 0 cnt (mem, f))
      else if k = 6 \<or> k = 7 then
        (case fs of
           None \<Rightarrow> (if cnt = 0 then 0 else -1, mem, f)
         | Some fl \<Rightarrow>
             if k = 7 then
               (case largest (take cnt fl) 0 None of
                  None \<Rightarrow> (0, mem, f)
                | Some (t, off) \<Rightarrow> sm_read_value le (p + off) t (mem, f))
             else loop_list (\<lambda>(t, off) s. case t of None \<Rightarrow> (-1, s)
                               | Some r \<Rightarrow> sm_read_value le (p + off) r s) (take cnt fl) (mem, f))
      else if k = 10 then (case el of None \<Rightarrow> (-1, mem, f) | Some e \<Rightarrow> sm_read_value le p e (mem, f))
      else (-1, mem, f))"
  by pat_completeness auto
termination
proof (relation "measure (\<lambda>(le, p, r, s). size r)")
qed (auto dest!: largest_mem in_set_takeD intro: field_size elem_size simp del: reflect_t.size)

declare sm_write_value.simps [simp del] sm_read_value.simps [simp del]

text \<open>
  The null checks of the two routines concern the file, the object and the metadata of the
  outermost call only: the recursive calls pass on the same file, an address inside the object and
  metadata that was just tested.  A null pointer is \<^term>\<open>None\<close> here.
\<close>

definition sm_save_r ::
  "bool \<Rightarrow> (nat \<Rightarrow> bool) \<Rightarrow> u8 list \<Rightarrow> wfile option \<Rightarrow> nat option \<Rightarrow> reflect_t option \<Rightarrow> int \<times> wfile option" where
  "sm_save_r le malloc mem f p r =
     (case (f, p, r) of
        (Some w, Some a, Some t) \<Rightarrow> (case sm_write_value le malloc mem a t w of (rc, w') \<Rightarrow> (rc, Some w'))
      | _ \<Rightarrow> (-1, f))"

definition sm_load_r ::
  "bool \<Rightarrow> u8 list \<Rightarrow> u8 list option \<Rightarrow> nat option \<Rightarrow> reflect_t option \<Rightarrow> int \<times> u8 list \<times> u8 list option" where
  "sm_load_r le mem f p r =
     (case (f, p, r) of
        (Some s, Some a, Some t) \<Rightarrow> (case sm_read_value le a t (mem, s) of (rc, mem', s') \<Rightarrow> (rc, mem', Some s'))
      | _ \<Rightarrow> (-1, mem, f))"

subsection \<open>Reversal\<close>

lemma length_swap_loop [simp]: "length (swap_loop a i j) = length a"
  by (induction a i j rule: swap_loop.induct) (subst swap_loop.simps, simp)

lemma swap_loop_nth:
  assumes "i + j = length a - 1" "j < length a" "n < length a"
  shows "swap_loop a i j ! n = (if i \<le> n \<and> n \<le> j then a ! (length a - 1 - n) else a ! n)"
  using assms
proof (induction a i j rule: swap_loop.induct)
  case (1 a i j)
  show ?case
  proof (cases "i < j")
    case True
    let ?a = "a[i := a ! j, j := a ! i]"
    have "swap_loop a i j ! n = swap_loop ?a (i + 1) (j - 1) ! n"
      using True by (subst swap_loop.simps) simp
    also have "\<dots> = (if i + 1 \<le> n \<and> n \<le> j - 1 then ?a ! (length a - 1 - n) else ?a ! n)"
      using "1.IH" [OF True] "1.prems" True by simp
    also have "\<dots> = (if i \<le> n \<and> n \<le> j then a ! (length a - 1 - n) else a ! n)"
    proof -
      consider "n = i" | "n = j" | "i < n \<and> n < j" | "n < i \<or> j < n" by linarith
      then show ?thesis
      proof cases
        case 1
        then have "length a - 1 - n = j" using \<open>i + j = length a - 1\<close> by linarith
        with 1 True "1.prems" show ?thesis by (simp add: nth_list_update)
      next
        case 2
        then have "length a - 1 - n = i" using \<open>i + j = length a - 1\<close> by linarith
        with 2 True "1.prems" show ?thesis by (auto simp: nth_list_update)
      next
        case 3
        then have "length a - 1 - n \<noteq> i" "length a - 1 - n \<noteq> j" "length a - 1 - n < length a"
          using "1.prems" by linarith+
        moreover have "n \<le> j - Suc 0" using 3 by linarith
        ultimately show ?thesis using 3 by simp
      next
        case 4
        with True "1.prems" show ?thesis by auto
      qed
    qed
    finally show ?thesis .
  next
    case False
    then have "swap_loop a i j = a" by (subst swap_loop.simps) simp
    moreover have "length a - 1 - n = n" if "i \<le> n" "n \<le> j" using False that "1.prems"(1) by linarith
    ultimately show ?thesis by auto
  qed
qed

lemma sm_swap_bytes_rev: "sm_swap_bytes a = rev a"
proof (cases "a = []")
  case True
  then show ?thesis by (simp add: sm_swap_bytes_def swap_loop.simps)
next
  case False
  show ?thesis
  proof (rule nth_equalityI)
    show "length (sm_swap_bytes a) = length (rev a)" by (simp add: sm_swap_bytes_def)
    fix n
    assume "n < length (sm_swap_bytes a)"
    then have n: "n < length a" by (simp add: sm_swap_bytes_def)
    moreover have "n \<le> length a - Suc 0" using n by linarith
    ultimately show "sm_swap_bytes a ! n = rev a ! n"
      using False swap_loop_nth [of 0 "length a - 1" a n]
      by (simp add: sm_swap_bytes_def rev_nth)
  qed
qed

subsection \<open>The bytes a value occupies and its encoding\<close>

function cover :: "nat \<Rightarrow> reflect_t \<Rightarrow> nat set" where
  "cover p (Reflect k sz cnt el fs) =
     (if k = 2 \<or> k = 8 \<or> k = 3 then {p..<p + sz}
      else if k = 5 then
        (case el of None \<Rightarrow> {} | Some e \<Rightarrow> (\<Union>i < cnt. cover (p + i * rf_size e) e))
      else if k = 6 then
        (case fs of None \<Rightarrow> {} | Some fl \<Rightarrow>
           (\<Union>(t, off) \<in> set (take cnt fl). case t of None \<Rightarrow> {} | Some r \<Rightarrow> cover (p + off) r))
      else if k = 7 then
        (case fs of None \<Rightarrow> {} | Some fl \<Rightarrow>
           (case largest (take cnt fl) 0 None of None \<Rightarrow> {} | Some (t, off) \<Rightarrow> cover (p + off) t))
      else if k = 10 then (case el of None \<Rightarrow> {} | Some e \<Rightarrow> cover p e)
      else {})"
  by pat_completeness auto
termination
proof (relation "measure (\<lambda>(p, r). size r)")
qed (auto dest!: largest_mem in_set_takeD intro: field_size elem_size simp del: reflect_t.size)

text \<open>Types that can be stored: no pointers, functions or \<^verbatim>\<open>void\<close>, no missing metadata.\<close>

function storable :: "reflect_t \<Rightarrow> bool" where
  "storable (Reflect k sz cnt el fs) =
     (if k = 2 \<or> k = 8 \<or> k = 3 then True
      else if k = 5 then (case el of None \<Rightarrow> False | Some e \<Rightarrow> rf_size e \<noteq> 0 \<and> (cnt = 0 \<or> storable e))
      else if k = 6 then
        (case fs of None \<Rightarrow> cnt = 0 | Some fl \<Rightarrow>
           (\<forall>x \<in> set (take cnt fl). case fst x of None \<Rightarrow> False | Some r \<Rightarrow> storable r))
      else if k = 7 then
        (case fs of None \<Rightarrow> cnt = 0 | Some fl \<Rightarrow>
           (case largest (take cnt fl) 0 None of None \<Rightarrow> True | Some (t, off) \<Rightarrow> storable t))
      else if k = 10 then (case el of None \<Rightarrow> False | Some e \<Rightarrow> storable e)
      else False)"
  by pat_completeness auto
termination
proof (relation "measure size")
  show "wf (measure (size :: reflect_t \<Rightarrow> nat))" by simp
next
  fix k sz cnt el fs x r and fl :: "(reflect_t option \<times> nat) list"
  assume "x \<in> set (take cnt fl)" "fst x = Some r" "fs = Some fl"
  then show "(r, Reflect k sz cnt el fs) \<in> measure size"
    using field_size [of r "snd x" fl k sz cnt el] in_set_takeD [of x cnt fl]
    by (metis in_measure prod.collapse)
qed (auto dest!: largest_mem in_set_takeD intro: field_size elem_size simp del: reflect_t.size)

function nbytes :: "reflect_t \<Rightarrow> nat" where
  "nbytes (Reflect k sz cnt el fs) =
     (if k = 2 \<or> k = 8 \<or> k = 3 then sz
      else if k = 5 then (case el of None \<Rightarrow> 0 | Some e \<Rightarrow> cnt * nbytes e)
      else if k = 6 then
        (case fs of None \<Rightarrow> 0 | Some fl \<Rightarrow>
           sum_list (map (\<lambda>x. case fst x of None \<Rightarrow> 0 | Some r \<Rightarrow> nbytes r) (take cnt fl)))
      else if k = 7 then
        (case fs of None \<Rightarrow> 0 | Some fl \<Rightarrow>
           (case largest (take cnt fl) 0 None of None \<Rightarrow> 0 | Some (t, off) \<Rightarrow> nbytes t))
      else if k = 10 then (case el of None \<Rightarrow> 0 | Some e \<Rightarrow> nbytes e)
      else 0)"
  by pat_completeness auto
termination
proof (relation "measure size")
  show "wf (measure (size :: reflect_t \<Rightarrow> nat))" by simp
next
  fix k sz cnt el fs x r and fl :: "(reflect_t option \<times> nat) list"
  assume "x \<in> set (take cnt fl)" "fst x = Some r" "fs = Some fl"
  then show "(r, Reflect k sz cnt el fs) \<in> measure size"
    using field_size [of r "snd x" fl k sz cnt el] in_set_takeD [of x cnt fl]
    by (metis in_measure prod.collapse)
qed (auto dest!: largest_mem in_set_takeD intro: field_size elem_size simp del: reflect_t.size)

declare cover.simps [simp del] storable.simps [simp del] nbytes.simps [simp del]


subsection \<open>Round trip\<close>

definition merge :: "nat set \<Rightarrow> u8 list \<Rightarrow> u8 list \<Rightarrow> u8 list" where
  "merge C mem mem0 = map (\<lambda>i. if i \<in> C then mem ! i else mem0 ! i) [0..<length mem0]"

lemma length_merge [simp]: "length (merge C mem mem0) = length mem0"
  by (simp add: merge_def)

lemma merge_empty [simp]: "merge {} mem mem0 = mem0"
  by (simp add: merge_def map_nth)

lemma merge_merge: "merge C' mem (merge C mem mem0) = merge (C \<union> C') mem mem0"
  by (rule nth_equalityI) (auto simp: merge_def)

lemma store_span_merge:
  assumes "p + n \<le> length mem" "length mem0 = length mem"
  shows "store_bytes p (span mem p (p + n)) mem0 = merge {p..<p + n} mem mem0"
proof (rule nth_equalityI)
  have len: "length (span mem p (p + n)) = n" using assms by (simp add: span_def)
  show "length (store_bytes p (span mem p (p + n)) mem0) = length (merge {p..<p + n} mem mem0)"
    using assms len by (simp add: store_bytes_def)
  fix i
  assume "i < length (store_bytes p (span mem p (p + n)) mem0)"
  then have i: "i < length mem0" using assms len by (simp add: store_bytes_def)
  consider "i < p" | "p \<le> i" "i < p + n" | "p + n \<le> i" by linarith
  then show "store_bytes p (span mem p (p + n)) mem0 ! i = merge {p..<p + n} mem mem0 ! i"
  proof cases
    case 1
    then show ?thesis using assms i by (simp add: store_bytes_def merge_def nth_append)
  next
    case 2
    then have "i - p < n" by linarith
    with 2 show ?thesis using assms i len by (simp add: store_bytes_def merge_def nth_append) (simp add: span_def)
  next
    case 3
    then have "\<not> i - p < n" by linarith
    with 3 show ?thesis using assms i len by (simp add: store_bytes_def merge_def nth_append)
  qed
qed

text \<open>A reading step inverts a writing step on the addresses \<open>C\<close>.\<close>

definition inverse_steps ::
  "u8 list \<Rightarrow> (wfile \<Rightarrow> int \<times> wfile) \<Rightarrow> (u8 list \<times> u8 list \<Rightarrow> int \<times> u8 list \<times> u8 list) \<Rightarrow> nat set \<Rightarrow> bool" where
  "inverse_steps mem W R C \<longleftrightarrow>
     (\<forall>f f'. W f = (0, f') \<longrightarrow>
        (\<exists>bs. wf_data f' = wf_data f @ bs \<and>
              (\<forall>mem0 rest. length mem0 = length mem \<longrightarrow> R (mem0, bs @ rest) = (0, merge C mem mem0, rest))))"

lemma inverse_stepsI:
  assumes "\<And>f f'. W f = (0, f') \<Longrightarrow>
    \<exists>bs. wf_data f' = wf_data f @ bs \<and>
      (\<forall>mem0 rest. length mem0 = length mem \<longrightarrow> R (mem0, bs @ rest) = (0, merge C mem mem0, rest))"
  shows "inverse_steps mem W R C"
  using assms by (simp add: inverse_steps_def)

lemma inverse_stepsE:
  assumes "inverse_steps mem W R C" "W f = (0, f')"
  obtains bs where "wf_data f' = wf_data f @ bs"
    "\<And>mem0 rest. length mem0 = length mem \<Longrightarrow> R (mem0, bs @ rest) = (0, merge C mem mem0, rest)"
  using assms unfolding inverse_steps_def by blast

lemma inverse_nop: "inverse_steps mem (\<lambda>f. (0, f)) (\<lambda>s. (0, s)) {}"
  by (rule inverse_stepsI) (auto intro: exI [of _ "[]"])

lemma inverse_fail: "inverse_steps mem (\<lambda>f. (-1, f)) R C"
  by (rule inverse_stepsI) auto

lemma inverse_seq:
  assumes "inverse_steps mem W R C" "inverse_steps mem W' R' C'"
  shows "inverse_steps mem (\<lambda>f. case W f of (rc, g) \<Rightarrow> if rc \<noteq> 0 then (-1, g) else W' g)
           (\<lambda>s. case R s of (rc, t) \<Rightarrow> if rc \<noteq> 0 then (-1, t) else R' t) (C \<union> C')"
proof (rule inverse_stepsI)
  fix f f'
  assume w: "(case W f of (rc, g) \<Rightarrow> if rc \<noteq> 0 then (-1, g) else W' g) = (0, f')"
  then obtain g where g: "W f = (0, g)" "W' g = (0, f')"
    by (auto split: prod.splits if_splits)
  obtain bs where bs: "wf_data g = wf_data f @ bs"
    "\<And>mem0 rest. length mem0 = length mem \<Longrightarrow> R (mem0, bs @ rest) = (0, merge C mem mem0, rest)"
    using inverse_stepsE [OF assms(1) g(1)] by blast
  obtain bs' where bs': "wf_data f' = wf_data g @ bs'"
    "\<And>mem0 rest. length mem0 = length mem \<Longrightarrow> R' (mem0, bs' @ rest) = (0, merge C' mem mem0, rest)"
    using inverse_stepsE [OF assms(2) g(2)] by blast
  show "\<exists>bs. wf_data f' = wf_data f @ bs \<and>
      (\<forall>mem0 rest. length mem0 = length mem \<longrightarrow>
         (case R (mem0, bs @ rest) of (rc, t) \<Rightarrow> if rc \<noteq> 0 then (-1, t) else R' t)
           = (0, merge (C \<union> C') mem mem0, rest))"
    by (intro exI [of _ "bs @ bs'"] conjI allI impI) (simp_all add: bs bs' merge_merge)
qed

lemma inverse_loop_from:
  assumes "\<And>j. i \<le> j \<Longrightarrow> j < i + n \<Longrightarrow> inverse_steps mem (W j) (R j) (C j)"
  shows "inverse_steps mem (loop_from W i n) (loop_from R i n) (\<Union>j \<in> {i..<i + n}. C j)"
  using assms
proof (induction n arbitrary: i)
  case 0
  then show ?case using inverse_nop by simp
next
  case (Suc n)
  have "{i..<i + Suc n} = insert i {Suc i..<Suc i + n}" by auto
  then have u: "(\<Union>j \<in> {i..<i + Suc n}. C j) = C i \<union> (\<Union>j \<in> {Suc i..<Suc i + n}. C j)" by simp
  have "inverse_steps mem (loop_from W (Suc i) n) (loop_from R (Suc i) n) (\<Union>j \<in> {Suc i..<Suc i + n}. C j)"
    by (rule Suc.IH) (simp add: Suc.prems)
  from inverse_seq [OF Suc.prems [of i] this] show ?case unfolding u by simp
qed

lemma inverse_loop_list:
  assumes "\<And>x. x \<in> set xs \<Longrightarrow> inverse_steps mem (W x) (R x) (C x)"
  shows "inverse_steps mem (loop_list W xs) (loop_list R xs) (\<Union>x \<in> set xs. C x)"
  using assms
proof (induction xs)
  case Nil
  then show ?case using inverse_nop by simp
next
  case (Cons x xs)
  from inverse_seq [OF Cons.prems [of x] Cons.IH] Cons.prems show ?case by simp
qed

lemma length_span_cover:
  assumes "{p..<p + n} \<subseteq> {..<length mem}"
  shows "length (span mem p (p + n)) = n"
proof (cases "n = 0")
  case False
  then have "p + (n - 1) \<in> {p..<p + n}" by simp
  with assms have "p + (n - 1) < length mem" by blast
  with False show ?thesis by (simp add: span_def)
qed simp

lemma inverse_scalar:
  assumes "{p..<p + n} \<subseteq> {..<length mem}"
  shows "inverse_steps mem (\<lambda>f. sm_write_scalar le malloc f (span mem p (p + n)))
           (\<lambda>(m, f). sm_read_scalar le f m p n) {p..<p + n}"
proof (cases "n = 0")
  case True
  have "inverse_steps mem (\<lambda>f. (0, f)) (\<lambda>(m, f). (0, m, f)) {}"
    using inverse_nop by (simp add: case_prod_unfold)
  moreover have "(\<lambda>(m, f). sm_read_scalar le f m p n) = (\<lambda>(m, f). (0, m, f))"
    using True by (auto simp: sm_read_scalar_def sm_read_raw_def)
  moreover have "(\<lambda>f. sm_write_scalar le malloc f (span mem p (p + n))) = (\<lambda>f. (0, f))"
    using True by (auto simp: sm_write_scalar_def)
  ultimately show ?thesis using True by simp
next
  case False
  let ?s = "span mem p (p + n)"
  have len: "length ?s = n" by (rule length_span_cover [OF assms])
  then have bound: "p + n \<le> length mem" using False by (auto simp: span_def)
  let ?bs = "if n = 1 \<or> le then ?s else rev ?s"
  have ne: "?s \<noteq> []" using False len by auto
  show ?thesis
  proof (rule inverse_stepsI)
    fix f f'
    assume "sm_write_scalar le malloc f ?s = (0, f')"
    then have "wf_data f' = wf_data f @ ?bs"
      using len ne by (auto simp: sm_write_scalar_def sm_write_raw_def sm_swap_bytes_rev split: if_splits)
    moreover have "sm_read_scalar le (?bs @ rest) mem0 p n = (0, merge {p..<p + n} mem mem0, rest)"
      if l: "length mem0 = length mem" for mem0 rest
    proof -
      have back_id: "store_bytes p (rev (span (store_bytes p (rev ?s) mem0) p (p + n))) (store_bytes p (rev ?s) mem0)
          = store_bytes p ?s mem0"
        using len bound l by (simp add: store_bytes_def span_def)
      show ?thesis
        using False len back_id store_span_merge [OF bound l]
        by (auto simp: sm_read_scalar_def sm_read_raw_def sm_swap_bytes_rev)
    qed
    ultimately show "\<exists>bs. wf_data f' = wf_data f @ bs \<and>
        (\<forall>mem0 rest. length mem0 = length mem \<longrightarrow>
           (case (mem0, bs @ rest) of (m, f) \<Rightarrow> sm_read_scalar le f m p n) = (0, merge {p..<p + n} mem mem0, rest))"
      by auto
  qed
qed

text \<open>Induction along the types a value of the type reaches, with the addresses they are at.\<close>

lemma reflect_induct [case_names scalar arr str uni tdef other]:
  assumes scalar: "\<And>p k sz cnt el fs. k = 2 \<or> k = 8 \<or> k = 3 \<Longrightarrow> P p (Reflect k sz cnt el fs)"
    and arr: "\<And>p sz cnt el fs. (\<And>e i. el = Some e \<Longrightarrow> P (p + i * rf_size e) e) \<Longrightarrow> P p (Reflect 5 sz cnt el fs)"
    and str: "\<And>p sz cnt el fs. (\<And>fl u off. fs = Some fl \<Longrightarrow> (Some u, off) \<in> set (take cnt fl) \<Longrightarrow> P (p + off) u)
                \<Longrightarrow> P p (Reflect 6 sz cnt el fs)"
    and uni: "\<And>p sz cnt el fs. (\<And>fl u off. fs = Some fl \<Longrightarrow> largest (take cnt fl) 0 None = Some (u, off) \<Longrightarrow> P (p + off) u)
                \<Longrightarrow> P p (Reflect 7 sz cnt el fs)"
    and tdef: "\<And>p sz cnt el fs. (\<And>e. el = Some e \<Longrightarrow> P p e) \<Longrightarrow> P p (Reflect 10 sz cnt el fs)"
    and other: "\<And>p k sz cnt el fs. k \<notin> {2, 8, 3, 5, 6, 7, 10} \<Longrightarrow> P p (Reflect k sz cnt el fs)"
  shows "P p r"
proof (induction r arbitrary: p rule: measure_induct_rule [of size])
  case (less r)
  obtain k sz cnt el fs where r: "r = Reflect k sz cnt el fs" by (cases r)
  have elem: "P q e" if "el = Some e" for q e
    by (rule less) (simp add: r that)
  have field: "P q u" if "fs = Some fl" "(Some u, off) \<in> set (take cnt fl)" for q u fl off
    by (rule less, unfold r that(1)) (rule field_size, rule in_set_takeD, rule that(2))
  consider "k = 2 \<or> k = 8 \<or> k = 3" | "k = 5" | "k = 6" | "k = 7" | "k = 10" | "k \<notin> {2, 8, 3, 5, 6, 7, 10}" by auto
  then show ?case
  proof cases
    case 4
    show ?thesis unfolding r 4
      by (rule uni) (use field largest_mem in blast)
  qed (auto simp: r intro: scalar arr str tdef other elem field)
qed

lemma inverse_array:
  assumes "\<And>e i. el = Some e \<Longrightarrow> i < cnt \<Longrightarrow>
      inverse_steps mem (sm_write_value le malloc mem (p + i * rf_size e) e)
        (sm_read_value le (p + i * rf_size e) e) (cover (p + i * rf_size e) e)"
    and r_def: "r = Reflect 5 sz cnt el fs"
  shows "inverse_steps mem (sm_write_value le malloc mem p r) (sm_read_value le p r) (cover p r)"
proof (cases "\<exists>e. el = Some e \<and> rf_size e \<noteq> 0")
  case True
  then obtain e where e: "el = Some e" "rf_size e \<noteq> 0" by blast
  have w: "sm_write_value le malloc mem p r = loop_from (\<lambda>i. sm_write_value le malloc mem (p + i * rf_size e) e) 0 cnt"
    and rd: "sm_read_value le p r = loop_from (\<lambda>i. sm_read_value le (p + i * rf_size e) e) 0 cnt"
    and c: "cover p r = (\<Union>i \<in> {0..<0 + cnt}. cover (p + i * rf_size e) e)"
    using e by (auto simp: r_def sm_write_value.simps sm_read_value.simps cover.simps)
  show ?thesis unfolding w rd c by (rule inverse_loop_from) (rule assms(1) [OF e(1)], simp)
next
  case False
  then have "sm_write_value le malloc mem p r = (\<lambda>f. (-1, f))"
    by (auto simp: r_def sm_write_value.simps split: option.splits)
  then show ?thesis by (simp add: inverse_fail)
qed

lemma inverse_missing_fields:
  assumes "k = 6 \<or> k = 7"
    and r_def: "r = Reflect k sz cnt el None"
  shows "inverse_steps mem (sm_write_value le malloc mem p r) (sm_read_value le p r) (cover p r)"
proof -
  have w: "sm_write_value le malloc mem p r = (\<lambda>f. (if cnt = 0 then 0 else -1, f))"
    and rd: "sm_read_value le p r = (\<lambda>s. (if cnt = 0 then 0 else -1, s))"
    and c: "cover p r = {}"
    using assms(1) by (auto simp: r_def sm_write_value.simps sm_read_value.simps cover.simps)
  show ?thesis unfolding w rd c using inverse_nop inverse_fail by (cases "cnt = 0") auto
qed

lemma inverse_struct:
  assumes "\<And>u off. (Some u, off) \<in> set (take cnt fl) \<Longrightarrow>
      inverse_steps mem (sm_write_value le malloc mem (p + off) u) (sm_read_value le (p + off) u) (cover (p + off) u)"
    and r_def: "r = Reflect 6 sz cnt el (Some fl)"
  shows "inverse_steps mem (sm_write_value le malloc mem p r) (sm_read_value le p r) (cover p r)"
proof -
  let ?W = "\<lambda>(t, off) s. case t of None \<Rightarrow> (-1, s) | Some r \<Rightarrow> sm_write_value le malloc mem (p + off) r s"
  let ?R = "\<lambda>(t, off) s. case t of None \<Rightarrow> (-1, s) | Some r \<Rightarrow> sm_read_value le (p + off) r s"
  let ?C = "\<lambda>(t, off). case t of None \<Rightarrow> {} | Some r \<Rightarrow> cover (p + off) r"
  have w: "sm_write_value le malloc mem p r = loop_list ?W (take cnt fl)"
    and rd: "sm_read_value le p r = loop_list ?R (take cnt fl)"
    and c: "cover p r = (\<Union>x \<in> set (take cnt fl). ?C x)"
    by (auto simp: r_def sm_write_value.simps sm_read_value.simps cover.simps)
  have "inverse_steps mem (?W x) (?R x) (?C x)" if x: "x \<in> set (take cnt fl)" for x
  proof (cases x)
    case (Pair t off)
    show ?thesis
    proof (cases t)
      case (Some u)
      with x Pair show ?thesis using assms(1) [of u off] by simp
    qed (simp add: Pair inverse_fail)
  qed
  then show ?thesis unfolding w rd c by (rule inverse_loop_list)
qed

lemma inverse_value:
  assumes "cover p r \<subseteq> {..<length mem}"
  shows "inverse_steps mem (sm_write_value le malloc mem p r) (sm_read_value le p r) (cover p r)"
  using assms
proof (induction p r rule: reflect_induct)
  case (scalar p k sz cnt el fs)
  let ?r = "Reflect k sz cnt el fs"
  have w: "sm_write_value le malloc mem p ?r = (\<lambda>f. sm_write_scalar le malloc f (span mem p (p + sz)))"
    and rd: "sm_read_value le p ?r = (\<lambda>(m, f). sm_read_scalar le f m p sz)"
    and c: "cover p ?r = {p..<p + sz}"
    using scalar(1) by (auto simp: sm_write_value.simps sm_read_value.simps cover.simps)
  show ?case unfolding w rd c by (rule inverse_scalar) (use scalar(2) in \<open>simp add: c\<close>)
next
  case (arr p sz cnt el fs)
  show ?case
  proof (rule inverse_array [OF _ refl])
    fix e i
    assume e: "el = Some e" "i < cnt"
    then have "cover (p + i * rf_size e) e \<subseteq> cover p (Reflect 5 sz cnt el fs)"
      by (auto simp: cover.simps [of p])
    with arr e show "inverse_steps mem (sm_write_value le malloc mem (p + i * rf_size e) e)
        (sm_read_value le (p + i * rf_size e) e) (cover (p + i * rf_size e) e)" by blast
  qed
next
  case (str p sz cnt el fs)
  show ?case
  proof (cases fs)
    case (Some fl)
    show ?thesis unfolding Some
    proof (rule inverse_struct [OF _ refl])
      fix u off
      assume u: "(Some u, off) \<in> set (take cnt fl)"
      then have "cover (p + off) u \<subseteq> cover p (Reflect 6 sz cnt el fs)"
        by (force simp: cover.simps [of p] Some)
      with str u Some
      show "inverse_steps mem (sm_write_value le malloc mem (p + off) u) (sm_read_value le (p + off) u) (cover (p + off) u)"
        by blast
    qed
  qed (simp add: inverse_missing_fields [OF _ refl])
next
  case (uni p sz cnt el fs)
  show ?case
  proof (cases fs)
    case (Some fl)
    let ?r = "Reflect 7 sz cnt el fs"
    show ?thesis
    proof (cases "largest (take cnt fl) 0 None")
      case None
      then have w: "sm_write_value le malloc mem p ?r = (\<lambda>f. (0, f))"
        and rd: "sm_read_value le p ?r = (\<lambda>s. (0, s))" and c: "cover p ?r = {}"
        using Some by (auto simp: sm_write_value.simps sm_read_value.simps cover.simps)
      show ?thesis unfolding w rd c by (rule inverse_nop)
    next
      case l: (Some x)
      obtain t off where x: "x = (t, off)" by (cases x)
      have w: "sm_write_value le malloc mem p ?r = sm_write_value le malloc mem (p + off) t"
        and rd: "sm_read_value le p ?r = sm_read_value le (p + off) t" and c: "cover p ?r = cover (p + off) t"
        using Some l x by (auto simp: sm_write_value.simps sm_read_value.simps cover.simps)
      show ?thesis unfolding w rd c by (rule uni(1) [OF Some]) (use l x uni(2) c in auto)
    qed
  qed (simp add: inverse_missing_fields [OF _ refl])
next
  case (tdef p sz cnt el fs)
  let ?r = "Reflect 10 sz cnt el fs"
  show ?case
  proof (cases el)
    case None
    then have "sm_write_value le malloc mem p ?r = (\<lambda>f. (-1, f))" by (auto simp: sm_write_value.simps)
    then show ?thesis by (simp add: inverse_fail)
  next
    case (Some e)
    then have w: "sm_write_value le malloc mem p ?r = sm_write_value le malloc mem p e"
      and rd: "sm_read_value le p ?r = sm_read_value le p e" and c: "cover p ?r = cover p e"
      by (auto simp: sm_write_value.simps sm_read_value.simps cover.simps)
    show ?thesis unfolding w rd c by (rule tdef(1) [OF Some]) (use tdef(2) c in simp)
  qed
next
  case (other p k sz cnt el fs)
  then have "sm_write_value le malloc mem p (Reflect k sz cnt el fs) = (\<lambda>f. (-1, f))"
    by (auto simp: sm_write_value.simps)
  then show ?case by (simp add: inverse_fail)
qed

subsection \<open>Success and failure of writing\<close>

lemma loop_from_fails:
  assumes "n \<noteq> 0" "\<And>f. fst (W i f) \<noteq> 0"
  shows "fst (loop_from W i n f) = -1"
  using assms by (cases n) (auto split: prod.splits dest!: meta_spec [where x = f])

lemma loop_list_fails:
  assumes "x \<in> set xs" "\<And>f. fst (W x f) \<noteq> 0"
  shows "fst (loop_list W xs f) = -1"
  using assms
proof (induction xs arbitrary: f)
  case (Cons y ys)
  show ?case
  proof (cases "W y f")
    case (Pair rc g)
    with Cons show ?thesis by (cases "x = y") (auto dest: meta_spec [where x = f])
  qed
qed simp

lemma write_not_storable:
  assumes "\<not> storable r"
  shows "fst (sm_write_value le malloc mem p r f) = -1"
  using assms
proof (induction p r arbitrary: f rule: reflect_induct)
  case (arr p sz cnt el fs)
  show ?case
  proof (cases "\<exists>e. el = Some e \<and> rf_size e \<noteq> 0")
    case True
    then obtain e where e: "el = Some e" "rf_size e \<noteq> 0" by blast
    with arr.prems have ns: "cnt \<noteq> 0" "\<not> storable e" by (auto simp: storable.simps)
    have "fst (sm_write_value le malloc mem (p + 0 * rf_size e) e g) = -1" for g by (rule arr.IH [OF e(1) ns(2)])
    then show ?thesis
      using e ns(1) by (simp add: sm_write_value.simps loop_from_fails)
  qed (auto simp: sm_write_value.simps split: option.splits)
next
  case (str p sz cnt el fs)
  show ?case
  proof (cases fs)
    case None
    with str.prems show ?thesis by (auto simp: storable.simps sm_write_value.simps)
  next
    case (Some fl)
    with str.prems obtain t off where x: "(t, off) \<in> set (take cnt fl)" "case t of None \<Rightarrow> True | Some u \<Rightarrow> \<not> storable u"
      by (auto simp: storable.simps split: option.splits)
    let ?W = "\<lambda>(t, off) s. case t of None \<Rightarrow> (-1, s) | Some r \<Rightarrow> sm_write_value le malloc mem (p + off) r s"
    have "fst (?W (t, off) s) \<noteq> 0" for s
      using x str.IH [OF Some, of "the t" off s] by (cases t) auto
    from loop_list_fails [of "(t, off)" "take cnt fl" ?W f, OF x(1) this] show ?thesis by (simp add: sm_write_value.simps Some)
  qed
next
  case (uni p sz cnt el fs)
  then show ?case
    by (cases "cnt = 0") (auto simp: storable.simps sm_write_value.simps split: option.splits prod.splits)
next
  case (tdef p sz cnt el fs)
  then show ?case by (auto simp: storable.simps sm_write_value.simps split: option.splits)
qed (auto simp: storable.simps sm_write_value.simps)

lemma loop_from_room:
  fixes f :: wfile
  assumes "\<And>j f :: wfile. i \<le> j \<Longrightarrow> j < i + n \<Longrightarrow> b \<le> wf_room f \<Longrightarrow> \<exists>f'. W j f = (0, f' :: wfile) \<and> wf_room f' = wf_room f - b"
    "n * b \<le> wf_room f"
  shows "\<exists>f'. loop_from W i n f = (0, f') \<and> wf_room f' = wf_room f - n * b"
  using assms
proof (induction n arbitrary: i f)
  case (Suc n)
  from Suc.prems(2) have "b \<le> wf_room f" by simp
  then obtain g where g: "W i f = (0, g)" "wf_room g = wf_room f - b" using Suc.prems(1) [of i f] by auto
  with Suc.prems have "n * b \<le> wf_room g" by simp
  from Suc.IH [OF Suc.prems(1) this, of "Suc i"] g show ?case by auto
qed simp

lemma loop_list_room:
  fixes f :: wfile
  assumes "\<And>x f :: wfile. x \<in> set xs \<Longrightarrow> b x \<le> wf_room f \<Longrightarrow> \<exists>f'. W x f = (0, f') \<and> wf_room f' = wf_room f - b x"
    "sum_list (map b xs) \<le> wf_room f"
  shows "\<exists>f'. loop_list W xs f = (0, f') \<and> wf_room f' = wf_room f - sum_list (map b xs)"
  using assms
proof (induction xs arbitrary: f)
  case (Cons x xs)
  from Cons.prems(2) have "b x \<le> wf_room f" by simp
  then obtain g where g: "W x f = (0, g)" "wf_room g = wf_room f - b x" using Cons.prems(1) [of x f] by auto
  with Cons.prems(2) have "sum_list (map b xs) \<le> wf_room g" by simp
  from Cons.IH [OF Cons.prems(1) this] g show ?case by auto
qed simp

lemma write_storable:
  assumes "storable r" "\<And>n. malloc n" "cover p r \<subseteq> {..<length mem}" "nbytes r \<le> wf_room f"
  shows "\<exists>f'. sm_write_value le malloc mem p r f = (0, f') \<and> wf_room f' = wf_room f - nbytes r"
  using assms(1,3,4)
proof (induction p r arbitrary: f rule: reflect_induct)
  case (scalar p k sz cnt el fs)
  then have "{p..<p + sz} \<subseteq> {..<length mem}" "sz \<le> wf_room f" by (auto simp: cover.simps nbytes.simps)
  then have "length (span mem p (p + sz)) = sz" using length_span_cover by blast
  with scalar(1) \<open>sz \<le> wf_room f\<close> assms(2) show ?case
    by (auto simp: sm_write_value.simps nbytes.simps sm_write_scalar_def sm_write_raw_def sm_swap_bytes_rev)
next
  case (arr p sz cnt el fs)
  then obtain e where e: "el = Some e" "rf_size e \<noteq> 0" "cnt = 0 \<or> storable e"
    by (auto simp: storable.simps split: option.splits)
  have "\<exists>f'. loop_from (\<lambda>i. sm_write_value le malloc mem (p + i * rf_size e) e) 0 cnt f = (0, f') \<and>
          wf_room f' = wf_room f - cnt * nbytes e"
  proof (rule loop_from_room)
    fix j and g :: wfile
    assume j: "j < 0 + cnt" "nbytes e \<le> wf_room g"
    with arr.prems(2) have "cover (p + j * rf_size e) e \<subseteq> {..<length mem}"
      by (auto simp: cover.simps [of p] e)
    with arr.IH [OF e(1)] e(3) j
    show "\<exists>f'. sm_write_value le malloc mem (p + j * rf_size e) e g = (0, f') \<and> wf_room f' = wf_room g - nbytes e"
      by auto
  qed (use arr.prems(3) in \<open>simp add: nbytes.simps e\<close>)
  then show ?case by (simp add: sm_write_value.simps nbytes.simps e)
next
  case (str p sz cnt el fs)
  show ?case
  proof (cases fs)
    case None
    with str.prems show ?thesis by (auto simp: storable.simps sm_write_value.simps nbytes.simps)
  next
    case (Some fl)
    let ?W = "\<lambda>(t, off) s. case t of None \<Rightarrow> (-1, s) | Some r \<Rightarrow> sm_write_value le malloc mem (p + off) r s"
    let ?b = "\<lambda>x. case fst x of None \<Rightarrow> 0 | Some r \<Rightarrow> nbytes r"
    have "\<exists>f'. loop_list ?W (take cnt fl) f = (0, f') \<and> wf_room f' = wf_room f - sum_list (map ?b (take cnt fl))"
    proof (rule loop_list_room)
      fix x and g :: wfile
      assume x: "x \<in> set (take cnt fl)" "?b x \<le> wf_room g"
      with str.prems(1) obtain u off where u: "x = (Some u, off)" "storable u"
        by (cases x) (auto simp: storable.simps Some split: option.splits)
      with str.prems(2) x have "cover (p + off) u \<subseteq> {..<length mem}"
        by (force simp: cover.simps [of p] Some)
      with str.IH [OF Some, of u off g] x u show "\<exists>f'. ?W x g = (0, f') \<and> wf_room f' = wf_room g - ?b x" by simp
    qed (use str.prems(3) in \<open>simp add: nbytes.simps Some\<close>)
    then show ?thesis by (simp add: sm_write_value.simps nbytes.simps Some)
  qed
next
  case (uni p sz cnt el fs)
  then show ?case
    by (auto simp: storable.simps sm_write_value.simps cover.simps nbytes.simps split: option.splits prod.splits)
next
  case (tdef p sz cnt el fs)
  then show ?case by (auto simp: storable.simps sm_write_value.simps cover.simps nbytes.simps split: option.splits)
qed (auto simp: storable.simps sm_write_value.simps)

text \<open>
  C6. What \<open>sm_save_r\<close> wrote, \<open>sm_load_r\<close> reads back on a machine of the same byte order: exactly the bytes
  of the value, and nothing else of the target memory or of the rest of the file, changes.
\<close>

theorem save_load:
  assumes "sm_save_r le malloc mem (Some w) (Some p) (Some r) = (0, Some w')"
    "cover p r \<subseteq> {..<length mem}"
  shows "\<exists>bs. wf_data w' = wf_data w @ bs \<and>
      (\<forall>mem0 rest. length mem0 = length mem \<longrightarrow>
         sm_load_r le mem0 (Some (bs @ rest)) (Some p) (Some r) = (0, merge (cover p r) mem mem0, Some rest))"
proof -
  have "sm_write_value le malloc mem p r w = (0, w')"
    using assms(1) by (auto simp: sm_save_r_def split: prod.splits)
  then obtain bs where "wf_data w' = wf_data w @ bs"
    "\<And>mem0 rest. length mem0 = length mem \<Longrightarrow> sm_read_value le p r (mem0, bs @ rest) = (0, merge (cover p r) mem mem0, rest)"
    using inverse_stepsE [OF inverse_value [OF assms(2)]] by metis
  then show ?thesis by (intro exI [of _ bs]) (simp add: sm_load_r_def)
qed

theorem save_load_witness:
  "sm_load_r True [0, 0] (Some ([7] @ [8])) (Some 1) (Some (Reflect 2 1 0 None None))
     = (0, merge {1} [5, 7] [0, 0], Some [8])"
proof -
  let ?r = "Reflect 2 1 0 None None"
  have s: "sm_save_r True (\<lambda>n. True) [5, 7] (Some \<lparr>wf_data = [], wf_room = 9\<rparr>) (Some 1) (Some ?r)
      = (0, Some \<lparr>wf_data = [7], wf_room = 8\<rparr>)"
    by (simp add: sm_save_r_def sm_write_value.simps sm_write_scalar_def sm_write_raw_def span_def)
  have c: "cover 1 ?r = {1}" by (auto simp: cover.simps)
  then have "cover 1 ?r \<subseteq> {..<length [5, 7 :: u8]}" by simp
  from save_load [OF s this] c show ?thesis by simp
qed

text \<open>
  With memory and room on the medium, saving succeeds exactly for the storable types: no
  pointers, functions or \<^verbatim>\<open>void\<close> anywhere in the value.
\<close>

theorem save_succeeds_iff:
  assumes "\<forall>n. malloc n" "cover p r \<subseteq> {..<length mem}" "nbytes r \<le> wf_room f"
  shows "fst (sm_write_value le malloc mem p r f) = 0 \<longleftrightarrow> storable r"
proof (cases "storable r")
  case True
  with write_storable [of r malloc p mem f le] assms show ?thesis by auto
qed (simp add: write_not_storable)

theorem save_succeeds_iff_witness:
  "fst (sm_write_value True (\<lambda>n. True) [5, 7] 1 (Reflect 2 1 0 None None) \<lparr>wf_data = [], wf_room = 9\<rparr>) = 0
   \<and> fst (sm_write_value True (\<lambda>n. True) [5, 7] 0 (Reflect 4 8 0 None None) \<lparr>wf_data = [], wf_room = 9\<rparr>) \<noteq> 0"
  using save_succeeds_iff [of "\<lambda>n. True" 1 "Reflect 2 1 0 None None" "[5, 7]" "\<lparr>wf_data = [], wf_room = 9\<rparr>" True]
    save_succeeds_iff [of "\<lambda>n. True" 0 "Reflect 4 8 0 None None" "[5, 7]" "\<lparr>wf_data = [], wf_room = 9\<rparr>" True]
  by (simp add: cover.simps storable.simps nbytes.simps)

text \<open>
  A big-endian and a little-endian machine write the same bytes for the same scalar value.
\<close>

theorem scalar_portable:
  "sm_write_scalar False (\<lambda>n. True) f (rev bs) = sm_write_scalar True malloc f bs"
  by (cases bs rule: rev_cases) (auto simp: sm_write_scalar_def sm_swap_bytes_rev sm_write_raw_def)

end
