(* ===== verification/Operators.thy ===== *)
theory Operators
  imports Token_Stream
begin

text \<open>
  User-defined operators (\<^verbatim>\<open>_Operator\<close>): the operator table and the registry of c-decl.cc, the
  definition parser \<^verbatim>\<open>c_parser_operator_definition\<close> of c-parser.cc and the expression rewriter of
  c-typeck.cc.  A type is a node with its code, the identity of its main variant, its name, whether
  it is complete and, for a function or pointer, what it returns or points to.  An operand of an
  expression is opaque: a tree code, an identity and a type; the nodes the rewriter builds around
  operands are constructors.  What the rewriter and the parser call in GCC proper (\<^verbatim>\<open>comptypes\<close>,
  \<^verbatim>\<open>build_modify_expr\<close> for a copy, \<^verbatim>\<open>c_parser_type_name\<close>, building a function) is a parameter.
\<close>

subsection \<open>The operator table\<close>

record czet_operator_def =
  od_op :: string
  od_mangle :: string
  od_unary :: bool
  od_mutate :: bool
  od_bin :: "string option"

definition opdef :: "string \<Rightarrow> string \<Rightarrow> bool \<Rightarrow> bool \<Rightarrow> string option \<Rightarrow> czet_operator_def" where
  "opdef op mangle unary mutate bin =
     \<lparr>od_op = op, od_mangle = mangle, od_unary = unary, od_mutate = mutate, od_bin = bin\<rparr>"

definition czet_operator_defs :: "czet_operator_def list" where
  "czet_operator_defs =
     [opdef ''+'' ''plus'' False False None,
      opdef ''-'' ''minus'' False False None,
      opdef ''*'' ''mul'' False False None,
      opdef ''/'' ''div'' False False None,
      opdef ''%'' ''mod'' False False None,
      opdef ''=='' ''eq'' False False None,
      opdef ''!='' ''ne'' False False None,
      opdef ''<'' ''lt'' False False None,
      opdef ''>'' ''gt'' False False None,
      opdef ''<='' ''le'' False False None,
      opdef ''>='' ''ge'' False False None,
      opdef ''&'' ''bitand'' False False None,
      opdef ''|'' ''bitor'' False False None,
      opdef ''^'' ''xor'' False False None,
      opdef ''<<'' ''lshift'' False False None,
      opdef ''>>'' ''rshift'' False False None,
      opdef ''+='' ''plus_assign'' False False (Some ''+''),
      opdef ''-='' ''minus_assign'' False False (Some ''-''),
      opdef ''*='' ''mul_assign'' False False (Some ''*''),
      opdef ''/='' ''div_assign'' False False (Some ''/''),
      opdef ''%='' ''mod_assign'' False False (Some ''%''),
      opdef ''&='' ''bitand_assign'' False False (Some ''&''),
      opdef ''|='' ''bitor_assign'' False False (Some ''|''),
      opdef ''^='' ''xor_assign'' False False (Some ''^''),
      opdef ''<<='' ''lshift_assign'' False False (Some ''<<''),
      opdef ''>>='' ''rshift_assign'' False False (Some ''>>''),
      opdef ''-'' ''uminus'' True False None,
      opdef ''!'' ''lnot'' True False None,
      opdef ''~'' ''bitnot'' True False None,
      opdef ''++'' ''pp'' True True None,
      opdef ''--'' ''mm'' True True None,
      opdef ''='' ''assign'' False True None]"

text \<open>The loops over the table return at the first entry that fits.\<close>

definition find_op :: "string \<Rightarrow> czet_operator_def option" where
  "find_op op = find (\<lambda>d. od_op d = op) czet_operator_defs"

definition czet_operator_is_unary :: "string \<Rightarrow> bool" where
  "czet_operator_is_unary op = (case find_op op of None \<Rightarrow> False | Some d \<Rightarrow> od_unary d)"

definition czet_operator_is_unary_mutating :: "string \<Rightarrow> bool" where
  "czet_operator_is_unary_mutating op = (case find_op op of None \<Rightarrow> False | Some d \<Rightarrow> od_mutate d)"

definition czet_operator_is_assign :: "string \<Rightarrow> bool" where
  "czet_operator_is_assign op \<longleftrightarrow> op = ''=''"

definition czet_operator_bin_for_assign :: "string \<Rightarrow> string option" where
  "czet_operator_bin_for_assign op =
     (case find (\<lambda>d. od_op d = op \<and> od_bin d \<noteq> None) czet_operator_defs of
        None \<Rightarrow> None | Some d \<Rightarrow> od_bin d)"

definition czet_operator_mangle_suffix :: "string \<Rightarrow> bool \<Rightarrow> string" where
  "czet_operator_mangle_suffix op is_unary =
     (case find_op op of
        None \<Rightarrow> op
      | Some d \<Rightarrow> if is_unary \<and> od_op d = ''-'' then ''uminus'' else od_mangle d)"

subsection \<open>Types and the registry\<close>

datatype type_code =
    RECORD_TYPE | UNION_TYPE | ENUMERAL_TYPE | VOID_TYPE | POINTER_TYPE | REFERENCE_TYPE
  | FUNCTION_TYPE | ERROR_TYPE | TYPE_rest nat

datatype type_name = No_name | Ident_name string | Decl_name "string option"

datatype type_node = Type (tn_code: type_code) (tn_self: nat) (tn_main: nat) (tn_name: type_name)
  (tn_complete: bool) (tn_of: "type_node option")

record fndecl =
  fd_uid :: nat
  fd_type :: type_node

type_synonym operator_map = "nat \<rightharpoonup> (string \<rightharpoonup> fndecl)"

text \<open>\<^verbatim>\<open>snprintf (buf, 256, ...)\<close> keeps 255 characters.\<close>

definition czet_operator_mangled_name :: "type_node \<Rightarrow> string \<Rightarrow> string" where
  "czet_operator_mangled_name type op_suffix =
     (let tn = (case tn_name type of
                  Ident_name s \<Rightarrow> s | Decl_name (Some s) \<Rightarrow> s | Decl_name None \<Rightarrow> ''t'' | No_name \<Rightarrow> ''t'')
      in take 255 (''__operator__'' @ tn @ ''__'' @ op_suffix))"

definition czet_register_operator :: "operator_map \<Rightarrow> nat \<Rightarrow> string \<Rightarrow> fndecl \<Rightarrow> operator_map" where
  "czet_register_operator m type op_suffix fd =
     (case m type of
        None \<Rightarrow> m(type \<mapsto> [op_suffix \<mapsto> fd])
      | Some ops \<Rightarrow> m(type \<mapsto> ops(op_suffix \<mapsto> fd)))"

definition czet_lookup_operator :: "operator_map \<Rightarrow> nat \<Rightarrow> string \<Rightarrow> fndecl option" where
  "czet_lookup_operator m type op_suffix =
     (case m type of None \<Rightarrow> None | Some ops \<Rightarrow> ops op_suffix)"

subsection \<open>Expressions\<close>

datatype tree_code =
    PLUS_EXPR | MINUS_EXPR | MULT_EXPR | TRUNC_DIV_EXPR | EXACT_DIV_EXPR | RDIV_EXPR
  | TRUNC_MOD_EXPR | EQ_EXPR | NE_EXPR | LT_EXPR | GT_EXPR | LE_EXPR | GE_EXPR
  | BIT_AND_EXPR | BIT_IOR_EXPR | BIT_XOR_EXPR | LSHIFT_EXPR | RSHIFT_EXPR
  | NEGATE_EXPR | TRUTH_NOT_EXPR | BIT_NOT_EXPR
  | PREINCREMENT_EXPR | POSTINCREMENT_EXPR | PREDECREMENT_EXPR | POSTDECREMENT_EXPR
  | NOP_EXPR | ADDR_EXPR | CALL_EXPR | COMPOUND_EXPR | MODIFY_EXPR
  | VAR_DECL | PARM_DECL | RESULT_DECL | FUNCTION_DECL | COMPONENT_REF | INDIRECT_REF
  | ARRAY_REF | ARRAY_RANGE_REF | BIT_FIELD_REF | MEM_REF | STRING_CST | ERROR_MARK
  | CODE_rest nat

datatype texpr =
    T_error
  | T_operand tree_code nat type_node
  | T_tmp nat type_node
  | T_modify texpr texpr
  | T_compound texpr texpr type_node
  | T_addr texpr
  | T_call fndecl "texpr list"
  | T_deref texpr

fun TREE_CODE :: "texpr \<Rightarrow> tree_code" where
  "TREE_CODE T_error = ERROR_MARK"
| "TREE_CODE (T_operand c n t) = c"
| "TREE_CODE (T_tmp k t) = VAR_DECL"
| "TREE_CODE (T_modify a b) = MODIFY_EXPR"
| "TREE_CODE (T_compound a b t) = COMPOUND_EXPR"
| "TREE_CODE (T_addr a) = ADDR_EXPR"
| "TREE_CODE (T_call f as) = CALL_EXPR"
| "TREE_CODE (T_deref a) = INDIRECT_REF"

definition error_type :: type_node where
  "error_type = Type ERROR_TYPE 0 0 No_name False None"

definition void_type :: type_node where
  "void_type = Type VOID_TYPE 0 0 No_name False None"

definition pointer_to :: "type_node \<Rightarrow> type_node" where
  "pointer_to t = Type POINTER_TYPE 0 0 No_name True (Some t)"

definition target_of :: "type_node \<Rightarrow> type_node" where
  "target_of t = (case tn_of t of None \<Rightarrow> error_type | Some u \<Rightarrow> u)"

fun TREE_TYPE :: "texpr \<Rightarrow> type_node" where
  "TREE_TYPE T_error = error_type"
| "TREE_TYPE (T_operand c n t) = t"
| "TREE_TYPE (T_tmp k t) = t"
| "TREE_TYPE (T_modify a b) = TREE_TYPE a"
| "TREE_TYPE (T_compound a b t) = t"
| "TREE_TYPE (T_addr a) = pointer_to (TREE_TYPE a)"
| "TREE_TYPE (T_call f as) = target_of (fd_type f)"
| "TREE_TYPE (T_deref a) = target_of (TREE_TYPE a)"

fun czet_binary_op_suffix :: "tree_code \<Rightarrow> string option" where
  "czet_binary_op_suffix PLUS_EXPR = Some ''plus''"
| "czet_binary_op_suffix MINUS_EXPR = Some ''minus''"
| "czet_binary_op_suffix MULT_EXPR = Some ''mul''"
| "czet_binary_op_suffix TRUNC_DIV_EXPR = Some ''div''"
| "czet_binary_op_suffix EXACT_DIV_EXPR = Some ''div''"
| "czet_binary_op_suffix RDIV_EXPR = Some ''div''"
| "czet_binary_op_suffix TRUNC_MOD_EXPR = Some ''mod''"
| "czet_binary_op_suffix EQ_EXPR = Some ''eq''"
| "czet_binary_op_suffix NE_EXPR = Some ''ne''"
| "czet_binary_op_suffix LT_EXPR = Some ''lt''"
| "czet_binary_op_suffix GT_EXPR = Some ''gt''"
| "czet_binary_op_suffix LE_EXPR = Some ''le''"
| "czet_binary_op_suffix GE_EXPR = Some ''ge''"
| "czet_binary_op_suffix BIT_AND_EXPR = Some ''bitand''"
| "czet_binary_op_suffix BIT_IOR_EXPR = Some ''bitor''"
| "czet_binary_op_suffix BIT_XOR_EXPR = Some ''xor''"
| "czet_binary_op_suffix LSHIFT_EXPR = Some ''lshift''"
| "czet_binary_op_suffix RSHIFT_EXPR = Some ''rshift''"
| "czet_binary_op_suffix _ = None"

text \<open>\<^verbatim>\<open>snprintf (buf, 32, ...)\<close> keeps 31 characters.\<close>

definition czet_compound_op_suffix :: "tree_code \<Rightarrow> string option" where
  "czet_compound_op_suffix code =
     map_option (\<lambda>bin. take 31 (bin @ ''_assign'')) (czet_binary_op_suffix code)"

fun czet_unary_op_suffix :: "tree_code \<Rightarrow> string option" where
  "czet_unary_op_suffix NEGATE_EXPR = Some ''uminus''"
| "czet_unary_op_suffix TRUTH_NOT_EXPR = Some ''lnot''"
| "czet_unary_op_suffix BIT_NOT_EXPR = Some ''bitnot''"
| "czet_unary_op_suffix PREINCREMENT_EXPR = Some ''pp''"
| "czet_unary_op_suffix POSTINCREMENT_EXPR = Some ''pp''"
| "czet_unary_op_suffix PREDECREMENT_EXPR = Some ''mm''"
| "czet_unary_op_suffix POSTDECREMENT_EXPR = Some ''mm''"
| "czet_unary_op_suffix _ = None"

definition czet_operable_type :: "type_node \<Rightarrow> bool" where
  "czet_operable_type t \<longleftrightarrow>
     tn_code t = RECORD_TYPE \<or> tn_code t = UNION_TYPE \<or> tn_code t = ENUMERAL_TYPE"

definition czet_lvalue_p :: "texpr \<Rightarrow> bool" where
  "czet_lvalue_p e \<longleftrightarrow> TREE_CODE e \<in> {VAR_DECL, PARM_DECL, RESULT_DECL, FUNCTION_DECL, COMPONENT_REF,
     INDIRECT_REF, ARRAY_REF, ARRAY_RANGE_REF, BIT_FIELD_REF, MEM_REF, STRING_CST}"

subsection \<open>The rewriter\<close>

text \<open>
  The context of the rewriter: the registry, whether a function is being compiled (\<^verbatim>\<open>cfun\<close>),
  \<^verbatim>\<open>comptypes\<close> on main variants, and whether \<^verbatim>\<open>build_modify_expr\<close> can copy a value of the type.  The
  number of temporaries made so far is threaded through.
\<close>

record opctx =
  oc_map :: operator_map
  oc_cfun :: bool
  oc_comptypes :: "nat \<Rightarrow> nat \<Rightarrow> bool"
  oc_copyable :: "type_node \<Rightarrow> bool"

definition require_complete_type :: "texpr \<Rightarrow> texpr" where
  "require_complete_type e = (if e = T_error \<or> \<not> tn_complete (TREE_TYPE e) then T_error else e)"

definition czet_addressable_operand :: "opctx \<Rightarrow> texpr \<Rightarrow> nat \<Rightarrow> texpr option \<times> nat" where
  "czet_addressable_operand cx operand k =
     (if operand = T_error then (None, k)
      else if czet_lvalue_p operand then (Some operand, k)
      else
        let type = TREE_TYPE operand in
        if \<not> tn_complete type \<or> \<not> oc_cfun cx then (None, k)
        else if \<not> oc_copyable cx type then (None, k + 1)
        else (Some (T_compound (T_modify (T_tmp k type) operand) (T_tmp k type) type), k + 1))"

fun czet_addr_of :: "texpr \<Rightarrow> texpr" where
  "czet_addr_of (T_compound ini tmp t) = T_compound ini (T_addr tmp) (pointer_to (TREE_TYPE tmp))"
| "czet_addr_of m = T_addr m"

definition czet_copy_to_temp :: "opctx \<Rightarrow> texpr \<Rightarrow> nat \<Rightarrow> (texpr \<times> texpr) option \<times> nat" where
  "czet_copy_to_temp cx source k =
     (let type = TREE_TYPE source; tmp = T_tmp k type in
      if \<not> oc_copyable cx type then (None, k + 1)
      else (Some (T_compound (T_modify tmp source) tmp type, tmp), k + 1))"

definition czet_rewrite_binary_op :: "opctx \<Rightarrow> tree_code \<Rightarrow> texpr \<Rightarrow> texpr \<Rightarrow> nat \<Rightarrow> texpr option \<times> nat" where
  "czet_rewrite_binary_op cx code op0 op1 k =
     (case czet_binary_op_suffix code of
        None \<Rightarrow> (None, k)
      | Some suffix \<Rightarrow>
          let t0 = TREE_TYPE op0; t1 = TREE_TYPE op1 in
          if \<not> czet_operable_type t0 \<or> \<not> czet_operable_type t1 then (None, k)
          else if \<not> oc_comptypes cx (tn_main t0) (tn_main t1) then (None, k)
          else (case czet_lookup_operator (oc_map cx) (tn_main t0) suffix of
                  None \<Rightarrow> (None, k)
                | Some fd \<Rightarrow>
                    (case czet_addressable_operand cx (require_complete_type op0) k of (m0, k0) \<Rightarrow>
                     case czet_addressable_operand cx (require_complete_type op1) k0 of (m1, k1) \<Rightarrow>
                       (case (m0, m1) of
                          (Some a, Some b) \<Rightarrow> (Some (T_call fd [czet_addr_of a, czet_addr_of b]), k1)
                        | _ \<Rightarrow> (None, k1)))))"

definition is_mutating :: "tree_code \<Rightarrow> bool" where
  "is_mutating code \<longleftrightarrow> code \<in> {PREINCREMENT_EXPR, POSTINCREMENT_EXPR, PREDECREMENT_EXPR, POSTDECREMENT_EXPR}"

definition is_postfix :: "tree_code \<Rightarrow> bool" where
  "is_postfix code \<longleftrightarrow> code = POSTINCREMENT_EXPR \<or> code = POSTDECREMENT_EXPR"

definition czet_rewrite_unary_op :: "opctx \<Rightarrow> tree_code \<Rightarrow> texpr \<Rightarrow> nat \<Rightarrow> texpr option \<times> nat" where
  "czet_rewrite_unary_op cx code arg k =
     (case czet_unary_op_suffix code of
        None \<Rightarrow> (None, k)
      | Some suffix \<Rightarrow>
          let type = TREE_TYPE arg in
          if \<not> czet_operable_type type then (None, k)
          else (case czet_lookup_operator (oc_map cx) (tn_main type) suffix of
                  None \<Rightarrow> (None, k)
                | Some fd \<Rightarrow>
                    (case czet_addressable_operand cx (require_complete_type arg) k of
                       (None, k0) \<Rightarrow> (None, k0)
                     | (Some m0, k0) \<Rightarrow>
                         let call = T_call fd [czet_addr_of m0] in
                         if is_mutating code \<and> tn_code (target_of (fd_type fd)) = VOID_TYPE then
                           if \<not> is_postfix code then (Some (T_compound call m0 type), k0)
                           else (case czet_copy_to_temp cx m0 k0 of
                                   (None, k1) \<Rightarrow> (None, k1)
                                 | (Some (old, tmp), k1) \<Rightarrow>
                                     (Some (T_compound (T_compound old call void_type) tmp type), k1))
                         else (Some call, k0))))"

definition POINTER_TYPE_P :: "type_node \<Rightarrow> bool" where
  "POINTER_TYPE_P t \<longleftrightarrow> tn_code t = POINTER_TYPE \<or> tn_code t = REFERENCE_TYPE"

definition czet_rewrite_modify_expr :: "opctx \<Rightarrow> texpr \<Rightarrow> tree_code \<Rightarrow> texpr \<Rightarrow> nat \<Rightarrow> texpr option \<times> nat" where
  "czet_rewrite_modify_expr cx lhs modifycode rhs k =
     (case (if modifycode = NOP_EXPR then Some ''assign'' else czet_compound_op_suffix modifycode) of
        None \<Rightarrow> (None, k)
      | Some suffix \<Rightarrow>
          let lhstype = TREE_TYPE lhs; rhstype = TREE_TYPE rhs in
          if \<not> czet_operable_type lhstype then (None, k)
          else if \<not> czet_operable_type rhstype \<or> \<not> oc_comptypes cx (tn_main lhstype) (tn_main rhstype) then (None, k)
          else (case czet_lookup_operator (oc_map cx) (tn_main lhstype) suffix of
                  None \<Rightarrow> (None, k)
                | Some fd \<Rightarrow>
                    if \<not> czet_lvalue_p lhs then (None, k)
                    else (case czet_addressable_operand cx (require_complete_type rhs) k of
                            (None, k1) \<Rightarrow> (None, k1)
                          | (Some m1, k1) \<Rightarrow>
                              let call = T_call fd [T_addr (require_complete_type lhs), czet_addr_of m1] in
                              if modifycode \<noteq> NOP_EXPR \<and> POINTER_TYPE_P (fd_type fd)
                              then (Some (T_deref call), k1) else (Some call, k1))))"

subsection \<open>Defining an operator\<close>

datatype op_error =
    Op_expected cpp_ttype | Op_bad_type_name | Op_user_types_only | Op_expected_string | Op_empty
  | Op_unsupported string | Op_returns_value string | Op_redefined string | Op_invalid

text \<open>
  The parser routines the definition calls: reading a type name, skipping to the end of a
  statement, and building the function of the given name with that many operands and its body
  (\<open>None\<close> when \<^verbatim>\<open>start_function\<close> refuses).
\<close>

record ophooks =
  oh_type_name :: "c_parser \<Rightarrow> type_node option \<times> c_parser"
  oh_skip :: "c_parser \<Rightarrow> c_parser"
  oh_define :: "string \<Rightarrow> type_node \<Rightarrow> nat \<Rightarrow> c_parser \<Rightarrow> fndecl option \<times> c_parser"

text \<open>The text of the operator string: quotes stripped, at most 15 characters.\<close>

definition operator_text :: "string \<Rightarrow> string" where
  "operator_text raw =
     take 15 (if 2 \<le> length raw \<and> raw ! 0 = CHR 0x22 then take (length raw - 2) (tl raw) else raw)"

definition op_unsupported :: "string \<Rightarrow> bool" where
  "op_unsupported op \<longleftrightarrow> czet_operator_bin_for_assign op = None \<and> \<not> czet_operator_is_unary op
     \<and> \<not> czet_operator_is_unary_mutating op \<and> \<not> czet_operator_is_assign op
     \<and> czet_operator_mangle_suffix op (czet_operator_is_unary op) = op"

type_synonym op_result = "op_error list \<times> operator_map \<times> fndecl option \<times> c_parser"

text \<open>From the closing parenthesis on: the checks on the operator and the function itself.\<close>

definition define_operator :: "ophooks \<Rightarrow> operator_map \<Rightarrow> type_node \<Rightarrow> type_node \<Rightarrow> string \<Rightarrow> c_parser \<Rightarrow> op_result" where
  "define_operator h m ret op_type op ps =
     (let unary = czet_operator_is_unary op; suffix = czet_operator_mangle_suffix op unary;
          mut = czet_operator_is_unary_mutating op \<or> czet_operator_is_assign op;
          errs = (if mut \<and> tn_code ret \<noteq> VOID_TYPE then [Op_returns_value op] else []) in
      if op_unsupported op then ([Op_unsupported op], m, None, oh_skip h ps)
      else if czet_lookup_operator m (tn_self op_type) suffix \<noteq> None
      then (errs @ [Op_redefined op], m, None, oh_skip h ps)
      else (case oh_define h (czet_operator_mangled_name op_type suffix) op_type (if unary then 1 else 2) ps of
              (None, ps1) \<Rightarrow> (errs @ [Op_invalid], m, None, oh_skip h ps1)
            | (Some fd, ps1) \<Rightarrow> (errs, czet_register_operator m (tn_self op_type) suffix fd, Some fd, ps1)))"

definition c_parser_operator_definition :: "ophooks \<Rightarrow> operator_map \<Rightarrow> type_node \<Rightarrow> c_parser \<Rightarrow> op_result" where
  "c_parser_operator_definition h m ret ps =
     (case c_parser_require ps CPP_OPEN_PAREN of
        (False, ps1) \<Rightarrow> ([Op_expected CPP_OPEN_PAREN], m, None, ps1)
      | (True, ps1) \<Rightarrow>
          (case oh_type_name h ps1 of
             (None, ps2) \<Rightarrow> ([Op_bad_type_name], m, None, ps2)
           | (Some op_type, ps2) \<Rightarrow>
               if tn_code op_type = ERROR_TYPE then ([Op_bad_type_name], m, None, ps2)
               else if \<not> czet_operable_type op_type
               then ([Op_user_types_only], m, None, c_parser_skip_until_found ps2 CPP_CLOSE_PAREN)
               else (case c_parser_require ps2 CPP_COMMA of
                       (False, ps3) \<Rightarrow> ([Op_expected CPP_COMMA], m, None, ps3)
                     | (True, ps3) \<Rightarrow>
                         (case c_parser_peek_token ps3 of (t, ps4) \<Rightarrow>
                            if tk_type t \<noteq> CPP_STRING then ([Op_expected_string], m, None, ps4\<lparr>cp_error := True\<rparr>)
                            else
                              let op = operator_text (tk_value t); ps5 = c_parser_consume_token ps4 in
                              if op = [] then ([Op_empty], m, None, ps5)
                              else (case c_parser_require ps5 CPP_CLOSE_PAREN of
                                      (False, ps6) \<Rightarrow> ([Op_expected CPP_CLOSE_PAREN], m, None, ps6)
                                    | (True, ps6) \<Rightarrow> define_operator h m ret op_type op ps6)))))"

subsection \<open>The registry as a map from type and suffix\<close>

lemma lookup_register:
  "czet_lookup_operator (czet_register_operator m t s fd) t' s' =
     (if t' = t \<and> s' = s then Some fd else czet_lookup_operator m t' s')"
  by (auto simp: czet_lookup_operator_def czet_register_operator_def split: option.splits)

text \<open>
  A successful definition adds exactly one overload, for a combination that had none; every
  failure leaves the registry alone.
\<close>

lemma define_operator_cases:
  assumes "define_operator h m ret op_type op ps = (errs, m', r, ps')"
  obtains (failed) "r = None" "m' = m" "errs \<noteq> []"
  | (defined) fd suffix where "r = Some fd" "suffix = czet_operator_mangle_suffix op (czet_operator_is_unary op)"
      "\<not> op_unsupported op" "czet_lookup_operator m (tn_self op_type) suffix = None"
      "m' = czet_register_operator m (tn_self op_type) suffix fd"
  using assms unfolding define_operator_def Let_def
  by (auto split: if_splits option.splits prod.splits)

lemma operator_definition_cases:
  assumes "c_parser_operator_definition h m ret ps = (errs, m', r, ps')"
  obtains (failed) "r = None" "m' = m" "errs \<noteq> []"
  | (defined) fd suffix op t where "r = Some fd" "suffix = czet_operator_mangle_suffix op (czet_operator_is_unary op)"
      "\<not> op_unsupported op" "czet_operable_type t" "czet_lookup_operator m (tn_self t) suffix = None"
      "m' = czet_register_operator m (tn_self t) suffix fd"
proof -
  consider "r = None \<and> m' = m \<and> errs \<noteq> []"
    | t op q where "czet_operable_type t" "define_operator h m ret t op q = (errs, m', r, ps')"
    using assms unfolding c_parser_operator_definition_def Let_def
    by (auto split: if_splits option.splits prod.splits bool.splits)
  then show thesis
  proof cases
    case 1
    then show thesis using failed by blast
  next
    case (2 t op q)
    from 2(2) show thesis
      by (cases rule: define_operator_cases) (use failed defined 2(1) in blast)+
  qed
qed

subsection \<open>The table and the rewriter agree\<close>

text \<open>How C spells the operators the rewriter knows.\<close>

fun binary_spelling :: "tree_code \<Rightarrow> string option" where
  "binary_spelling PLUS_EXPR = Some ''+''"
| "binary_spelling MINUS_EXPR = Some ''-''"
| "binary_spelling MULT_EXPR = Some ''*''"
| "binary_spelling TRUNC_DIV_EXPR = Some ''/''"
| "binary_spelling EXACT_DIV_EXPR = Some ''/''"
| "binary_spelling RDIV_EXPR = Some ''/''"
| "binary_spelling TRUNC_MOD_EXPR = Some ''%''"
| "binary_spelling EQ_EXPR = Some ''==''"
| "binary_spelling NE_EXPR = Some ''!=''"
| "binary_spelling LT_EXPR = Some ''<''"
| "binary_spelling GT_EXPR = Some ''>''"
| "binary_spelling LE_EXPR = Some ''<=''"
| "binary_spelling GE_EXPR = Some ''>=''"
| "binary_spelling BIT_AND_EXPR = Some ''&''"
| "binary_spelling BIT_IOR_EXPR = Some ''|''"
| "binary_spelling BIT_XOR_EXPR = Some ''^''"
| "binary_spelling LSHIFT_EXPR = Some ''<<''"
| "binary_spelling RSHIFT_EXPR = Some ''>>''"
| "binary_spelling _ = None"

text \<open>The entry the loops find for each operator.\<close>

lemma find_op_table:
  "find_op ''+'' = Some (opdef ''+'' ''plus'' False False None)"
  "find_op ''-'' = Some (opdef ''-'' ''minus'' False False None)"
  "find_op ''*'' = Some (opdef ''*'' ''mul'' False False None)"
  "find_op ''/'' = Some (opdef ''/'' ''div'' False False None)"
  "find_op ''%'' = Some (opdef ''%'' ''mod'' False False None)"
  "find_op ''=='' = Some (opdef ''=='' ''eq'' False False None)"
  "find_op ''!='' = Some (opdef ''!='' ''ne'' False False None)"
  "find_op ''<'' = Some (opdef ''<'' ''lt'' False False None)"
  "find_op ''>'' = Some (opdef ''>'' ''gt'' False False None)"
  "find_op ''<='' = Some (opdef ''<='' ''le'' False False None)"
  "find_op ''>='' = Some (opdef ''>='' ''ge'' False False None)"
  "find_op ''&'' = Some (opdef ''&'' ''bitand'' False False None)"
  "find_op ''|'' = Some (opdef ''|'' ''bitor'' False False None)"
  "find_op ''^'' = Some (opdef ''^'' ''xor'' False False None)"
  "find_op ''<<'' = Some (opdef ''<<'' ''lshift'' False False None)"
  "find_op ''>>'' = Some (opdef ''>>'' ''rshift'' False False None)"
  "find_op ''+='' = Some (opdef ''+='' ''plus_assign'' False False (Some ''+''))"
  "find_op ''-='' = Some (opdef ''-='' ''minus_assign'' False False (Some ''-''))"
  "find_op ''*='' = Some (opdef ''*='' ''mul_assign'' False False (Some ''*''))"
  "find_op ''/='' = Some (opdef ''/='' ''div_assign'' False False (Some ''/''))"
  "find_op ''%='' = Some (opdef ''%='' ''mod_assign'' False False (Some ''%''))"
  "find_op ''&='' = Some (opdef ''&='' ''bitand_assign'' False False (Some ''&''))"
  "find_op ''|='' = Some (opdef ''|='' ''bitor_assign'' False False (Some ''|''))"
  "find_op ''^='' = Some (opdef ''^='' ''xor_assign'' False False (Some ''^''))"
  "find_op ''<<='' = Some (opdef ''<<='' ''lshift_assign'' False False (Some ''<<''))"
  "find_op ''>>='' = Some (opdef ''>>='' ''rshift_assign'' False False (Some ''>>''))"
  "find_op ''!'' = Some (opdef ''!'' ''lnot'' True False None)"
  "find_op ''~'' = Some (opdef ''~'' ''bitnot'' True False None)"
  "find_op ''++'' = Some (opdef ''++'' ''pp'' True True None)"
  "find_op ''--'' = Some (opdef ''--'' ''mm'' True True None)"
  "find_op ''='' = Some (opdef ''='' ''assign'' False True None)"
  by code_simp+

lemma op_accepted:
  "\<not> op_unsupported ''+''"
  "\<not> op_unsupported ''-''"
  "\<not> op_unsupported ''*''"
  "\<not> op_unsupported ''/''"
  "\<not> op_unsupported ''%''"
  "\<not> op_unsupported ''==''"
  "\<not> op_unsupported ''!=''"
  "\<not> op_unsupported ''<''"
  "\<not> op_unsupported ''>''"
  "\<not> op_unsupported ''<=''"
  "\<not> op_unsupported ''>=''"
  "\<not> op_unsupported ''&''"
  "\<not> op_unsupported ''|''"
  "\<not> op_unsupported ''^''"
  "\<not> op_unsupported ''<<''"
  "\<not> op_unsupported ''>>''"
  "\<not> op_unsupported ''+=''"
  "\<not> op_unsupported ''-=''"
  "\<not> op_unsupported ''*=''"
  "\<not> op_unsupported ''/=''"
  "\<not> op_unsupported ''%=''"
  "\<not> op_unsupported ''&=''"
  "\<not> op_unsupported ''|=''"
  "\<not> op_unsupported ''^=''"
  "\<not> op_unsupported ''<<=''"
  "\<not> op_unsupported ''>>=''"
  "\<not> op_unsupported ''!''"
  "\<not> op_unsupported ''~''"
  "\<not> op_unsupported ''++''"
  "\<not> op_unsupported ''--''"
  "\<not> op_unsupported ''=''"
  by code_simp+

lemmas op_facts = find_op_table op_accepted czet_operator_mangle_suffix_def czet_operator_is_unary_def opdef_def

lemma binary_suffix_agrees:
  assumes "binary_spelling code = Some op"
  shows "czet_binary_op_suffix code = Some (czet_operator_mangle_suffix op (czet_operator_is_unary op))
     \<and> \<not> czet_operator_is_unary op \<and> \<not> op_unsupported op"
  using assms by (cases code) (auto simp: op_facts)

text \<open>Compound assignments, and the unary operators other than the minus sign.\<close>

definition has_compound :: "tree_code \<Rightarrow> bool" where
  "has_compound code \<longleftrightarrow> code \<in> {PLUS_EXPR, MINUS_EXPR, MULT_EXPR, TRUNC_DIV_EXPR, EXACT_DIV_EXPR, RDIV_EXPR,
     TRUNC_MOD_EXPR, BIT_AND_EXPR, BIT_IOR_EXPR, BIT_XOR_EXPR, LSHIFT_EXPR, RSHIFT_EXPR}"

lemma compound_suffix_agrees:
  assumes "binary_spelling code = Some op" "has_compound code"
  shows "czet_compound_op_suffix code = Some (czet_operator_mangle_suffix (op @ ''='') False)
    \<and> \<not> czet_operator_is_unary (op @ ''='') \<and> \<not> op_unsupported (op @ ''='')"
  using assms by (cases code) (auto simp: op_facts has_compound_def czet_compound_op_suffix_def)

fun unary_spelling :: "tree_code \<Rightarrow> string option" where
  "unary_spelling TRUTH_NOT_EXPR = Some ''!''"
| "unary_spelling BIT_NOT_EXPR = Some ''~''"
| "unary_spelling PREINCREMENT_EXPR = Some ''++''"
| "unary_spelling POSTINCREMENT_EXPR = Some ''++''"
| "unary_spelling PREDECREMENT_EXPR = Some ''--''"
| "unary_spelling POSTDECREMENT_EXPR = Some ''--''"
| "unary_spelling _ = None"

lemma unary_suffix_agrees:
  assumes "unary_spelling code = Some op"
  shows "czet_unary_op_suffix code = Some (czet_operator_mangle_suffix op (czet_operator_is_unary op))
    \<and> czet_operator_is_unary op \<and> \<not> op_unsupported op"
  using assms by (cases code) (auto simp: op_facts)

text \<open>The overload of the unary minus sign cannot be defined.\<close>

lemma suffix_not_uminus:
  assumes "\<not> op_unsupported op"
  shows "czet_operator_mangle_suffix op (czet_operator_is_unary op) \<noteq> ''uminus''"
proof (cases "find_op op")
  case None
  then have "\<forall>d \<in> set czet_operator_defs. od_op d \<noteq> op" by (auto simp: find_op_def find_None_iff)
  then have "czet_operator_bin_for_assign op = None"
    by (auto simp: czet_operator_bin_for_assign_def find_None_iff split: option.split dest!: find_Some_iff [THEN iffD1])
  moreover have "op \<noteq> ''=''" using None by (auto simp: find_op_table)
  ultimately show ?thesis
    using assms None by (auto simp: op_unsupported_def czet_operator_mangle_suffix_def czet_operator_is_unary_def
        czet_operator_is_unary_mutating_def czet_operator_is_assign_def)
next
  case (Some d)
  then have d: "d \<in> set czet_operator_defs" "od_op d = op"
    by (auto simp: find_op_def find_Some_iff)
  have m: "op = ''-''" if "od_mangle d = ''uminus''"
    using d that by (auto simp: czet_operator_defs_def opdef_def)
  show ?thesis
  proof (cases "op = ''-''")
    case True
    then show ?thesis
      by (simp add: czet_operator_mangle_suffix_def czet_operator_is_unary_def find_op_table opdef_def)
  next
    case False
    then have "czet_operator_mangle_suffix op (czet_operator_is_unary op) = od_mangle d"
      using Some d(2) by (simp add: czet_operator_mangle_suffix_def)
    with m False show ?thesis by metis
  qed
qed

definition no_uminus :: "operator_map \<Rightarrow> bool" where
  "no_uminus m \<longleftrightarrow> (\<forall>t. czet_lookup_operator m t ''uminus'' = None)"

text \<open>
  No operator definition ever registers a unary minus overload, although the table and the
  rewriter have a suffix for it.
\<close>

theorem definition_no_uminus:
  assumes "c_parser_operator_definition h m ret ps = (errs, m', r, ps')" "no_uminus m"
  shows "no_uminus m'"
  using assms(1)
proof (cases rule: operator_definition_cases)
  case (defined fd suffix op t)
  with suffix_not_uminus [OF defined(3)] assms(2) show ?thesis by (auto simp: no_uminus_def lookup_register)
qed (use assms in simp)

text \<open>An example: the structure type \<open>V\<close> with an overload, and a parser in front of \<^verbatim>\<open>(V, "-")\<close>.\<close>

definition ex_type :: type_node where
  "ex_type = Type RECORD_TYPE 7 7 (Ident_name ''V'') True None"

definition ex_fd :: "type_node \<Rightarrow> fndecl" where
  "ex_fd ret = \<lparr>fd_uid = 1, fd_type = Type FUNCTION_TYPE 0 0 No_name True (Some ret)\<rparr>"

definition ex_hooks :: ophooks where
  "ex_hooks = \<lparr>oh_type_name = (\<lambda>ps. (Some ex_type, c_parser_consume_token (snd (c_parser_peek_token ps)))),
     oh_skip = (\<lambda>ps. ps), oh_define = (\<lambda>name t n ps. (Some (ex_fd ex_type), ps))\<rparr>"

definition ex_input :: c_parser where
  "ex_input = \<lparr>cp_tokens = [], cp_prelexed = False, cp_probing = False, cp_probe_committed = False, cp_probe = [],
     cp_inject = None, cp_inject_pos = 0, cp_inject_stack = [],
     cp_lexer = [mk_tok CPP_OPEN_PAREN [], name_tok ''V'', mk_tok CPP_COMMA [],
       (mk_tok CPP_STRING [])\<lparr>tk_value := [CHR 0x22, CHR ''-'', CHR 0x22]\<rparr>, mk_tok CPP_CLOSE_PAREN []],
     cp_error = False\<rparr>"

definition ex_ctx :: "string \<Rightarrow> type_node \<Rightarrow> opctx" where
  "ex_ctx suffix ret = \<lparr>oc_map = czet_register_operator Map.empty 7 suffix (ex_fd ret), oc_cfun = True,
     oc_comptypes = (=), oc_copyable = (\<lambda>t. True)\<rparr>"

lemmas ex_op_defs = ex_type_def ex_fd_def ex_ctx_def czet_lookup_operator_def czet_register_operator_def
  czet_operable_type_def czet_lvalue_p_def target_of_def void_type_def

lemma ex_no_uminus: "no_uminus Map.empty"
  by (simp add: no_uminus_def czet_lookup_operator_def)

theorem definition_no_uminus_witness:
  "\<exists>errs m r ps. c_parser_operator_definition ex_hooks Map.empty ex_type ex_input = (errs, m, r, ps) \<and> no_uminus m"
proof -
  obtain errs m r ps where d: "c_parser_operator_definition ex_hooks Map.empty ex_type ex_input = (errs, m, r, ps)"
    by (metis prod_cases4)
  from definition_no_uminus [OF this ex_no_uminus] d show ?thesis by blast
qed

subsection \<open>What a rewritten expression computes\<close>

text \<open>
  A meaning for expressions: memory maps addresses to values, an operand has a value and, when it
  is an lvalue, an address (evaluating either may change memory), a temporary has an address, and
  a function works on memory through the addresses it is given.  C leaves the order of the arguments
  of a call open: \<open>mn_rev\<close> says whether the target evaluates the last argument first, as GCC does where
  \<^verbatim>\<open>PUSH_ARGS_REVERSED\<close> holds, or the first one.
\<close>

type_synonym 'v mem = "nat \<Rightarrow> 'v"

record 'v meaning =
  mn_addr :: "nat \<Rightarrow> 'v mem \<Rightarrow> nat \<times> 'v mem"
  mn_val :: "nat \<Rightarrow> 'v mem \<Rightarrow> 'v \<times> 'v mem"
  mn_tmp :: "nat \<Rightarrow> nat"
  mn_fn :: "nat \<Rightarrow> nat list \<Rightarrow> 'v mem \<Rightarrow> 'v \<times> 'v mem"
  mn_rev :: bool

text \<open>Two evaluations in the order of the target.\<close>

definition in_order :: "bool \<Rightarrow> ('m \<Rightarrow> ('a \<times> 'm) option) \<Rightarrow> ('m \<Rightarrow> ('b \<times> 'm) option) \<Rightarrow> 'm \<Rightarrow> (('a \<times> 'b) \<times> 'm) option" where
  "in_order r f g m =
     (if r then (case g m of None \<Rightarrow> None | Some (b, m1) \<Rightarrow>
                     (case f m1 of None \<Rightarrow> None | Some (a, m2) \<Rightarrow> Some ((a, b), m2)))
      else (case f m of None \<Rightarrow> None | Some (a, m1) \<Rightarrow>
              (case g m1 of None \<Rightarrow> None | Some (b, m2) \<Rightarrow> Some ((a, b), m2))))"

lemma in_order_cong [fundef_cong]:
  "r = r' \<Longrightarrow> (\<And>m. f m = f' m) \<Longrightarrow> (\<And>m. g m = g' m) \<Longrightarrow> m = m' \<Longrightarrow> in_order r f g m = in_order r' f' g' m'"
  by (simp add: in_order_def split: option.split)

fun ev_val :: "'v meaning \<Rightarrow> texpr \<Rightarrow> 'v mem \<Rightarrow> ('v \<times> 'v mem) option"
  and ev_ptr :: "'v meaning \<Rightarrow> texpr \<Rightarrow> 'v mem \<Rightarrow> (nat \<times> 'v mem) option"
  and ev_ptrs :: "'v meaning \<Rightarrow> texpr list \<Rightarrow> 'v mem \<Rightarrow> (nat list \<times> 'v mem) option" where
  "ev_val S (T_operand c n t) m = Some (mn_val S n m)"
| "ev_val S (T_tmp k t) m = Some (m (mn_tmp S k), m)"
| "ev_val S (T_modify (T_tmp k t) e) m =
     (case ev_val S e m of None \<Rightarrow> None | Some (v, m') \<Rightarrow> Some (v, m'(mn_tmp S k := v)))"
| "ev_val S (T_compound a b t) m = (case ev_val S a m of None \<Rightarrow> None | Some (_, m') \<Rightarrow> ev_val S b m')"
| "ev_val S (T_call f as) m =
     (case ev_ptrs S as m of None \<Rightarrow> None | Some (ps, m') \<Rightarrow> Some (mn_fn S (fd_uid f) ps m'))"
| "ev_val S _ m = None"
| "ev_ptr S (T_addr (T_operand c n t)) m = Some (mn_addr S n m)"
| "ev_ptr S (T_addr (T_tmp k t)) m = Some (mn_tmp S k, m)"
| "ev_ptr S (T_compound a b t) m = (case ev_val S a m of None \<Rightarrow> None | Some (_, m') \<Rightarrow> ev_ptr S b m')"
| "ev_ptr S _ m = None"
| "ev_ptrs S [] m = Some ([], m)"
| "ev_ptrs S (e # es) m =
     (case in_order (mn_rev S) (\<lambda>m. ev_ptr S e m) (\<lambda>m. ev_ptrs S es m) m of
        None \<Rightarrow> None
      | Some ((p, ps), m') \<Rightarrow> Some (p # ps, m'))"

declare ev_ptrs.simps [simp del]

lemma ev_one_ptr [simp]:
  "ev_ptrs S [e] m = (case ev_ptr S e m of None \<Rightarrow> None | Some (p, m') \<Rightarrow> Some ([p], m'))"
  by (auto simp: ev_ptrs.simps in_order_def split: option.split prod.split)

lemma ev_two_ptrs [simp]:
  "ev_ptrs S [e0, e1] m =
     (case in_order (mn_rev S) (ev_ptr S e0) (ev_ptr S e1) m of None \<Rightarrow> None | Some ((p0, p1), m') \<Rightarrow> Some ([p0, p1], m'))"
  by (auto simp: ev_ptrs.simps in_order_def split: option.split prod.split)

text \<open>
  How an operand reaches the overload: an lvalue by its own address, any other value through a
  fresh temporary that holds a copy.
\<close>

definition pass_operand :: "'v meaning \<Rightarrow> texpr \<Rightarrow> nat \<Rightarrow> 'v mem \<Rightarrow> (nat \<times> 'v mem) option" where
  "pass_operand S e k m =
     (if czet_lvalue_p e then ev_ptr S (T_addr e) m
      else (case ev_val S e m of None \<Rightarrow> None
            | Some (v, m') \<Rightarrow> Some (mn_tmp S k, m'(mn_tmp S k := v))))"

lemma addressable_passes:
  assumes "czet_addressable_operand cx e k = (Some a, k')"
  shows "ev_ptr S (czet_addr_of a) m = pass_operand S e k m"
proof (cases "czet_lvalue_p e")
  case True
  then have "a = e" "k' = k" "TREE_CODE e \<noteq> COMPOUND_EXPR"
    using assms by (auto simp: czet_addressable_operand_def czet_lvalue_p_def split: if_splits)
  then show ?thesis using True by (cases e) (auto simp: pass_operand_def)
next
  case False
  then show ?thesis
    using assms by (auto simp: czet_addressable_operand_def pass_operand_def Let_def split: if_splits option.splits)
qed

lemma addressable_count:
  "czet_addressable_operand cx e k = (Some a, k') \<Longrightarrow> k' = (if czet_lvalue_p e then k else k + 1)"
  by (auto simp: czet_addressable_operand_def Let_def split: if_splits)

definition ex_meaning :: "nat meaning" where
  "ex_meaning = \<lparr>mn_addr = (\<lambda>n m. (n, m)), mn_val = (\<lambda>n m. (m n, m)), mn_tmp = (\<lambda>k. 100 + k),
     mn_fn = (\<lambda>f as m. (0, m(hd as := m (hd as) + 1))), mn_rev = True\<rparr>"

subsection \<open>Binary operators\<close>

definition passable :: "opctx \<Rightarrow> texpr \<Rightarrow> bool" where
  "passable cx e \<longleftrightarrow> e \<noteq> T_error \<and> tn_complete (TREE_TYPE e)
     \<and> (czet_lvalue_p e \<or> oc_cfun cx \<and> oc_copyable cx (TREE_TYPE e))"

lemma addressable_iff:
  "fst (czet_addressable_operand cx (require_complete_type e) k) \<noteq> None \<longleftrightarrow> passable cx e"
  by (auto simp: czet_addressable_operand_def require_complete_type_def passable_def Let_def)

lemma addressable_complete:
  "czet_addressable_operand cx (require_complete_type e) k = (Some a, k') \<Longrightarrow> require_complete_type e = e"
  by (auto simp: czet_addressable_operand_def require_complete_type_def split: if_splits)

text \<open>Exactly when the builtin meaning is replaced.\<close>

definition overload_for :: "opctx \<Rightarrow> tree_code \<Rightarrow> texpr \<Rightarrow> texpr \<Rightarrow> fndecl option" where
  "overload_for cx code op0 op1 =
     (case czet_binary_op_suffix code of
        None \<Rightarrow> None
      | Some suffix \<Rightarrow>
          if czet_operable_type (TREE_TYPE op0) \<and> czet_operable_type (TREE_TYPE op1)
             \<and> oc_comptypes cx (tn_main (TREE_TYPE op0)) (tn_main (TREE_TYPE op1))
          then czet_lookup_operator (oc_map cx) (tn_main (TREE_TYPE op0)) suffix else None)"

text \<open>
  A binary operation is replaced by a call exactly when both operands have compatible user
  types with an overload for that operator and both can be passed by address.
\<close>

theorem rewrite_binary_iff:
  "fst (czet_rewrite_binary_op cx code op0 op1 k) \<noteq> None \<longleftrightarrow>
     overload_for cx code op0 op1 \<noteq> None \<and> passable cx op0 \<and> passable cx op1"
proof -
  obtain m0 k0 where a: "czet_addressable_operand cx (require_complete_type op0) k = (m0, k0)"
    by (cases "czet_addressable_operand cx (require_complete_type op0) k")
  obtain m1 k1 where b: "czet_addressable_operand cx (require_complete_type op1) k0 = (m1, k1)"
    by (cases "czet_addressable_operand cx (require_complete_type op1) k0")
  have "m0 \<noteq> None \<longleftrightarrow> passable cx op0" "m1 \<noteq> None \<longleftrightarrow> passable cx op1"
    using addressable_iff [of cx op0 k] addressable_iff [of cx op1 k0] a b by auto
  then show ?thesis
    using a b by (auto simp: czet_rewrite_binary_op_def overload_for_def Let_def split: option.splits)
qed

text \<open>
  C2. The call that replaces a binary operation evaluates each operand exactly once, in the order in
  which the target evaluates arguments, passes lvalues by their own address and other values through
  fresh temporaries, and calls the overload with the left operand first.
\<close>

theorem rewrite_binary_means:
  assumes "czet_rewrite_binary_op cx code op0 op1 k = (Some e, k')"
  shows "\<exists>fd. overload_for cx code op0 op1 = Some fd \<and>
    ev_val S e m =
       (case in_order (mn_rev S) (pass_operand S op0 k) (pass_operand S op1 (if czet_lvalue_p op0 then k else k + 1)) m of
          None \<Rightarrow> None
        | Some ((p0, p1), m') \<Rightarrow> Some (mn_fn S (fd_uid fd) [p0, p1] m'))"
proof -
  obtain fd a k0 b k1 where fd: "overload_for cx code op0 op1 = Some fd"
    and a: "czet_addressable_operand cx (require_complete_type op0) k = (Some a, k0)"
    and b: "czet_addressable_operand cx (require_complete_type op1) k0 = (Some b, k1)"
    and e: "e = T_call fd [czet_addr_of a, czet_addr_of b]"
    using assms
    by (auto simp: czet_rewrite_binary_op_def overload_for_def Let_def split: option.splits prod.splits if_splits)
  have pa: "ev_ptr S (czet_addr_of a) = pass_operand S op0 k"
    using addressable_passes [OF a, of S] addressable_complete [OF a] by auto
  have k0: "k0 = (if czet_lvalue_p op0 then k else k + 1)"
    using addressable_count [OF a] addressable_complete [OF a] by simp
  have pb: "ev_ptr S (czet_addr_of b) = pass_operand S op1 k0"
    using addressable_passes [OF b, of S] addressable_complete [OF b] by auto
  show ?thesis
    by (intro exI [of _ fd] conjI fd, unfold k0 [symmetric]) (simp add: e pa pb split: option.split prod.split)
qed

theorem rewrite_binary_means_witness:
  "\<exists>e k'. czet_rewrite_binary_op (ex_ctx ''plus'' ex_type) PLUS_EXPR (T_operand VAR_DECL 3 ex_type) (T_operand CALL_EXPR 4 ex_type) 0
     = (Some e, k') \<and> ev_val ex_meaning e (\<lambda>a. a) = Some (0, (\<lambda>a. a)(100 := 4, 3 := 4))"
proof -
  obtain e k' where e: "czet_rewrite_binary_op (ex_ctx ''plus'' ex_type) PLUS_EXPR (T_operand VAR_DECL 3 ex_type)
      (T_operand CALL_EXPR 4 ex_type) 0 = (Some e, k')"
    by (simp add: czet_rewrite_binary_op_def czet_addressable_operand_def require_complete_type_def Let_def ex_op_defs)
  from rewrite_binary_means [OF this, of ex_meaning "\<lambda>a. a"] e show ?thesis
    by (auto simp: in_order_def pass_operand_def ex_meaning_def ex_op_defs)
qed

subsection \<open>Increment and decrement\<close>

text \<open>An operand without side effects, at address \<open>a\<close>.\<close>

definition plain_lvalue :: "'v meaning \<Rightarrow> nat \<Rightarrow> nat \<Rightarrow> bool" where
  "plain_lvalue S n a \<longleftrightarrow> (\<forall>m. mn_addr S n m = (a, m) \<and> mn_val S n m = (m a, m))"

definition step_overload :: "opctx \<Rightarrow> tree_code \<Rightarrow> texpr \<Rightarrow> fndecl \<Rightarrow> bool" where
  "step_overload cx code e fd \<longleftrightarrow> is_mutating code \<and> czet_operable_type (TREE_TYPE e)
     \<and> czet_lookup_operator (oc_map cx) (tn_main (TREE_TYPE e)) (the (czet_unary_op_suffix code)) = Some fd
     \<and> tn_code (target_of (fd_type fd)) = VOID_TYPE \<and> passable cx e \<and> oc_copyable cx (TREE_TYPE e)"

lemma mutating_suffix: "is_mutating code \<Longrightarrow> \<exists>s. czet_unary_op_suffix code = Some s"
  by (auto simp: is_mutating_def)

lemma addressable_type:
  "czet_addressable_operand cx e k = (Some a, k') \<Longrightarrow> TREE_TYPE a = TREE_TYPE e"
  by (auto simp: czet_addressable_operand_def Let_def split: if_splits)

lemma rewrite_step:
  assumes "step_overload cx code e fd"
  obtains a k0 where "czet_addressable_operand cx e k = (Some a, k0)"
    "\<not> is_postfix code \<Longrightarrow> czet_rewrite_unary_op cx code e k
       = (Some (T_compound (T_call fd [czet_addr_of a]) a (TREE_TYPE e)), k0)"
    "is_postfix code \<Longrightarrow> czet_rewrite_unary_op cx code e k
       = (Some (T_compound (T_compound (T_compound (T_modify (T_tmp k0 (TREE_TYPE e)) a) (T_tmp k0 (TREE_TYPE e)) (TREE_TYPE e))
            (T_call fd [czet_addr_of a]) void_type) (T_tmp k0 (TREE_TYPE e)) (TREE_TYPE e)), k0 + 1)"
proof -
  have "passable cx e" "is_mutating code" using assms by (auto simp: step_overload_def)
  obtain s where s: "czet_unary_op_suffix code = Some s" using mutating_suffix [OF \<open>is_mutating code\<close>] by blast
  obtain a k0 where a: "czet_addressable_operand cx (require_complete_type e) k = (Some a, k0)"
    using addressable_iff [of cx e k] \<open>passable cx e\<close>
    by (cases "czet_addressable_operand cx (require_complete_type e) k") auto
  have rc: "require_complete_type e = e" by (rule addressable_complete [OF a])
  note ty = addressable_type [OF a [unfolded rc]]
  show thesis
    by (rule that [OF a [unfolded rc]])
      (use assms s a rc ty in \<open>auto simp: czet_rewrite_unary_op_def step_overload_def czet_copy_to_temp_def Let_def\<close>)
qed

text \<open>On a plain lvalue the prefix form yields the new value and the postfix form the old one.\<close>

lemma prefix_value:
  assumes "step_overload cx code (T_operand c n t) fd" "\<not> is_postfix code" "czet_lvalue_p (T_operand c n t)"
    and "plain_lvalue S n a"
  shows "\<exists>e k'. czet_rewrite_unary_op cx code (T_operand c n t) k = (Some e, k')
    \<and> ev_val S e m = Some (let m' = snd (mn_fn S (fd_uid fd) [a] m) in (m' a, m'))"
proof -
  obtain x k0 where x: "czet_addressable_operand cx (T_operand c n t) k = (Some x, k0)"
    and e: "czet_rewrite_unary_op cx code (T_operand c n t) k
      = (Some (T_compound (T_call fd [czet_addr_of x]) x (TREE_TYPE (T_operand c n t))), k0)"
    using rewrite_step [OF assms(1), of k] assms(2) by metis
  have "x = T_operand c n t" using x assms(3) by (simp add: czet_addressable_operand_def)
  then show ?thesis
    using e assms(4) by (auto simp: plain_lvalue_def Let_def split: prod.splits)
qed

lemma postfix_value:
  assumes "step_overload cx code (T_operand c n t) fd" "is_postfix code" "czet_lvalue_p (T_operand c n t)"
    and "plain_lvalue S n a" "a \<noteq> mn_tmp S k"
    and "\<And>m. snd (mn_fn S (fd_uid fd) [a] m) (mn_tmp S k) = m (mn_tmp S k)"
  shows "\<exists>e k'. czet_rewrite_unary_op cx code (T_operand c n t) k = (Some e, k')
    \<and> ev_val S e m = Some (m a, snd (mn_fn S (fd_uid fd) [a] (m(mn_tmp S k := m a))))"
proof -
  let ?o = "T_operand c n t"
  obtain x k0 where x: "czet_addressable_operand cx ?o k = (Some x, k0)"
    and e: "czet_rewrite_unary_op cx code ?o k
      = (Some (T_compound (T_compound (T_compound (T_modify (T_tmp k0 (TREE_TYPE ?o)) x) (T_tmp k0 (TREE_TYPE ?o)) (TREE_TYPE ?o))
            (T_call fd [czet_addr_of x]) void_type) (T_tmp k0 (TREE_TYPE ?o)) (TREE_TYPE ?o)), k0 + 1)"
    using rewrite_step [OF assms(1), of k] assms(2) by metis
  have "x = ?o" "k0 = k" using x assms(3) by (auto simp: czet_addressable_operand_def)
  moreover have "snd (mn_fn S (fd_uid fd) [a] (m(mn_tmp S k := m a))) (mn_tmp S k) = m a"
    by (simp add: assms(6))
  ultimately show ?thesis
    using e assms(4,5) by (auto simp: plain_lvalue_def split: prod.splits)
qed

text \<open>
  An overloaded increment or decrement of a plain lvalue calls the overload once on the
  operand; the prefix form yields the new value and the postfix form the value before.
\<close>

theorem step_value:
  assumes "step_overload cx code (T_operand c n t) fd" "czet_lvalue_p (T_operand c n t)" "plain_lvalue S n a"
    and "a \<noteq> mn_tmp S k" "\<forall>m. snd (mn_fn S (fd_uid fd) [a] m) (mn_tmp S k) = m (mn_tmp S k)"
  shows "\<exists>e k'. czet_rewrite_unary_op cx code (T_operand c n t) k = (Some e, k')
    \<and> ev_val S e m = Some (if is_postfix code
        then (m a, snd (mn_fn S (fd_uid fd) [a] (m(mn_tmp S k := m a))))
        else (let m' = snd (mn_fn S (fd_uid fd) [a] m) in (m' a, m')))"
  using prefix_value [OF assms(1) _ assms(2,3), of k m] postfix_value [OF assms(1) _ assms(2-4) assms(5) [rule_format], of m]
  by (cases "is_postfix code") simp_all

theorem step_value_witness:
  "\<exists>e k'. czet_rewrite_unary_op (ex_ctx ''pp'' void_type) POSTINCREMENT_EXPR (T_operand VAR_DECL 3 ex_type) 0 = (Some e, k')
     \<and> ev_val ex_meaning e (\<lambda>a. a) = Some (3, (\<lambda>a. a)(100 := 3, 3 := 4))"
proof -
  have s: "step_overload (ex_ctx ''pp'' void_type) POSTINCREMENT_EXPR (T_operand VAR_DECL 3 ex_type) (ex_fd void_type)"
    by (simp add: step_overload_def is_mutating_def passable_def ex_op_defs)
  have l: "czet_lvalue_p (T_operand VAR_DECL 3 ex_type)" by (simp add: czet_lvalue_p_def)
  have p: "plain_lvalue ex_meaning 3 3" by (simp add: plain_lvalue_def ex_meaning_def)
  from step_value [OF s l p, of 0 "\<lambda>a. a"] show ?thesis
    by (simp add: ex_meaning_def is_postfix_def)
qed

text \<open>
  On a value that is not an lvalue the prefix form evaluates the operand a second time and
  yields that value: the step of the overload is lost.
\<close>

theorem prefix_rvalue:
  assumes "step_overload cx code (T_operand c n t) fd" "\<not> is_postfix code" "\<not> czet_lvalue_p (T_operand c n t)"
  shows "\<exists>e k'. czet_rewrite_unary_op cx code (T_operand c n t) k = (Some e, k')
    \<and> ev_val S e m =
        (case mn_val S n m of (v, m1) \<Rightarrow>
         case mn_fn S (fd_uid fd) [mn_tmp S k] (m1(mn_tmp S k := v)) of (_, m2) \<Rightarrow>
         case mn_val S n m2 of (w, m3) \<Rightarrow> Some (w, m3(mn_tmp S k := w)))"
proof -
  let ?o = "T_operand c n t"
  obtain x k0 where x: "czet_addressable_operand cx ?o k = (Some x, k0)"
    and e: "czet_rewrite_unary_op cx code ?o k = (Some (T_compound (T_call fd [czet_addr_of x]) x (TREE_TYPE ?o)), k0)"
    using rewrite_step [OF assms(1), of k] assms(2) by metis
  have "x = T_compound (T_modify (T_tmp k t) ?o) (T_tmp k t) t"
    using x assms(3) by (auto simp: czet_addressable_operand_def Let_def split: if_splits)
  then show ?thesis using e by (auto split: prod.splits)
qed

theorem prefix_rvalue_witness:
  "\<exists>e k'. czet_rewrite_unary_op (ex_ctx ''pp'' void_type) PREINCREMENT_EXPR (T_operand CALL_EXPR 3 ex_type) 0 = (Some e, k')
     \<and> ev_val ex_meaning e (\<lambda>a. a) = Some (3, (\<lambda>a. a)(100 := 3))"
proof -
  have s: "step_overload (ex_ctx ''pp'' void_type) PREINCREMENT_EXPR (T_operand CALL_EXPR 3 ex_type) (ex_fd void_type)"
    by (simp add: step_overload_def is_mutating_def passable_def ex_op_defs)
  from prefix_rvalue [OF s, of 0 ex_meaning "\<lambda>a. a"] show ?thesis
    by (simp add: ex_meaning_def is_postfix_def czet_lvalue_p_def)
qed

subsection \<open>Assignments\<close>

text \<open>
  An overloaded assignment, plain or compound, becomes the bare call: the dereference of a
  compound assignment is guarded by the type of the function declaration, which is a function type.
\<close>

theorem rewrite_modify_call:
  assumes "czet_rewrite_modify_expr cx lhs code rhs k = (Some e, k')"
    and "\<forall>t s fd. czet_lookup_operator (oc_map cx) t s = Some fd \<longrightarrow> tn_code (fd_type fd) = FUNCTION_TYPE"
  shows "\<exists>fd as. e = T_call fd as"
  using assms unfolding czet_rewrite_modify_expr_def Let_def POINTER_TYPE_P_def
  by (auto split: option.splits if_splits prod.splits)

theorem rewrite_modify_call_witness:
  "\<exists>fd as. T_call (ex_fd (pointer_to ex_type)) [T_addr (T_operand VAR_DECL 3 ex_type), T_addr (T_operand VAR_DECL 4 ex_type)]
     = T_call fd as"
proof -
  let ?cx = "ex_ctx ''plus_assign'' (pointer_to ex_type)"
  have e: "czet_rewrite_modify_expr ?cx (T_operand VAR_DECL 3 ex_type) PLUS_EXPR (T_operand VAR_DECL 4 ex_type) 0
    = (Some (T_call (ex_fd (pointer_to ex_type)) [T_addr (T_operand VAR_DECL 3 ex_type), T_addr (T_operand VAR_DECL 4 ex_type)]), 0)"
    by (simp add: czet_rewrite_modify_expr_def czet_compound_op_suffix_def czet_addressable_operand_def POINTER_TYPE_P_def
        require_complete_type_def Let_def ex_op_defs)
  show ?thesis by (rule rewrite_modify_call [OF e]) (auto simp: ex_op_defs split: option.splits if_splits)
qed

text \<open>
  The overload gets the address of the left side itself and passes the right side like any other
  operand.
\<close>

lemma rewrite_modify_means:
  assumes "czet_rewrite_modify_expr cx (T_operand c n t) code rhs k = (Some e, k')"
    and "\<And>t s fd. czet_lookup_operator (oc_map cx) t s = Some fd \<Longrightarrow> tn_code (fd_type fd) = FUNCTION_TYPE"
    and "tn_complete t"
  obtains fd where "czet_lvalue_p (T_operand c n t)"
    "czet_lookup_operator (oc_map cx) (tn_main t)
       (if code = NOP_EXPR then ''assign'' else the (czet_compound_op_suffix code)) = Some fd"
    "\<And>(S :: 'v meaning) m. ev_val S e m =
       (case in_order (mn_rev S) (\<lambda>m. Some (mn_addr S n m)) (pass_operand S rhs k) m of
          None \<Rightarrow> None
        | Some ((p0, p1), m') \<Rightarrow> Some (mn_fn S (fd_uid fd) [p0, p1] m'))"
proof -
  let ?o = "T_operand c n t"
  obtain fd a k1 where fd: "czet_lookup_operator (oc_map cx) (tn_main t)
       (if code = NOP_EXPR then ''assign'' else the (czet_compound_op_suffix code)) = Some fd"
    and lv: "czet_lvalue_p ?o"
    and a: "czet_addressable_operand cx (require_complete_type rhs) k = (Some a, k1)"
    and e: "e = T_call fd [T_addr (require_complete_type ?o), czet_addr_of a]"
    using assms(1,2) unfolding czet_rewrite_modify_expr_def Let_def POINTER_TYPE_P_def
    by (auto split: option.splits if_splits prod.splits)
  have rc: "require_complete_type ?o = ?o" using assms(3) by (simp add: require_complete_type_def)
  have pa: "ev_ptr S (czet_addr_of a) = pass_operand S rhs k" for S :: "'v meaning"
    using addressable_passes [OF a, of S] addressable_complete [OF a] by auto
  have addr: "ev_ptr S (T_addr ?o) = (\<lambda>m. Some (mn_addr S n m))" for S :: "'v meaning" by auto
  show thesis
    by (rule that [OF lv fd]) (simp add: e rc pa addr split: option.split prod.split)
qed

subsection \<open>From the definition to the use\<close>

text \<open>
  After \<^verbatim>\<open>_Operator (T, "op")\<close> has been compiled, an application of that operator to two complete
  lvalues of the type becomes a call of the overload.
\<close>

theorem define_then_use:
  assumes "define_operator h m ret t op ps = (errs, m', Some fd, ps')"
    and "binary_spelling code = Some op" "tn_self t = tn_main t" "czet_operable_type t" "tn_complete t"
    and "oc_map cx = m'" "oc_comptypes cx (tn_main t) (tn_main t)"
    and "czet_lvalue_p (T_operand c0 n0 t)" "czet_lvalue_p (T_operand c1 n1 t)"
  shows "czet_rewrite_binary_op cx code (T_operand c0 n0 t) (T_operand c1 n1 t) k
    = (Some (T_call fd [T_addr (T_operand c0 n0 t), T_addr (T_operand c1 n1 t)]), k)"
  using assms(1)
proof (cases rule: define_operator_cases)
  case (defined fd' suffix)
  have "czet_binary_op_suffix code = Some suffix" using binary_suffix_agrees [OF assms(2)] defined(2) by simp
  moreover have "czet_lookup_operator m' (tn_main t) suffix = Some fd"
    using defined(1,5) assms(3) by (simp add: lookup_register)
  ultimately show ?thesis
    using assms by (simp add: czet_rewrite_binary_op_def require_complete_type_def czet_addressable_operand_def)
qed simp

theorem define_then_use_witness:
  "\<exists>m' cx. define_operator ex_hooks Map.empty ex_type ex_type ''+'' ex_input = ([], m', Some (ex_fd ex_type), ex_input)
     \<and> oc_map cx = m'
     \<and> czet_rewrite_binary_op cx PLUS_EXPR (T_operand VAR_DECL 3 ex_type) (T_operand VAR_DECL 4 ex_type) 0
         = (Some (T_call (ex_fd ex_type) [T_addr (T_operand VAR_DECL 3 ex_type), T_addr (T_operand VAR_DECL 4 ex_type)]), 0)"
proof -
  let ?m = "czet_register_operator Map.empty 7 ''plus'' (ex_fd ex_type)"
  let ?cx = "\<lparr>oc_map = ?m, oc_cfun = True, oc_comptypes = (=), oc_copyable = (\<lambda>t. True)\<rparr>"
  have u: "\<not> op_unsupported ''+''" "czet_operator_mangle_suffix ''+'' False = ''plus''" "\<not> czet_operator_is_unary ''+''"
    "\<not> czet_operator_is_unary_mutating ''+''" "\<not> czet_operator_is_assign ''+''"
    by code_simp+
  have d: "define_operator ex_hooks Map.empty ex_type ex_type ''+'' ex_input = ([], ?m, Some (ex_fd ex_type), ex_input)"
    using u by (simp add: define_operator_def ex_hooks_def czet_lookup_operator_def Let_def) (simp add: ex_type_def)
  from define_then_use [OF d, of PLUS_EXPR ?cx VAR_DECL 3 VAR_DECL 4 0] d show ?thesis
    by (intro exI [of _ ?m] exI [of _ ?cx] conjI) (simp_all add: ex_type_def czet_operable_type_def czet_lvalue_p_def)
qed

text \<open>The names of the generated functions do not clash, as long as they are not cut off.\<close>

definition op_suffixes :: "string set" where
  "op_suffixes = set (map od_mangle czet_operator_defs)"

lemma suffix_shape: "s \<in> op_suffixes \<Longrightarrow> s \<noteq> [] \<and> hd s \<noteq> CHR ''_'' \<and> (\<forall>i. Suc i < length s \<longrightarrow> \<not> (s ! i = CHR ''_'' \<and> s ! Suc i = CHR ''_''))"
proof -
  have "\<forall>s \<in> op_suffixes. s \<noteq> [] \<and> hd s \<noteq> CHR ''_''
      \<and> list_all (\<lambda>i. \<not> (s ! i = CHR ''_'' \<and> s ! Suc i = CHR ''_'')) [0..<length s - 1]"
    by code_simp
  moreover assume "s \<in> op_suffixes"
  ultimately show ?thesis by (auto simp: list_all_iff)
qed

lemma suffix_split:
  assumes "tn1 @ ''__'' @ s1 = tn2 @ ''__'' @ s2" "s2 \<in> op_suffixes" "length s1 \<le> length s2"
  shows "s1 = s2"
proof (rule ccontr)
  assume "s1 \<noteq> s2"
  have len: "length tn1 + length s1 = length tn2 + length s2" using arg_cong [OF assms(1), of length] by simp
  have "length s1 \<noteq> length s2"
    using assms(1) len \<open>s1 \<noteq> s2\<close> by (auto simp: append_eq_append_conv)
  then have "length tn2 < length tn1" using assms(3) len by linarith
  then obtain us where us: "''__'' @ s2 = us @ ''__'' @ s1" "us \<noteq> []"
    using assms(1) that [OF sym] by (auto simp: append_eq_append_conv2)
  from us(2) obtain u us1 where u: "us = u # us1" by (cases us) auto
  then have s2: "CHR ''_'' # s2 = us1 @ ''__'' @ s1" using us(1) by auto
  show False
  proof (cases us1)
    case Nil
    with s2 suffix_shape [OF assms(2)] show ?thesis by auto
  next
    case (Cons v us2)
    then have "s2 = us2 @ ''__'' @ s1" using s2 by simp
    then have "s2 ! length us2 = CHR ''_''" "s2 ! Suc (length us2) = CHR ''_''" "Suc (length us2) < length s2"
      by (simp_all add: nth_append)
    with suffix_shape [OF assms(2)] show ?thesis by blast
  qed
qed

definition type_label :: "type_node \<Rightarrow> string" where
  "type_label t = (case tn_name t of
     Ident_name s \<Rightarrow> s | Decl_name (Some s) \<Rightarrow> s | Decl_name None \<Rightarrow> ''t'' | No_name \<Rightarrow> ''t'')"

text \<open>
  The functions generated for different types or operators have different names, as long as
  the names are not cut off at 255 characters.
\<close>

theorem mangled_name_inject:
  assumes "czet_operator_mangled_name t1 s1 = czet_operator_mangled_name t2 s2"
    and "s1 \<in> op_suffixes" "s2 \<in> op_suffixes"
    and "length (type_label t1) + length s1 \<le> 241" "length (type_label t2) + length s2 \<le> 241"
  shows "type_label t1 = type_label t2 \<and> s1 = s2"
proof -
  have "czet_operator_mangled_name t s = ''__operator__'' @ type_label t @ ''__'' @ s"
    if "length (type_label t) + length s \<le> 241" for t s
    using that by (simp add: czet_operator_mangled_name_def type_label_def Let_def)
  then have eq: "type_label t1 @ ''__'' @ s1 = type_label t2 @ ''__'' @ s2" using assms by simp
  have "s1 = s2"
    using suffix_split [OF eq assms(3)] suffix_split [OF eq [symmetric] assms(2)] by (cases "length s1 \<le> length s2") auto
  with eq show ?thesis by simp
qed

theorem mangled_name_inject_witness:
  "czet_operator_mangled_name ex_type ''plus'' \<noteq> czet_operator_mangled_name ex_type ''minus''"
proof
  assume "czet_operator_mangled_name ex_type ''plus'' = czet_operator_mangled_name ex_type ''minus''"
  moreover have "''plus'' \<in> op_suffixes" "''minus'' \<in> op_suffixes" by code_simp+
  ultimately show False
    using mangled_name_inject [of ex_type "''plus''" ex_type "''minus''"] by (simp add: type_label_def ex_type_def)
qed

end
