(* ===== verification/Constexpr.thy ===== *)
theory Constexpr
  imports Czet_Prelude
begin

text \<open>
  The compile-time evaluator of CZet constexpr functions in c-fold.cc.  Expressions are constants,
  declarations and applications of operators; GCC's own folder (\<^verbatim>\<open>c_fully_fold_internal\<close>,
  \<^verbatim>\<open>TREE_CONSTANT\<close>, \<^verbatim>\<open>integer_zerop\<close>, \<^verbatim>\<open>fold_build2\<close> for the step of an increment) is a parameter.  The loop
  over the statements has no bound in the source: the model takes fuel, and \<open>None\<close> is an evaluation
  that has not ended.  The reference semantics \<open>runs\<close> executes the same statements at run time: a
  variable holds a value or none, automatic variables have none when their block is entered and after a
  declaration without initializer, static variables keep theirs from call to call, and an evaluation
  that needs a missing value, or that C leaves undefined, has the outcome \<open>Undefined\<close>.
\<close>

subsection \<open>Trees\<close>

datatype expr = E_const int | E_decl nat | E_op nat "expr list"

datatype place = P_result | P_var nat | P_other

datatype storage = Automatic | Static_storage | No_variable

datatype stmt =
    S_null
  | S_label nat
  | S_goto nat
  | S_cond expr "stmt option" "stmt option"
  | S_decl nat storage "expr option"
  | S_modify place expr
  | S_step place bool
  | S_bind "(nat \<times> storage \<times> expr option) list" "stmt option"
  | S_list "stmt list"
  | S_return "(bool \<times> expr) option"
  | S_other

text \<open>
  \<open>S_decl x k i\<close> declares \<open>x\<close>, a variable with automatic or static storage or another declaration, with
  initializer \<open>i\<close>; the evaluator only asks \<^verbatim>\<open>VAR_P\<close>, which holds for both storage classes.  \<open>S_step p inc\<close> is one of
  the four increments and decrements; the operand of a return is a value, with the flag set when it
  is an assignment to the result whose right side is that value.
\<close>

definition VAR_P :: "storage \<Rightarrow> bool" where
  "VAR_P k \<longleftrightarrow> k \<noteq> No_variable"

record folder =
  fo_fold :: "expr \<Rightarrow> expr"
  fo_constant :: "expr \<Rightarrow> bool"
  fo_zerop :: "expr \<Rightarrow> bool"
  fo_plus :: "expr \<Rightarrow> int \<Rightarrow> expr"

type_synonym cx_env = "nat \<rightharpoonup> expr"

datatype c_fold_cx_status = CX_FAILED | CX_FINISHED | CX_RETURNED expr

subsection \<open>The evaluator\<close>

fun c_fold_cx_subst :: "cx_env \<Rightarrow> expr \<Rightarrow> expr" where
  "c_fold_cx_subst env (E_const i) = E_const i"
| "c_fold_cx_subst env (E_decl x) = (case env x of None \<Rightarrow> E_decl x | Some v \<Rightarrow> v)"
| "c_fold_cx_subst env (E_op k es) = E_op k (map (c_fold_cx_subst env) es)"

definition c_fold_cx_eval :: "folder \<Rightarrow> cx_env \<Rightarrow> expr \<Rightarrow> expr option" where
  "c_fold_cx_eval F env e =
     (let r = fo_fold F (c_fold_cx_subst env e) in if fo_constant F r then Some r else None)"

definition stmts_of :: "stmt option \<Rightarrow> stmt list" where
  "stmts_of s = (case s of None \<Rightarrow> [] | Some (S_list xs) \<Rightarrow> xs | Some x \<Rightarrow> [x])"

text \<open>The label map: a later label statement overrides an earlier one.\<close>

fun label_at :: "stmt list \<Rightarrow> nat \<Rightarrow> nat \<Rightarrow> nat option \<Rightarrow> nat option" where
  "label_at [] i l r = r"
| "label_at (s # ss) i l r = label_at ss (i + 1) l (if s = S_label l then Some i else r)"

definition label_index :: "stmt list \<Rightarrow> nat \<Rightarrow> nat option" where
  "label_index ss l = label_at ss 0 l None"

text \<open>The initializers of the variables of a block; \<open>None\<close> when one is not constant.\<close>

fun bind_vars :: "folder \<Rightarrow> (nat \<times> storage \<times> expr option) list \<Rightarrow> cx_env \<Rightarrow> cx_env option" where
  "bind_vars F [] env = Some env"
| "bind_vars F ((x, k, i) # vs) env =
     (case (VAR_P k, i) of
        (True, Some e) \<Rightarrow> (case c_fold_cx_eval F env e of None \<Rightarrow> None | Some c \<Rightarrow> bind_vars F vs (env(x \<mapsto> c)))
      | _ \<Rightarrow> bind_vars F vs env)"

text \<open>The target of a branch of a condition: only a \<^verbatim>\<open>goto\<close> to a label of the same list.\<close>

definition branch_target :: "stmt list \<Rightarrow> stmt option \<Rightarrow> nat option" where
  "branch_target ss s = (case s of Some (S_goto l) \<Rightarrow> label_index ss l | _ \<Rightarrow> None)"

text \<open>\<open>cx_loop F n ss pc env\<close>: the loop of \<^verbatim>\<open>c_fold_cx_exec\<close> at statement \<open>pc\<close> of the list.\<close>

fun cx_loop :: "folder \<Rightarrow> nat \<Rightarrow> stmt list \<Rightarrow> nat \<Rightarrow> cx_env \<Rightarrow> (c_fold_cx_status \<times> cx_env) option" where
  "cx_loop F 0 ss pc env = None"
| "cx_loop F (Suc n) ss pc env =
     (if length ss \<le> pc then Some (CX_FINISHED, env)
      else (case ss ! pc of
        S_null \<Rightarrow> cx_loop F n ss (pc + 1) env
      | S_label l \<Rightarrow> cx_loop F n ss (pc + 1) env
      | S_goto l \<Rightarrow> (case label_index ss l of None \<Rightarrow> Some (CX_FAILED, env) | Some i \<Rightarrow> cx_loop F n ss i env)
      | S_cond c th el \<Rightarrow>
          (case c_fold_cx_eval F env c of
             None \<Rightarrow> Some (CX_FAILED, env)
           | Some v \<Rightarrow>
               (case branch_target ss (if fo_zerop F v then el else th) of
                  None \<Rightarrow> Some (CX_FAILED, env) | Some i \<Rightarrow> cx_loop F n ss i env))
      | S_decl x k ini \<Rightarrow>
          (case (VAR_P k, ini) of
             (True, Some e) \<Rightarrow>
               (case c_fold_cx_eval F env e of
                  None \<Rightarrow> Some (CX_FAILED, env) | Some c \<Rightarrow> cx_loop F n ss (pc + 1) (env(x \<mapsto> c)))
           | _ \<Rightarrow> cx_loop F n ss (pc + 1) env)
      | S_modify p e \<Rightarrow>
          (case c_fold_cx_eval F env e of
             None \<Rightarrow> Some (CX_FAILED, env)
           | Some c \<Rightarrow>
               (case p of
                  P_result \<Rightarrow> cx_loop F n ss (pc + 1) env
                | P_var x \<Rightarrow>
                    if env x \<noteq> None then cx_loop F n ss (pc + 1) (env(x \<mapsto> c)) else Some (CX_FAILED, env)
                | P_other \<Rightarrow> Some (CX_FAILED, env)))
      | S_step p inc \<Rightarrow>
          (case p of
             P_var x \<Rightarrow>
               (case env x of
                  None \<Rightarrow> Some (CX_FAILED, env)
                | Some v \<Rightarrow>
                    (case c_fold_cx_eval F env (fo_plus F v (if inc then 1 else -1)) of
                       None \<Rightarrow> Some (CX_FAILED, env)
                     | Some c \<Rightarrow> cx_loop F n ss (pc + 1) (env(x \<mapsto> c))))
           | _ \<Rightarrow> Some (CX_FAILED, env))
      | S_bind vs body \<Rightarrow>
          (case bind_vars F vs env of
             None \<Rightarrow> Some (CX_FAILED, env)
           | Some env1 \<Rightarrow>
               (case cx_loop F n (stmts_of body) 0 env1 of
                  None \<Rightarrow> None
                | Some (CX_FINISHED, env2) \<Rightarrow> cx_loop F n ss (pc + 1) env2
                | Some r \<Rightarrow> Some r))
      | S_list xs \<Rightarrow>
          (case cx_loop F n xs 0 env of
             None \<Rightarrow> None
           | Some (CX_FINISHED, env2) \<Rightarrow> cx_loop F n ss (pc + 1) env2
           | Some r \<Rightarrow> Some r)
      | S_return r \<Rightarrow>
          (case r of
             None \<Rightarrow> Some (CX_FAILED, env)
           | Some (_, e) \<Rightarrow>
               (case c_fold_cx_eval F env e of
                  None \<Rightarrow> Some (CX_FAILED, env) | Some c \<Rightarrow> Some (CX_RETURNED c, env)))
      | S_other \<Rightarrow> Some (CX_FAILED, env)))"

definition c_fold_cx_exec :: "folder \<Rightarrow> nat \<Rightarrow> stmt option \<Rightarrow> cx_env \<Rightarrow> (c_fold_cx_status \<times> cx_env) option" where
  "c_fold_cx_exec F n stms env = cx_loop F n (stmts_of stms) 0 env"

declare cx_loop.simps [simp del]

record cx_fndecl =
  cf_constexpr :: bool
  cf_params :: "nat list"
  cf_body :: "stmt option"

fun bind_args :: "folder \<Rightarrow> nat list \<Rightarrow> expr list \<Rightarrow> cx_env \<Rightarrow> cx_env option" where
  "bind_args F (p # ps) (a # as) env =
     (let r = fo_fold F a in if fo_constant F r then bind_args F ps as (env(p \<mapsto> r)) else None)"
| "bind_args F ps as env = Some env"

text \<open>
  The call \<open>f (args)\<close>, \<open>None\<close> for a callee that is not the address of a function; the outer \<open>None\<close> of
  the result is an evaluation that has not ended, the inner one \<^verbatim>\<open>NULL_TREE\<close>.
\<close>

definition c_fold_constexpr_call :: "folder \<Rightarrow> nat \<Rightarrow> cx_fndecl option \<Rightarrow> expr list \<Rightarrow> expr option option" where
  "c_fold_constexpr_call F n callee args =
     (case callee of
        None \<Rightarrow> Some None
      | Some fd \<Rightarrow>
          if \<not> cf_constexpr fd then Some None
          else if cf_body fd = None then Some None
          else if length args \<noteq> length (cf_params fd) then Some None
          else (case bind_args F (cf_params fd) args Map.empty of
                  None \<Rightarrow> Some None
                | Some env \<Rightarrow>
                    (case c_fold_cx_exec F n (cf_body fd) env of
                       None \<Rightarrow> None
                     | Some (CX_RETURNED v, _) \<Rightarrow> Some (Some v)
                     | Some _ \<Rightarrow> Some None)))"

subsection \<open>Run-time meaning\<close>

text \<open>
  An operation gets the values of its operands, \<open>None\<close> for an operand without value, and has none itself
  where C leaves it undefined; an operator that does not look at an operand may do without its value.
\<close>

record 'v vsem =
  vs_const :: "int \<Rightarrow> 'v"
  vs_op :: "nat \<Rightarrow> 'v option list \<Rightarrow> 'v option"
  vs_zero :: "'v \<Rightarrow> bool"
  vs_plus :: "'v \<Rightarrow> int \<Rightarrow> 'v option"

fun ev :: "'v vsem \<Rightarrow> (nat \<rightharpoonup> 'v) \<Rightarrow> expr \<Rightarrow> 'v option" where
  "ev V \<rho> (E_const i) = Some (vs_const V i)"
| "ev V \<rho> (E_decl x) = \<rho> x"
| "ev V \<rho> (E_op k es) = vs_op V k (map (ev V \<rho>) es)"

datatype 'v outcome = Falls "nat \<rightharpoonup> 'v" | Returns 'v | Undefined

definition set_var :: "nat \<Rightarrow> 'v option \<Rightarrow> (nat \<rightharpoonup> 'v) \<Rightarrow> (nat \<rightharpoonup> 'v) option" where
  "set_var x v \<rho> = (case v of None \<Rightarrow> None | Some w \<Rightarrow> Some (\<rho>(x \<mapsto> w)))"

text \<open>
  The statements that do not transfer control: the outer option is \<open>None\<close> for any other statement, the
  inner one for an undefined execution.
\<close>

definition simple_step :: "'v vsem \<Rightarrow> stmt \<Rightarrow> (nat \<rightharpoonup> 'v) \<Rightarrow> (nat \<rightharpoonup> 'v) option option" where
  "simple_step V s \<rho> =
     (case s of
        S_null \<Rightarrow> Some (Some \<rho>)
      | S_label l \<Rightarrow> Some (Some \<rho>)
      | S_decl x k ini \<Rightarrow>
          Some (if k = Automatic then (case ini of None \<Rightarrow> Some (\<rho>(x := None)) | Some e \<Rightarrow> set_var x (ev V \<rho> e) \<rho>) else Some \<rho>)
      | S_modify p e \<Rightarrow>
          (case p of P_var x \<Rightarrow> Some (set_var x (ev V \<rho> e) \<rho>)
           | P_result \<Rightarrow> Some (case ev V \<rho> e of None \<Rightarrow> None | Some v \<Rightarrow> Some \<rho>)
           | P_other \<Rightarrow> None)
      | S_step p inc \<Rightarrow>
          (case p of
             P_var x \<Rightarrow> Some (case \<rho> x of None \<Rightarrow> None | Some v \<Rightarrow> set_var x (vs_plus V v (if inc then 1 else -1)) \<rho>)
           | _ \<Rightarrow> None)
      | _ \<Rightarrow> None)"

text \<open>Entering a block: its automatic variables begin to live, without a value.\<close>

definition enter :: "(nat \<times> storage \<times> expr option) list \<Rightarrow> (nat \<rightharpoonup> 'v) \<Rightarrow> (nat \<rightharpoonup> 'v)" where
  "enter vs \<rho> = (\<lambda>x. if \<exists>i. (x, Automatic, i) \<in> set vs then None else \<rho> x)"

fun is_falls :: "'v outcome \<Rightarrow> bool" where
  "is_falls (Falls \<rho>) = True"
| "is_falls _ = False"

inductive runs :: "'v vsem \<Rightarrow> stmt list \<Rightarrow> nat \<Rightarrow> (nat \<rightharpoonup> 'v) \<Rightarrow> 'v outcome \<Rightarrow> bool" for V where
  fall: "length ss \<le> pc \<Longrightarrow> runs V ss pc \<rho> (Falls \<rho>)"
| simple: "pc < length ss \<Longrightarrow> simple_step V (ss ! pc) \<rho> = Some (Some \<rho>') \<Longrightarrow> runs V ss (pc + 1) \<rho>' r
    \<Longrightarrow> runs V ss pc \<rho> r"
| simple_undef: "pc < length ss \<Longrightarrow> simple_step V (ss ! pc) \<rho> = Some None \<Longrightarrow> runs V ss pc \<rho> Undefined"
| jump: "pc < length ss \<Longrightarrow> ss ! pc = S_goto l \<Longrightarrow> label_index ss l = Some i \<Longrightarrow> runs V ss i \<rho> r
    \<Longrightarrow> runs V ss pc \<rho> r"
| cond: "pc < length ss \<Longrightarrow> ss ! pc = S_cond c th el \<Longrightarrow> ev V \<rho> c = Some v
    \<Longrightarrow> branch_target ss (if vs_zero V v then el else th) = Some i \<Longrightarrow> runs V ss i \<rho> r
    \<Longrightarrow> runs V ss pc \<rho> r"
| cond_undef: "pc < length ss \<Longrightarrow> ss ! pc = S_cond c th el \<Longrightarrow> ev V \<rho> c = None \<Longrightarrow> runs V ss pc \<rho> Undefined"
| block: "pc < length ss \<Longrightarrow> ss ! pc = S_bind vs body \<Longrightarrow> runs V (stmts_of body) 0 (enter vs \<rho>) (Falls \<rho>'')
    \<Longrightarrow> runs V ss (pc + 1) \<rho>'' r \<Longrightarrow> runs V ss pc \<rho> r"
| block_stop: "pc < length ss \<Longrightarrow> ss ! pc = S_bind vs body \<Longrightarrow> runs V (stmts_of body) 0 (enter vs \<rho>) r
    \<Longrightarrow> \<not> is_falls r \<Longrightarrow> runs V ss pc \<rho> r"
| nested: "pc < length ss \<Longrightarrow> ss ! pc = S_list xs \<Longrightarrow> runs V xs 0 \<rho> (Falls \<rho>'')
    \<Longrightarrow> runs V ss (pc + 1) \<rho>'' r \<Longrightarrow> runs V ss pc \<rho> r"
| nested_stop: "pc < length ss \<Longrightarrow> ss ! pc = S_list xs \<Longrightarrow> runs V xs 0 \<rho> r \<Longrightarrow> \<not> is_falls r
    \<Longrightarrow> runs V ss pc \<rho> r"
| ret: "pc < length ss \<Longrightarrow> ss ! pc = S_return (Some (b, e)) \<Longrightarrow> ev V \<rho> e = Some v \<Longrightarrow> runs V ss pc \<rho> (Returns v)"
| ret_undef: "pc < length ss \<Longrightarrow> ss ! pc = S_return (Some (b, e)) \<Longrightarrow> ev V \<rho> e = None \<Longrightarrow> runs V ss pc \<rho> Undefined"

lemma simple_step_kinds [simp]:
  "simple_step V (S_goto l) \<rho> = None" "simple_step V (S_cond c th el) \<rho> = None" "simple_step V (S_bind vs body) \<rho> = None"
  "simple_step V (S_list xs) \<rho> = None" "simple_step V (S_return o_e) \<rho> = None"
  by (simp_all add: simple_step_def)

text \<open>What a run does at each statement.\<close>

fun goes_on :: "'v vsem \<Rightarrow> stmt list \<Rightarrow> nat \<Rightarrow> 'v outcome \<Rightarrow> 'v outcome \<Rightarrow> bool" where
  "goes_on V ss pc (Falls \<rho>) r = runs V ss pc \<rho> r"
| "goes_on V ss pc q r = (r = q)"

lemma runs_end: "length ss \<le> pc \<Longrightarrow> runs V ss pc \<rho> r \<longleftrightarrow> r = Falls \<rho>"
  by (subst runs.simps) auto

lemma runs_simple:
  "pc < length ss \<Longrightarrow> simple_step V (ss ! pc) \<rho> = Some q \<Longrightarrow>
     runs V ss pc \<rho> r \<longleftrightarrow> (case q of None \<Rightarrow> r = Undefined | Some \<rho>' \<Rightarrow> runs V ss (pc + 1) \<rho>' r)"
  by (subst runs.simps) (auto split: option.split)

lemma runs_goto:
  "pc < length ss \<Longrightarrow> ss ! pc = S_goto l \<Longrightarrow> runs V ss pc \<rho> r \<longleftrightarrow> (\<exists>i. label_index ss l = Some i \<and> runs V ss i \<rho> r)"
  by (subst runs.simps) auto

lemma runs_cond:
  "pc < length ss \<Longrightarrow> ss ! pc = S_cond c th el \<Longrightarrow> runs V ss pc \<rho> r \<longleftrightarrow>
     (case ev V \<rho> c of None \<Rightarrow> r = Undefined
      | Some v \<Rightarrow> \<exists>i. branch_target ss (if vs_zero V v then el else th) = Some i \<and> runs V ss i \<rho> r)"
  by (subst runs.simps) (auto split: option.split)

lemma runs_return:
  "pc < length ss \<Longrightarrow> ss ! pc = S_return (Some (b, e)) \<Longrightarrow> runs V ss pc \<rho> r \<longleftrightarrow>
     r = (case ev V \<rho> e of None \<Rightarrow> Undefined | Some v \<Rightarrow> Returns v)"
  by (subst runs.simps) (auto split: option.split)

lemma goes_on_iff: "(\<exists>\<rho>. q = Falls \<rho> \<and> runs V ss pc \<rho> r) \<or> (\<not> is_falls q \<and> r = q) \<longleftrightarrow> goes_on V ss pc q r"
  by (cases q) auto

lemma runs_bind:
  assumes "pc < length ss" "ss ! pc = S_bind vs body"
  shows "runs V ss pc \<rho> r \<longleftrightarrow> (\<exists>q. runs V (stmts_of body) 0 (enter vs \<rho>) q \<and> goes_on V ss (pc + 1) q r)"
  unfolding goes_on_iff [symmetric] using assms by (subst runs.simps) auto

lemma runs_list:
  assumes "pc < length ss" "ss ! pc = S_list xs"
  shows "runs V ss pc \<rho> r \<longleftrightarrow> (\<exists>q. runs V xs 0 \<rho> q \<and> goes_on V ss (pc + 1) q r)"
  unfolding goes_on_iff [symmetric] using assms by (subst runs.simps) auto

text \<open>A run has one outcome.\<close>

lemma runs_det: "runs V ss pc \<rho> r \<Longrightarrow> runs V ss pc \<rho> r' \<Longrightarrow> r' = r"
proof (induction arbitrary: r' rule: runs.induct)
  case (block pc ss vs body \<rho> \<rho>'' r)
  then obtain q where q: "runs V (stmts_of body) 0 (enter vs \<rho>) q" "goes_on V ss (pc + 1) q r'"
    using runs_bind by blast
  from block.IH(1) [OF q(1)] q(2) block.IH(2) show ?case by simp
next
  case (block_stop pc ss vs body \<rho> r)
  then obtain q where q: "runs V (stmts_of body) 0 (enter vs \<rho>) q" "goes_on V ss (pc + 1) q r'"
    using runs_bind by blast
  from block_stop.IH [OF q(1)] q(2) block_stop.hyps(4) show ?case by (cases r) auto
next
  case (nested pc ss xs \<rho> \<rho>'' r)
  then obtain q where q: "runs V xs 0 \<rho> q" "goes_on V ss (pc + 1) q r'"
    using runs_list by blast
  from nested.IH(1) [OF q(1)] q(2) nested.IH(2) show ?case by simp
next
  case (nested_stop pc ss xs \<rho> r)
  then obtain q where q: "runs V xs 0 \<rho> q" "goes_on V ss (pc + 1) q r'"
    using runs_list by blast
  from nested_stop.IH [OF q(1)] q(2) nested_stop.hyps(4) show ?case by (cases r) auto
qed (simp_all add: runs_end runs_simple runs_goto runs_cond runs_return)

subsection \<open>Soundness\<close>

text \<open>An operation that has a value without an operand's value keeps it when the operand has one.\<close>

definition ops_mono :: "'v vsem \<Rightarrow> bool" where
  "ops_mono V \<longleftrightarrow> (\<forall>k as bs v. list_all2 (\<lambda>a b. a = None \<or> a = b) as bs \<longrightarrow> vs_op V k as = Some v \<longrightarrow> vs_op V k bs = Some v)"

text \<open>What is relied on of GCC's folder: a result it calls constant has the value of the tree folded, when that has one.\<close>

definition folder_sound :: "folder \<Rightarrow> 'v vsem \<Rightarrow> bool" where
  "folder_sound F V \<longleftrightarrow>
     (\<forall>e \<rho> v. fo_constant F (fo_fold F e) \<longrightarrow> ev V \<rho> e = Some v \<longrightarrow> ev V \<rho> (fo_fold F e) = Some v)
     \<and> (\<forall>c \<rho> \<rho>'. fo_constant F c \<longrightarrow> ev V \<rho> c = ev V \<rho>' c)
     \<and> (\<forall>c \<rho> v. fo_constant F c \<longrightarrow> ev V \<rho> c = Some v \<longrightarrow> fo_zerop F c = vs_zero V v)
     \<and> (\<forall>c d \<rho> v w. ev V \<rho> c = Some v \<longrightarrow> vs_plus V v d = Some w \<longrightarrow> ev V \<rho> (fo_plus F c d) = Some w)"

lemma folder_soundD:
  assumes "folder_sound F V"
  shows "fo_constant F (fo_fold F e) \<Longrightarrow> ev V \<rho> e = Some v \<Longrightarrow> ev V \<rho> (fo_fold F e) = Some v"
    and "fo_constant F c \<Longrightarrow> ev V \<rho> c = Some v \<Longrightarrow> ev V \<rho>' c = Some v"
    and "fo_constant F c \<Longrightarrow> ev V \<rho> c = Some v \<Longrightarrow> fo_zerop F c = vs_zero V v"
    and "ev V \<rho> c = Some v \<Longrightarrow> vs_plus V v d = Some w \<Longrightarrow> ev V \<rho> (fo_plus F c d) = Some w"
  using assms unfolding folder_sound_def by metis+

text \<open>A variable that has a value at run time has the one the evaluator has recorded.\<close>

definition agrees :: "folder \<Rightarrow> 'v vsem \<Rightarrow> cx_env \<Rightarrow> (nat \<rightharpoonup> 'v) \<Rightarrow> bool" where
  "agrees F V env \<rho> \<longleftrightarrow> (\<forall>x c. env x = Some c \<longrightarrow> fo_constant F c \<and> (\<forall>v \<rho>'. \<rho> x = Some v \<longrightarrow> ev V \<rho>' c = Some v))"

lemma ev_subst:
  assumes "ops_mono V" "agrees F V env \<rho>"
  shows "ev V \<rho> e = Some v \<Longrightarrow> ev V \<rho> (c_fold_cx_subst env e) = Some v"
proof (induction e arbitrary: v)
  case (E_op k es)
  have "ev V \<rho> e = None \<or> ev V \<rho> e = ev V \<rho> (c_fold_cx_subst env e)" if "e \<in> set es" for e
    using E_op.IH [OF that] by (cases "ev V \<rho> e") auto
  then have "list_all2 (\<lambda>a b. a = None \<or> a = b) (map (ev V \<rho>) es) (map (ev V \<rho>) (map (c_fold_cx_subst env) es))"
    by (simp add: list_all2_map1 list_all2_map2 list_all2_same)
  with assms(1) E_op.prems show ?case unfolding ops_mono_def by simp
qed (use assms(2) in \<open>auto simp: agrees_def split: option.split\<close>)

lemma eval_sound:
  assumes "folder_sound F V" "ops_mono V" "agrees F V env \<rho>" "c_fold_cx_eval F env e = Some c"
  shows "fo_constant F c" "ev V \<rho> e = Some v \<Longrightarrow> ev V \<rho>' c = Some v" "ev V \<rho> e = Some v \<Longrightarrow> fo_zerop F c = vs_zero V v"
proof -
  have c: "c = fo_fold F (c_fold_cx_subst env e)" and k: "fo_constant F c"
    using assms(4) by (auto simp: c_fold_cx_eval_def Let_def split: if_splits)
  have e: "ev V \<rho> c = Some v" if "ev V \<rho> e = Some v"
    using folder_soundD(1) [OF assms(1)] k ev_subst [OF assms(2,3) that] unfolding c by blast
  show "fo_constant F c" by (rule k)
  show "ev V \<rho>' c = Some v" if "ev V \<rho> e = Some v" by (rule folder_soundD(2) [OF assms(1) k e [OF that]])
  show "fo_zerop F c = vs_zero V v" if "ev V \<rho> e = Some v" by (rule folder_soundD(3) [OF assms(1) k e [OF that]])
qed

lemma agrees_upd:
  assumes "agrees F V env \<rho>" "fo_constant F c" "\<And>\<rho>'. ev V \<rho>' c = Some v"
  shows "agrees F V (env(x \<mapsto> c)) (\<rho>(x \<mapsto> v))"
  using assms by (auto simp: agrees_def)

lemma agrees_less:
  assumes "agrees F V env \<rho>" "\<And>x. \<rho>' x = None \<or> \<rho>' x = \<rho> x"
  shows "agrees F V env \<rho>'"
  using assms unfolding agrees_def by (metis option.distinct(1))

text \<open>No static variable of the body has an initializer.\<close>

fun static_free :: "stmt \<Rightarrow> bool" where
  "static_free (S_decl x k i) = (k = Static_storage \<longrightarrow> i = None)"
| "static_free (S_bind vs body) =
     (list_all (\<lambda>(x, k, i). k = Static_storage \<longrightarrow> i = None) vs \<and> (case body of None \<Rightarrow> True | Some s \<Rightarrow> static_free s))"
| "static_free (S_list xs) = list_all static_free xs"
| "static_free _ = True"

lemma static_free_stmts: "(case body of None \<Rightarrow> True | Some s \<Rightarrow> static_free s) \<Longrightarrow> list_all static_free (stmts_of body)"
  by (auto simp: stmts_of_def split: option.splits stmt.split)

lemma bind_vars_sound:
  assumes "folder_sound F V" "ops_mono V"
  shows "agrees F V env \<rho> \<Longrightarrow> bind_vars F vs env = Some env' \<Longrightarrow> list_all (\<lambda>(x, k, i). k = Static_storage \<longrightarrow> i = None) vs
    \<Longrightarrow> agrees F V env' (enter vs \<rho>)"
proof (induction vs arbitrary: env \<rho>)
  case Nil
  then show ?case by (simp add: enter_def)
next
  case (Cons d vs)
  obtain x k i where d: "d = (x, k, i)" by (cases d)
  have e: "enter (d # vs) \<rho> = enter vs (if k = Automatic then \<rho>(x := None) else \<rho>)"
    by (auto simp: enter_def d)
  show ?case
  proof (cases "VAR_P k \<and> i \<noteq> None")
    case True
    then obtain e c where c: "c_fold_cx_eval F env e = Some c" "bind_vars F vs (env(x \<mapsto> c)) = Some env'"
      using Cons.prems(2) d by (auto split: option.splits)
    have "k = Automatic" using True Cons.prems(3) d by (cases k) (auto simp: VAR_P_def)
    moreover have "agrees F V (env(x \<mapsto> c)) (\<rho>(x := None))"
      using Cons.prems(1) eval_sound(1) [OF assms Cons.prems(1) c(1)] by (auto simp: agrees_def)
    ultimately show ?thesis using Cons.IH [OF _ c(2), of "\<rho>(x := None)"] Cons.prems(3) e d by (auto simp del: fun_upd_apply)
  next
    case False
    then have "bind_vars F vs env = Some env'" using Cons.prems(2) d by (auto split: bool.splits option.splits)
    moreover have "agrees F V env (if k = Automatic then \<rho>(x := None) else \<rho>)"
      by (rule agrees_less [OF Cons.prems(1)]) simp
    ultimately show ?thesis using Cons.IH [of env] Cons.prems(3) e d by simp
  qed
qed

text \<open>The outcome of the evaluator against an outcome of the reference semantics.\<close>

fun matches :: "folder \<Rightarrow> 'v vsem \<Rightarrow> c_fold_cx_status \<Rightarrow> cx_env \<Rightarrow> 'v outcome \<Rightarrow> bool" where
  "matches F V CX_FINISHED env (Falls \<rho>) = agrees F V env \<rho>"
| "matches F V (CX_RETURNED c) env (Returns v) = (fo_constant F c \<and> (\<forall>\<rho>. ev V \<rho> c = Some v))"
| "matches F V _ _ Undefined = True"
| "matches F V _ _ _ = False"

lemma matches_cases:
  assumes "matches F V st env r"
  obtains \<rho> where "st = CX_FINISHED" "r = Falls \<rho>" "agrees F V env \<rho>"
  | c v where "st = CX_RETURNED c" "r = Returns v" "fo_constant F c" "\<And>\<rho>. ev V \<rho> c = Some v"
  | "r = Undefined"
  using assms by (cases "(F, V, st, env, r)" rule: matches.cases) auto

lemma matches_undef [simp]: "matches F V st env Undefined"
  by (cases st) auto

lemma simple_agrees:
  assumes "folder_sound F V" "ops_mono V" "agrees F V env \<rho>" "pc < length ss" "static_free (ss ! pc)"
    and "cx_loop F (Suc n) ss pc env = Some (st, env')" "st \<noteq> CX_FAILED"
    and "simple_step V (ss ! pc) \<rho> = Some (Some \<rho>1)"
  shows "\<exists>env1. agrees F V env1 \<rho>1 \<and> cx_loop F n ss (pc + 1) env1 = Some (st, env')"
proof (cases "ss ! pc")
  case (S_step p inc)
  with assms obtain x u c where x: "p = P_var x" "env x = Some u"
    "c_fold_cx_eval F env (fo_plus F u (if inc then 1 else -1)) = Some c"
    "cx_loop F n ss (pc + 1) (env(x \<mapsto> c)) = Some (st, env')"
    by (auto simp: cx_loop.simps simple_step_def split: place.splits option.splits)
  obtain v w where v: "\<rho> x = Some v" "vs_plus V v (if inc then 1 else -1) = Some w" "\<rho>1 = \<rho>(x \<mapsto> w)"
    using assms(8) S_step x(1) by (auto simp: simple_step_def set_var_def split: option.splits)
  have "ev V \<rho> u = Some v" using assms(3) x(2) v(1) by (simp add: agrees_def)
  note val = folder_soundD(4) [OF assms(1) this v(2)]
  show ?thesis
    using agrees_upd [OF assms(3) eval_sound(1) [OF assms(1-3) x(3)] eval_sound(2) [OF assms(1-3) x(3) val]] x(4) v(3) by blast
next
  case (S_decl x k ini)
  show ?thesis
  proof (cases "VAR_P k \<and> ini \<noteq> None")
    case True
    then have k: "k = Automatic" using assms(5) S_decl by (cases k) (auto simp: VAR_P_def)
    obtain e where "ini = Some e" using True by auto
    moreover from this True assms(4,6,7) S_decl obtain c where c: "c_fold_cx_eval F env e = Some c"
      "cx_loop F n ss (pc + 1) (env(x \<mapsto> c)) = Some (st, env')"
      by (auto simp: cx_loop.simps split: option.splits)
    ultimately obtain v where v: "ev V \<rho> e = Some v" "\<rho>1 = \<rho>(x \<mapsto> v)"
      using assms(8) S_decl k by (auto simp: simple_step_def set_var_def split: option.splits)
    show ?thesis
      using agrees_upd [OF assms(3) eval_sound(1) [OF assms(1-3) c(1)] eval_sound(2) [OF assms(1-3) c(1) v(1)]] c(2) v(2) by blast
  next
    case False
    then have "cx_loop F n ss (pc + 1) env = Some (st, env')"
      using assms(4,6) S_decl by (auto simp: cx_loop.simps split: bool.splits option.splits)
    moreover have "agrees F V env \<rho>1"
      using False assms(8) S_decl
      by (intro agrees_less [OF assms(3)]) (auto simp: simple_step_def VAR_P_def split: option.splits if_splits)
    ultimately show ?thesis by blast
  qed
next
  case (S_modify p e)
  with assms(4,6,7) obtain c where c: "c_fold_cx_eval F env e = Some c"
    by (auto simp: cx_loop.simps split: option.splits)
  show ?thesis
  proof (cases p)
    case (P_var x)
    with assms(4,6,7) S_modify c have l: "cx_loop F n ss (pc + 1) (env(x \<mapsto> c)) = Some (st, env')"
      by (auto simp: cx_loop.simps split: if_splits)
    obtain v where v: "ev V \<rho> e = Some v" "\<rho>1 = \<rho>(x \<mapsto> v)"
      using assms(8) S_modify P_var by (auto simp: simple_step_def set_var_def split: option.splits)
    show ?thesis
      using agrees_upd [OF assms(3) eval_sound(1) [OF assms(1-3) c] eval_sound(2) [OF assms(1-3) c v(1)]] l v(2) by blast
  qed (use assms(3,4,6-8) S_modify c in \<open>auto simp: cx_loop.simps simple_step_def split: option.splits\<close>)
qed (use assms(3,4,6-8) in \<open>auto simp: cx_loop.simps simple_step_def\<close>)

text \<open>What happens after a nested scope: a return is passed on, otherwise the next statement runs.\<close>

definition continues :: "folder \<Rightarrow> nat \<Rightarrow> stmt list \<Rightarrow> nat \<Rightarrow> c_fold_cx_status \<Rightarrow> cx_env \<Rightarrow> c_fold_cx_status \<Rightarrow> cx_env \<Rightarrow> bool" where
  "continues F n ss pc st1 env2 st env' \<longleftrightarrow>
     (if st1 = CX_FINISHED then cx_loop F n ss (pc + 1) env2 = Some (st, env') else st = st1 \<and> env' = env2)"

lemma continues_ok: "continues F n ss pc st1 env2 st env' \<Longrightarrow> st \<noteq> CX_FAILED \<Longrightarrow> st1 \<noteq> CX_FAILED"
  by (auto simp: continues_def)

lemma continues_sound:
  assumes "matches F V st1 env2 q" "continues F n ss pc st1 env2 st env'" "st \<noteq> CX_FAILED"
    and "\<And>env \<rho>. cx_loop F n ss (pc + 1) env = Some (st, env') \<Longrightarrow> agrees F V env \<rho>
      \<Longrightarrow> \<exists>r. runs V ss (pc + 1) \<rho> r \<and> matches F V st env' r"
    and falls: "\<And>\<rho>2 r. q = Falls \<rho>2 \<Longrightarrow> runs V ss (pc + 1) \<rho>2 r \<Longrightarrow> runs V ss pc \<rho> r"
    and stops: "\<not> is_falls q \<Longrightarrow> runs V ss pc \<rho> q"
  shows "\<exists>r. runs V ss pc \<rho> r \<and> matches F V st env' r"
  using assms(1)
proof (cases rule: matches_cases)
  case (1 \<rho>2)
  then show ?thesis using assms(2-4) falls by (auto simp: continues_def) blast
next
  case (2 c v)
  then show ?thesis using assms(1,2) stops by (auto simp: continues_def)
next
  case 3
  then show ?thesis using stops by auto
qed

lemma cx_loop_sound:
  assumes "folder_sound F V" "ops_mono V"
  shows "cx_loop F n ss pc env = Some (st, env') \<Longrightarrow> st \<noteq> CX_FAILED \<Longrightarrow> agrees F V env \<rho> \<Longrightarrow> list_all static_free ss
    \<Longrightarrow> \<exists>r. runs V ss pc \<rho> r \<and> matches F V st env' r"
proof (induction n arbitrary: ss pc env st env' \<rho>)
  case (Suc n)
  note eval = eval_sound [OF assms Suc.prems(3)]
  show ?case
  proof (cases "length ss \<le> pc")
    case True
    with Suc.prems have "st = CX_FINISHED" "env' = env" by (auto simp: cx_loop.simps)
    with Suc.prems True show ?thesis by (intro exI [of _ "Falls \<rho>"]) (auto intro: runs.fall)
  next
    case False
    then have pc: "pc < length ss" by simp
    then have free: "static_free (ss ! pc)" using Suc.prems(4) by (simp add: list_all_length)
    show ?thesis
    proof (cases "simple_step V (ss ! pc) \<rho>")
      case q: (Some q)
      show ?thesis
      proof (cases q)
        case None
        with runs.simple_undef [OF pc] q show ?thesis by (intro exI [of _ Undefined]) simp
      next
        case (Some \<rho>1)
        with q simple_agrees [OF assms Suc.prems(3) pc free Suc.prems(1,2)]
        obtain env1 where e: "agrees F V env1 \<rho>1" "cx_loop F n ss (pc + 1) env1 = Some (st, env')" by blast
        from Suc.IH [OF e(2) Suc.prems(2) e(1) Suc.prems(4)] runs.simple [OF pc] q Some show ?thesis by blast
      qed
    next
      case None
      show ?thesis
      proof (cases "ss ! pc")
        case (S_goto l)
        with Suc.prems pc obtain i where i: "label_index ss l = Some i" "cx_loop F n ss i env = Some (st, env')"
          by (auto simp: cx_loop.simps split: option.splits)
        from Suc.IH [OF i(2) Suc.prems(2-4)] runs.jump [OF pc S_goto i(1)] show ?thesis by blast
      next
        case (S_cond c th el)
        with Suc.prems pc obtain u i where u: "c_fold_cx_eval F env c = Some u"
          "branch_target ss (if fo_zerop F u then el else th) = Some i" "cx_loop F n ss i env = Some (st, env')"
          by (auto simp: cx_loop.simps split: option.splits)
        show ?thesis
        proof (cases "ev V \<rho> c")
          case None
          with runs.cond_undef [OF pc S_cond] show ?thesis by (intro exI [of _ Undefined]) simp
        next
          case (Some v)
          then have "branch_target ss (if vs_zero V v then el else th) = Some i" using u(2) eval(3) [OF u(1)] by simp
          from Suc.IH [OF u(3) Suc.prems(2-4)] runs.cond [OF pc S_cond Some this] show ?thesis by blast
        qed
      next
        case (S_bind vs body)
        then obtain env1 st1 env2 where b: "bind_vars F vs env = Some env1"
          and l: "cx_loop F n (stmts_of body) 0 env1 = Some (st1, env2)"
          and c: "continues F n ss pc st1 env2 st env'"
          using Suc.prems(1,2) pc by (auto simp: cx_loop.simps continues_def split: option.splits c_fold_cx_status.splits)
        have f: "list_all (\<lambda>(x, k, i). k = Static_storage \<longrightarrow> i = None) vs" "list_all static_free (stmts_of body)"
          using free S_bind static_free_stmts by auto
        obtain q where q: "runs V (stmts_of body) 0 (enter vs \<rho>) q" "matches F V st1 env2 q"
          using Suc.IH [OF l continues_ok [OF c Suc.prems(2)] bind_vars_sound [OF assms Suc.prems(3) b f(1)] f(2)] by blast
        show ?thesis
          by (rule continues_sound [OF q(2) c Suc.prems(2)])
            (use Suc.IH Suc.prems(2,4) q(1) runs.block [OF pc S_bind] runs.block_stop [OF pc S_bind] in blast)+
      next
        case (S_list xs)
        then obtain st1 env2 where l: "cx_loop F n xs 0 env = Some (st1, env2)"
          and c: "continues F n ss pc st1 env2 st env'"
          using Suc.prems(1,2) pc by (auto simp: cx_loop.simps continues_def split: option.splits c_fold_cx_status.splits)
        have f: "list_all static_free xs" using free S_list by simp
        obtain q where q: "runs V xs 0 \<rho> q" "matches F V st1 env2 q"
          using Suc.IH [OF l continues_ok [OF c Suc.prems(2)] Suc.prems(3) f] by blast
        show ?thesis
          by (rule continues_sound [OF q(2) c Suc.prems(2)])
            (use Suc.IH Suc.prems(2,4) q(1) runs.nested [OF pc S_list] runs.nested_stop [OF pc S_list] in blast)+
      next
        case (S_return o_e)
        with Suc.prems pc obtain b e c where e: "o_e = Some (b, e)" "c_fold_cx_eval F env e = Some c" "st = CX_RETURNED c"
          by (auto simp: cx_loop.simps split: option.splits)
        show ?thesis
        proof (cases "ev V \<rho> e")
          case None
          with runs.ret_undef [OF pc, of b e V \<rho>] S_return e(1) show ?thesis by (intro exI [of _ Undefined]) simp
        next
          case (Some v)
          with runs.ret [OF pc, of b e V \<rho> v] S_return e eval(1,2) [OF e(2)] show ?thesis by (intro exI [of _ "Returns v"]) simp
        qed
      qed (use None Suc.prems pc in \<open>auto simp: simple_step_def cx_loop.simps split: place.splits option.splits if_splits\<close>)
    qed
  qed
qed (simp add: cx_loop.simps)

subsection \<open>Calls\<close>

definition arg_store :: "'v vsem \<Rightarrow> (nat \<rightharpoonup> 'v) \<Rightarrow> nat list \<Rightarrow> expr list \<Rightarrow> (nat \<rightharpoonup> 'v) \<Rightarrow> (nat \<rightharpoonup> 'v)" where
  "arg_store V \<rho>0 ps as \<rho> = fold (\<lambda>(p, a) r. r(p := ev V \<rho>0 a)) (zip ps as) \<rho>"

lemma bind_args_sound:
  assumes "folder_sound F V"
  shows "agrees F V env \<rho> \<Longrightarrow> bind_args F ps as env = Some env' \<Longrightarrow> agrees F V env' (arg_store V \<rho>0 ps as \<rho>)"
proof (induction ps arbitrary: as env \<rho>)
  case (Cons p ps)
  show ?case
  proof (cases as)
    case Nil
    with Cons.prems show ?thesis by (simp add: arg_store_def)
  next
    case a: (Cons a bs)
    with Cons.prems(2) have c: "fo_constant F (fo_fold F a)" "bind_args F ps bs (env(p \<mapsto> fo_fold F a)) = Some env'"
      by (auto simp: Let_def split: if_splits)
    have "agrees F V (env(p \<mapsto> fo_fold F a)) (\<rho>(p := ev V \<rho>0 a))"
      using Cons.prems(1) c(1) folder_soundD(2) [OF assms c(1) folder_soundD(1) [OF assms c(1)]] by (auto simp: agrees_def)
    from Cons.IH [OF this c(2)] show ?thesis by (simp add: a arg_store_def fun_upd_def)
  qed
qed (simp add: arg_store_def)

lemma constant_result: "cx_loop F n ss pc env = Some (CX_RETURNED c, env') \<Longrightarrow> fo_constant F c"
proof (induction n arbitrary: ss pc env env')
  case (Suc n)
  show ?case
  proof (cases "length ss \<le> pc")
    case False
    with Suc.prems show ?thesis
      by (cases "ss ! pc") (auto simp: cx_loop.simps c_fold_cx_eval_def Let_def dest: Suc.IH
          split: option.splits c_fold_cx_status.splits place.splits bool.splits if_splits)
  qed (use Suc.prems in \<open>simp add: cx_loop.simps\<close>)
qed (simp add: cx_loop.simps)

text \<open>
  C3. When no static variable of a constexpr function has an initializer, a call that folds to \<open>c\<close> is one whose
  body, executed with the arguments' values in the parameters and whatever else memory holds, has exactly
  one outcome: it returns the value of \<open>c\<close>, or the execution is one that C leaves undefined.
\<close>

theorem constexpr_call_sound:
  assumes "folder_sound F V" "ops_mono V" "c_fold_constexpr_call F n (Some fd) args = Some (Some c)"
    and "list_all static_free (stmts_of (cf_body fd))"
  shows "length args = length (cf_params fd) \<and> fo_constant F c \<and>
    (\<exists>!r. runs V (stmts_of (cf_body fd)) 0 (arg_store V \<rho>0 (cf_params fd) args \<rho>) r) \<and>
    (\<forall>r. runs V (stmts_of (cf_body fd)) 0 (arg_store V \<rho>0 (cf_params fd) args \<rho>) r \<longrightarrow>
       r = Undefined \<or> (\<exists>v. r = Returns v \<and> (\<forall>\<rho>'. ev V \<rho>' c = Some v)))"
proof -
  let ?\<sigma> = "arg_store V \<rho>0 (cf_params fd) args \<rho>"
  obtain env env' where b: "length args = length (cf_params fd)" "bind_args F (cf_params fd) args Map.empty = Some env"
    "cx_loop F n (stmts_of (cf_body fd)) 0 env = Some (CX_RETURNED c, env')"
    using assms(3) by (auto simp: c_fold_constexpr_call_def c_fold_cx_exec_def
        split: if_splits option.splits c_fold_cx_status.splits)
  have "agrees F V Map.empty \<rho>" by (simp add: agrees_def)
  from bind_args_sound [OF assms(1) this b(2)] have "agrees F V env ?\<sigma>" .
  from cx_loop_sound [OF assms(1,2) b(3) _ this assms(4)] obtain r where
    r: "runs V (stmts_of (cf_body fd)) 0 ?\<sigma> r" "matches F V (CX_RETURNED c) env' r" by auto
  have "fo_constant F c"
    using constant_result [OF b(3)] .
  moreover have "r = Undefined \<or> (\<exists>v. r = Returns v \<and> (\<forall>\<rho>'. ev V \<rho>' c = Some v))"
    using r(2) by (cases rule: matches_cases) auto
  ultimately show ?thesis using b(1) r(1) runs_det [OF r(1)] by metis
qed

text \<open>A folder for integer constants, and the function that increments its parameter and returns it.\<close>

definition ex_folder :: folder where
  "ex_folder = \<lparr>fo_fold = (\<lambda>e. e), fo_constant = (\<lambda>e. case e of E_const i \<Rightarrow> True | _ \<Rightarrow> False),
     fo_zerop = (\<lambda>e. e = E_const 0),
     fo_plus = (\<lambda>e d. case e of E_const i \<Rightarrow> E_const (i + d) | _ \<Rightarrow> E_op 0 [e, E_const d])\<rparr>"

definition ex_sem :: "int vsem" where
  "ex_sem = \<lparr>vs_const = (\<lambda>i. i), vs_op = (\<lambda>k vs. if None \<in> set vs then None else Some (sum_list (map the vs))),
     vs_zero = (\<lambda>v. v = 0), vs_plus = (\<lambda>v d. Some (v + d))\<rparr>"

definition ex_fn :: cx_fndecl where
  "ex_fn = \<lparr>cf_constexpr = True, cf_params = [0],
     cf_body = Some (S_list [S_step (P_var 0) True, S_return (Some (True, E_decl 0))])\<rparr>"

lemma ex_folder_sound: "folder_sound ex_folder ex_sem"
  by (auto simp: folder_sound_def ex_folder_def ex_sem_def split: expr.splits)

lemma ex_ops_mono: "ops_mono ex_sem"
proof -
  have "list_all2 (\<lambda>a b. a = None \<or> a = b) as bs \<Longrightarrow> None \<notin> set as \<Longrightarrow> bs = as" for as bs :: "int option list"
    by (induction rule: list_all2_induct) auto
  then show ?thesis by (auto simp: ops_mono_def ex_sem_def split: if_splits)
qed

lemmas fold_eval = c_fold_constexpr_call_def c_fold_cx_exec_def stmts_of_def ex_folder_def c_fold_cx_eval_def cx_loop.simps Let_def

theorem constexpr_call_sound_witness:
  "runs ex_sem [S_step (P_var 0) True, S_return (Some (True, E_decl 0))] 0 (Map.empty(0 \<mapsto> 4)) (Returns 5)"
proof -
  let ?ss = "[S_step (P_var 0) True, S_return (Some (True, E_decl 0))]" and ?s = "Map.empty(0 \<mapsto> 4) :: nat \<rightharpoonup> int"
  have "c_fold_constexpr_call ex_folder 3 (Some ex_fn) [E_const 4] = Some (Some (E_const 5))"
    by (simp add: fold_eval ex_fn_def numeral_3_eq_3)
  from constexpr_call_sound [OF ex_folder_sound ex_ops_mono this, of Map.empty Map.empty]
  obtain r where r: "runs ex_sem ?ss 0 ?s r" "r = Undefined \<or> r = Returns 5"
    by (auto simp: ex_fn_def stmts_of_def ex_sem_def arg_store_def)
  have "r \<noteq> Undefined"
    using r(1) by (simp add: runs_simple runs_return simple_step_def set_var_def ex_sem_def)
  with r show ?thesis by blast
qed

text \<open>
  The body of \<^verbatim>\<open>constexpr int f(void) { static int n = 0; n++; return n; }\<close>.
\<close>

definition static_fn :: cx_fndecl where
  "static_fn = \<lparr>cf_constexpr = True, cf_params = [],
     cf_body = Some (S_bind [(0, Static_storage, Some (E_const 0))]
       (Some (S_list [S_decl 0 Static_storage (Some (E_const 0)), S_step (P_var 0) True, S_return (Some (True, E_decl 0))])))\<rparr>"

text \<open>
  The evaluator initializes a static variable anew in every call: the call above folds to 1, while at run
  time it returns one more than the variable holds, which is one more with every call.
\<close>

theorem static_local_folds:
  "c_fold_constexpr_call ex_folder 9 (Some static_fn) [] = Some (Some (E_const 1))
    \<and> runs ex_sem (stmts_of (cf_body static_fn)) 0 (Map.empty(0 \<mapsto> i)) (Returns (i + 1))"
proof
  show "c_fold_constexpr_call ex_folder 9 (Some static_fn) [] = Some (Some (E_const 1))"
    by code_simp
  let ?b = "[S_decl 0 Static_storage (Some (E_const 0)), S_step (P_var 0) True, S_return (Some (True, E_decl 0))]"
  have b: "runs ex_sem ?b 0 (Map.empty(0 \<mapsto> i)) (Returns (i + 1))"
    by (simp add: runs_simple runs_return simple_step_def set_var_def ex_sem_def)
  have entered: "enter [(0, Static_storage, Some (E_const 0))] \<rho> = \<rho>" for \<rho> :: "nat \<rightharpoonup> int" by (simp add: enter_def)
  show "runs ex_sem (stmts_of (cf_body static_fn)) 0 (Map.empty(0 \<mapsto> i)) (Returns (i + 1))"
    by (rule runs.block_stop [where vs = "[(0, Static_storage, Some (E_const 0))]" and body = "Some (S_list ?b)"])
      (use b entered in \<open>simp_all add: static_fn_def stmts_of_def del: fun_upd_apply\<close>)
qed

text \<open>More fuel does not change a result.\<close>

lemma cx_loop_more:
  "cx_loop F n ss pc env = Some r \<Longrightarrow> n \<le> k \<Longrightarrow> cx_loop F k ss pc env = Some r"
proof (induction n arbitrary: ss pc env r k)
  case (Suc n)
  obtain j where k: "k = Suc j" "n \<le> j" using Suc.prems(2) by (cases k) auto
  show ?case
  proof (cases "length ss \<le> pc")
    case True
    with Suc.prems k show ?thesis by (simp add: cx_loop.simps)
  next
    case False
    obtain st env' where "r = (st, env')" by (cases r)
    with False Suc.prems(1) Suc.IH [OF _ k(2)] show ?thesis
      unfolding k(1)
      by (cases "ss ! pc") (auto simp: cx_loop.simps split: option.splits c_fold_cx_status.splits place.splits bool.splits if_splits)
  qed
qed (simp add: cx_loop.simps)

text \<open>A loop without an exit keeps the compiler busy for ever.\<close>

lemma endless_loop: "cx_loop F n [S_label l, S_goto l] pc env = None" if "pc < 2"
proof -
  have l: "label_index [S_label l, S_goto l] l = Some 0" by (simp add: label_index_def)
  show ?thesis using that
  proof (induction n arbitrary: pc)
    case (Suc n)
    then show ?case using l by (cases pc) (auto simp: cx_loop.simps numeral_2_eq_2 less_Suc_eq)
  qed (simp add: cx_loop.simps)
qed

text \<open>
  A constexpr call whose body jumps back to its own start is never given up: no number of steps
  ends the evaluation.
\<close>

theorem constexpr_call_endless:
  "c_fold_constexpr_call F n (Some \<lparr>cf_constexpr = True, cf_params = [], cf_body = Some (S_list [S_label l, S_goto l])\<rparr>) []
     = None"
  using endless_loop [of 0 F n l "Map.empty"]
  by (simp add: c_fold_constexpr_call_def c_fold_cx_exec_def stmts_of_def)

end
