(* ===== verification/Thread_Pool.thy ===== *)
theory Thread_Pool
  imports Czet_Prelude
begin

text \<open>
  The thread pool of stdlib/utils/thread_pool.h.  The task queue is a ring buffer, and the locale
  \<open>task_queue\<close> is what the rest relies on.  The threads are modelled by a step relation: one step is
  one critical section, from taking the mutex to releasing it or to waiting on a condition
  variable.  A signal wakes one thread that waits there when there is one, a broadcast all of them,
  and a waiting thread may also wake by itself.  The indices are natural numbers: they stay below
  the queue size.  A task is one value that stands for the function and its argument; the refusal of
  a null pool or function has no counterpart.
\<close>

subsection \<open>The ring buffer\<close>

record 'a pool =
  pl_queue :: "'a list"
  pl_queue_size :: nat
  pl_head :: nat
  pl_tail :: nat
  pl_count :: nat
  pl_active :: nat
  pl_shutdown :: bool

text \<open>The stores of \<open>pool_submit\<close> and \<open>pool_try_submit\<close>, and of a worker that takes a task.\<close>

definition pool_push :: "'a pool \<Rightarrow> 'a \<Rightarrow> 'a pool" where
  "pool_push p t = p\<lparr>pl_queue := (pl_queue p)[pl_tail p := t],
     pl_tail := (pl_tail p + 1) mod pl_queue_size p, pl_count := pl_count p + 1\<rparr>"

definition pool_pop :: "'a pool \<Rightarrow> 'a \<times> 'a pool" where
  "pool_pop p = (pl_queue p ! pl_head p,
     p\<lparr>pl_head := (pl_head p + 1) mod pl_queue_size p, pl_count := pl_count p - 1, pl_active := pl_active p + 1\<rparr>)"

definition pool_ok :: "'a pool \<Rightarrow> bool" where
  "pool_ok p \<longleftrightarrow> 0 < pl_queue_size p \<and> length (pl_queue p) = pl_queue_size p \<and> pl_head p < pl_queue_size p
     \<and> pl_count p \<le> pl_queue_size p \<and> pl_tail p = (pl_head p + pl_count p) mod pl_queue_size p"

definition pool_tasks :: "'a pool \<Rightarrow> 'a list" where
  "pool_tasks p = map (\<lambda>i. pl_queue p ! ((pl_head p + i) mod pl_queue_size p)) [0..<pl_count p]"

locale task_queue =
  fixes ok :: "'q \<Rightarrow> bool" and tasks :: "'q \<Rightarrow> 'a list" and room :: "'q \<Rightarrow> bool"
    and push :: "'q \<Rightarrow> 'a \<Rightarrow> 'q" and pop :: "'q \<Rightarrow> 'a \<times> 'q"
  assumes push_ok: "ok q \<Longrightarrow> room q \<Longrightarrow> ok (push q t) \<and> tasks (push q t) = tasks q @ [t]"
    and pop_ok: "ok q \<Longrightarrow> tasks q \<noteq> [] \<Longrightarrow> pop q = (t, q') \<Longrightarrow> ok q' \<and> tasks q = t # tasks q'"
begin

text \<open>Over any sequence of pushes and pops, what went in is what came out and what is left, in order.\<close>

inductive history :: "'q \<Rightarrow> 'q \<Rightarrow> 'a list \<Rightarrow> 'a list \<Rightarrow> bool" for q0 where
  start: "history q0 q0 [] []"
| enq: "history q0 q ins outs \<Longrightarrow> room q \<Longrightarrow> history q0 (push q t) (ins @ [t]) outs"
| deq: "history q0 q ins outs \<Longrightarrow> tasks q \<noteq> [] \<Longrightarrow> pop q = (t, q') \<Longrightarrow> history q0 q' ins (outs @ [t])"

lemma history_fifo:
  assumes "history q0 q ins outs" "ok q0"
  shows "ok q \<and> tasks q0 @ ins = outs @ tasks q"
  using assms by (induction rule: history.induct) (auto simp: push_ok dest: pop_ok)

end

lemma ring_index_le:
  assumes "(h + i) mod n = (h + j) mod n" "j < n" "i \<le> (j :: nat)"
  shows "i = j"
proof -
  have "n dvd (h + j) - (h + i)" using assms mod_eq_dvd_iff_nat [of "h + i" "h + j" n] by simp
  then have "n dvd j - i" by simp
  then have "j - i = 0" using assms(2) by (metis less_imp_diff_less nat_dvd_not_less neq0_conv)
  then show ?thesis using assms(3) by simp
qed

lemma ring_index:
  assumes "(h + i) mod n = (h + j) mod n" "i < n" "j < (n :: nat)"
  shows "i = j"
  using ring_index_le [of h i n j] ring_index_le [of h j n i] assms by (cases "i \<le> j") auto

lemma pool_push_ok:
  assumes "pool_ok p" "pl_count p < pl_queue_size p"
  shows "pool_ok (pool_push p t) \<and> pool_tasks (pool_push p t) = pool_tasks p @ [t]"
proof -
  let ?n = "pl_queue_size p" and ?h = "pl_head p" and ?c = "pl_count p"
  have ok: "0 < ?n" "length (pl_queue p) = ?n" "pl_tail p = (?h + ?c) mod ?n" "?h < ?n"
    using assms(1) by (auto simp: pool_ok_def)
  have tail: "(?h + ?c) mod ?n < length (pl_queue p)" using ok by simp
  have "pool_ok (pool_push p t)"
    using assms ok by (auto simp: pool_ok_def pool_push_def mod_Suc_eq)
  moreover have "(pl_queue p)[(?h + ?c) mod ?n := t] ! ((?h + i) mod ?n) = pl_queue p ! ((?h + i) mod ?n)"
    if "i < ?c" for i
    using ring_index [of ?h i ?n ?c] that assms(2) by (metis less_imp_le less_trans nat_neq_iff nth_list_update_neq)
  ultimately show ?thesis
    using ok(3) tail by (simp add: pool_tasks_def pool_push_def)
qed

lemma pool_pop_ok:
  assumes "pool_ok p" "pool_tasks p \<noteq> []" "pool_pop p = (t, p')"
  shows "pool_ok p' \<and> pool_tasks p = t # pool_tasks p'"
proof -
  let ?n = "pl_queue_size p" and ?h = "pl_head p"
  obtain c where c: "pl_count p = Suc c" using assms(2) by (cases "pl_count p") (auto simp: pool_tasks_def)
  have p': "t = pl_queue p ! ?h" "p' = p\<lparr>pl_head := (?h + 1) mod ?n, pl_count := c, pl_active := pl_active p + 1\<rparr>"
    using assms(3) c by (auto simp: pool_pop_def)
  have "pool_tasks p = pl_queue p ! ?h # map (\<lambda>i. pl_queue p ! ((?h + Suc i) mod ?n)) [0..<c]"
    using assms(1) c by (simp add: pool_tasks_def pool_ok_def upt_rec [of 0] map_Suc_upt [symmetric] o_def del: upt_Suc)
  moreover have "pool_tasks p' = map (\<lambda>i. pl_queue p ! ((?h + Suc i) mod ?n)) [0..<c]"
    by (simp add: pool_tasks_def p' mod_add_left_eq)
  moreover have "pool_ok p'"
    using assms(1) c by (auto simp: pool_ok_def p' mod_add_left_eq)
  ultimately show ?thesis using p' by simp
qed

interpretation pq: task_queue pool_ok pool_tasks "\<lambda>p. pl_count p < pl_queue_size p" pool_push pool_pop
  by unfold_locales (erule (1) pool_push_ok, erule (2) pool_pop_ok)

lemma pool_tasks_length [simp]: "length (pool_tasks p) = pl_count p"
  by (simp add: pool_tasks_def)

lemma pool_tasks_Nil [simp]: "pool_tasks p = [] \<longleftrightarrow> pl_count p = 0"
  by (metis length_0_conv pool_tasks_length)

subsection \<open>Threads\<close>

text \<open>
  A worker is about to take the mutex and test the queue, waits on \<^verbatim>\<open>cond_not_empty\<close>, runs a task, or
  has left its loop.  A client is outside the pool, about to test for room in \<open>pool_submit\<close>, waits on
  \<^verbatim>\<open>cond_not_full\<close>, is about to test in \<open>pool_wait\<close>, or waits on \<^verbatim>\<open>cond_finished\<close>.
\<close>

datatype 'a worker = W_ready | W_wait | W_run 'a | W_exit

datatype 'a client = C_out | C_submit 'a | C_sleep 'a | C_test | C_wait

record 'a threads =
  th_pool :: "'a pool"
  th_workers :: "'a worker list"
  th_clients :: "'a client list"
  th_submitted :: "'a list"
  th_started :: "'a list"

text \<open>\<open>th_submitted\<close> and \<open>th_started\<close> record the tasks accepted and the tasks begun, in order.\<close>

definition signal_not_empty :: "'a worker list \<Rightarrow> 'a worker list \<Rightarrow> bool" where
  "signal_not_empty ws ws' \<longleftrightarrow>
     (if W_wait \<in> set ws then \<exists>i < length ws. ws ! i = W_wait \<and> ws' = ws[i := W_ready] else ws' = ws)"

definition signal_not_full :: "'a client list \<Rightarrow> 'a client list \<Rightarrow> bool" where
  "signal_not_full cs cs' \<longleftrightarrow>
     (if \<exists>t. C_sleep t \<in> set cs then \<exists>i t. i < length cs \<and> cs ! i = C_sleep t \<and> cs' = cs[i := C_submit t]
      else cs' = cs)"

definition wake_worker :: "'a worker \<Rightarrow> 'a worker" where
  "wake_worker w = (if w = W_wait then W_ready else w)"

definition wake_submit :: "'a client \<Rightarrow> 'a client" where
  "wake_submit c = (case c of C_sleep t \<Rightarrow> C_submit t | _ \<Rightarrow> c)"

definition wake_wait :: "'a client \<Rightarrow> 'a client" where
  "wake_wait c = (if c = C_wait then C_test else c)"

definition idle :: "'a pool \<Rightarrow> bool" where
  "idle p \<longleftrightarrow> pl_count p = 0 \<and> pl_active p = 0"

text \<open>
  The critical sections: what a thread that has the mutex does before it releases it.  A section
  ends with a wait on the condition variable of its loop, or with a result.
\<close>

datatype 'a taken = T_wait | T_exit | T_task 'a "'a pool"

definition worker_take :: "'a pool \<Rightarrow> 'a taken" where
  "worker_take p =
     (if pl_count p = 0 \<and> \<not> pl_shutdown p then T_wait
      else if pl_count p = 0 \<and> pl_shutdown p then T_exit
      else (case pool_pop p of (t, p') \<Rightarrow> T_task t p'))"

text \<open>The flag says whether \<^verbatim>\<open>cond_finished\<close> is broadcast.\<close>

definition worker_finish :: "'a pool \<Rightarrow> bool \<times> 'a pool" where
  "worker_finish p = (let p' = p\<lparr>pl_active := pl_active p - 1\<rparr> in (idle p', p'))"

datatype 'a critical = CS_wait | CS_return int "'a pool"

definition pool_submit :: "'a pool \<Rightarrow> 'a \<Rightarrow> 'a critical" where
  "pool_submit p t =
     (if pl_count p = pl_queue_size p \<and> \<not> pl_shutdown p then CS_wait
      else if pl_shutdown p then CS_return (-1) p
      else CS_return 0 (pool_push p t))"

definition pool_try_submit :: "'a pool \<Rightarrow> 'a \<Rightarrow> int \<times> 'a pool" where
  "pool_try_submit p t =
     (if pl_shutdown p \<or> pl_count p = pl_queue_size p then (-1, p) else (0, pool_push p t))"

definition pool_wait :: "'a pool \<Rightarrow> 'a critical" where
  "pool_wait p = (if pl_count p \<noteq> 0 \<or> pl_active p \<noteq> 0 then CS_wait else CS_return 0 p)"

definition pool_shutdown :: "'a pool \<Rightarrow> 'a pool" where
  "pool_shutdown p = p\<lparr>pl_shutdown := True\<rparr>"

lemma section_simps [simp]:
  "worker_take p = T_wait \<longleftrightarrow> pl_count p = 0 \<and> \<not> pl_shutdown p"
  "worker_take p = T_exit \<longleftrightarrow> pl_count p = 0 \<and> pl_shutdown p"
  "worker_take p = T_task t p' \<longleftrightarrow> pl_count p \<noteq> 0 \<and> pool_pop p = (t, p')"
  "pool_submit p t = CS_wait \<longleftrightarrow> pl_count p = pl_queue_size p \<and> \<not> pl_shutdown p"
  "pool_submit p t = CS_return r p' \<longleftrightarrow>
     (if pl_shutdown p then r = -1 \<and> p' = p
      else pl_count p \<noteq> pl_queue_size p \<and> r = 0 \<and> p' = pool_push p t)"
  "pool_wait p = CS_wait \<longleftrightarrow> \<not> idle p"
  "pool_wait p = CS_return r p' \<longleftrightarrow> idle p \<and> r = 0 \<and> p' = p"
  by (auto simp: worker_take_def pool_submit_def pool_wait_def idle_def split: prod.splits)

inductive pool_step :: "'a threads \<Rightarrow> 'a threads \<Rightarrow> bool" where
  worker_sleep: "j < length (th_workers s) \<Longrightarrow> th_workers s ! j = W_ready \<Longrightarrow> worker_take (th_pool s) = T_wait \<Longrightarrow>
    pool_step s (s\<lparr>th_workers := (th_workers s)[j := W_wait]\<rparr>)"
| worker_exit: "j < length (th_workers s) \<Longrightarrow> th_workers s ! j = W_ready \<Longrightarrow> worker_take (th_pool s) = T_exit \<Longrightarrow>
    pool_step s (s\<lparr>th_workers := (th_workers s)[j := W_exit]\<rparr>)"
| worker_pop: "j < length (th_workers s) \<Longrightarrow> th_workers s ! j = W_ready \<Longrightarrow>
    worker_take (th_pool s) = T_task t p' \<Longrightarrow> signal_not_full (th_clients s) cs \<Longrightarrow>
    pool_step s (s\<lparr>th_pool := p', th_workers := (th_workers s)[j := W_run t], th_clients := cs,
                   th_started := th_started s @ [t]\<rparr>)"
| worker_done: "j < length (th_workers s) \<Longrightarrow> th_workers s ! j = W_run t \<Longrightarrow>
    worker_finish (th_pool s) = (b, p') \<Longrightarrow>
    pool_step s (s\<lparr>th_pool := p', th_workers := (th_workers s)[j := W_ready],
                   th_clients := (if b then map wake_wait (th_clients s) else th_clients s)\<rparr>)"
| worker_wakes: "j < length (th_workers s) \<Longrightarrow> th_workers s ! j = W_wait \<Longrightarrow>
    pool_step s (s\<lparr>th_workers := (th_workers s)[j := W_ready]\<rparr>)"
| submit_call: "i < length (th_clients s) \<Longrightarrow> th_clients s ! i = C_out \<Longrightarrow>
    pool_step s (s\<lparr>th_clients := (th_clients s)[i := C_submit t]\<rparr>)"
| submit_sleep: "i < length (th_clients s) \<Longrightarrow> th_clients s ! i = C_submit t \<Longrightarrow>
    pool_submit (th_pool s) t = CS_wait \<Longrightarrow>
    pool_step s (s\<lparr>th_clients := (th_clients s)[i := C_sleep t]\<rparr>)"
| submit_refused: "i < length (th_clients s) \<Longrightarrow> th_clients s ! i = C_submit t \<Longrightarrow>
    pool_submit (th_pool s) t = CS_return (-1) p' \<Longrightarrow>
    pool_step s (s\<lparr>th_pool := p', th_clients := (th_clients s)[i := C_out]\<rparr>)"
| submit_push: "i < length (th_clients s) \<Longrightarrow> th_clients s ! i = C_submit t \<Longrightarrow>
    pool_submit (th_pool s) t = CS_return 0 p' \<Longrightarrow> signal_not_empty (th_workers s) ws \<Longrightarrow>
    pool_step s (s\<lparr>th_pool := p', th_workers := ws,
                   th_clients := (th_clients s)[i := C_out], th_submitted := th_submitted s @ [t]\<rparr>)"
| try_push: "pool_try_submit (th_pool s) t = (0, p') \<Longrightarrow> signal_not_empty (th_workers s) ws \<Longrightarrow>
    pool_step s (s\<lparr>th_pool := p', th_workers := ws, th_submitted := th_submitted s @ [t]\<rparr>)"
| submit_wakes: "i < length (th_clients s) \<Longrightarrow> th_clients s ! i = C_sleep t \<Longrightarrow>
    pool_step s (s\<lparr>th_clients := (th_clients s)[i := C_submit t]\<rparr>)"
| wait_call: "i < length (th_clients s) \<Longrightarrow> th_clients s ! i = C_out \<Longrightarrow>
    pool_step s (s\<lparr>th_clients := (th_clients s)[i := C_test]\<rparr>)"
| wait_sleep: "i < length (th_clients s) \<Longrightarrow> th_clients s ! i = C_test \<Longrightarrow> pool_wait (th_pool s) = CS_wait \<Longrightarrow>
    pool_step s (s\<lparr>th_clients := (th_clients s)[i := C_wait]\<rparr>)"
| wait_return: "i < length (th_clients s) \<Longrightarrow> th_clients s ! i = C_test \<Longrightarrow>
    pool_wait (th_pool s) = CS_return r p' \<Longrightarrow>
    pool_step s (s\<lparr>th_pool := p', th_clients := (th_clients s)[i := C_out]\<rparr>)"
| wait_wakes: "i < length (th_clients s) \<Longrightarrow> th_clients s ! i = C_wait \<Longrightarrow>
    pool_step s (s\<lparr>th_clients := (th_clients s)[i := C_test]\<rparr>)"
| destroy: "pool_step s (s\<lparr>th_pool := pool_shutdown (th_pool s),
    th_workers := map wake_worker (th_workers s), th_clients := map wake_submit (th_clients s)\<rparr>)"

subsection \<open>The invariant\<close>

definition awake :: "'a worker list \<Rightarrow> nat" where
  "awake ws = length (filter (\<lambda>w. w = W_ready \<or> (\<exists>t. w = W_run t)) ws)"

definition running :: "'a worker list \<Rightarrow> nat" where
  "running ws = length (filter (\<lambda>w. \<exists>t. w = W_run t) ws)"

definition trying :: "'a client list \<Rightarrow> nat" where
  "trying cs = length (filter (\<lambda>c. \<exists>t. c = C_submit t) cs)"

definition queue_inv :: "'a threads \<Rightarrow> bool" where
  "queue_inv s \<longleftrightarrow> pool_ok (th_pool s) \<and> th_submitted s = th_started s @ pool_tasks (th_pool s)
     \<and> pl_active (th_pool s) = running (th_workers s)"

definition worker_inv :: "'a threads \<Rightarrow> bool" where
  "worker_inv s \<longleftrightarrow>
     (W_wait \<in> set (th_workers s) \<longrightarrow> \<not> pl_shutdown (th_pool s) \<and> pl_count (th_pool s) \<le> awake (th_workers s))
     \<and> (W_exit \<in> set (th_workers s) \<longrightarrow> pl_shutdown (th_pool s) \<and> pl_count (th_pool s) = 0)"

definition client_inv :: "'a threads \<Rightarrow> bool" where
  "client_inv s \<longleftrightarrow>
     ((\<exists>t. C_sleep t \<in> set (th_clients s)) \<longrightarrow> \<not> pl_shutdown (th_pool s)
        \<and> pl_queue_size (th_pool s) \<le> pl_count (th_pool s) + trying (th_clients s))
     \<and> (C_wait \<in> set (th_clients s) \<longrightarrow> \<not> idle (th_pool s))"

lemma filter_update:
  "i < length xs \<Longrightarrow> length (filter P (xs[i := y])) + (if P (xs ! i) then 1 else 0)
     = length (filter P xs) + (if P y then 1 else 0)"
proof (induction xs arbitrary: i)
  case (Cons x xs)
  then show ?case by (cases i) auto
qed simp

lemma awake_update:
  "i < length ws \<Longrightarrow> awake (ws[i := w]) + (if ws ! i = W_ready \<or> (\<exists>t. ws ! i = W_run t) then 1 else 0)
     = awake ws + (if w = W_ready \<or> (\<exists>t. w = W_run t) then 1 else 0)"
  unfolding awake_def by (rule filter_update)

lemma running_update:
  "i < length ws \<Longrightarrow> running (ws[i := w]) + (if \<exists>t. ws ! i = W_run t then 1 else 0)
     = running ws + (if \<exists>t. w = W_run t then 1 else 0)"
  unfolding running_def by (rule filter_update)

lemma trying_update:
  "i < length cs \<Longrightarrow> trying (cs[i := c]) + (if \<exists>t. cs ! i = C_submit t then 1 else 0)
     = trying cs + (if \<exists>t. c = C_submit t then 1 else 0)"
  unfolding trying_def by (rule filter_update)

lemma signal_not_empty_cases:
  assumes "signal_not_empty ws ws'"
  obtains (woke) i where "i < length ws" "ws ! i = W_wait" "ws' = ws[i := W_ready]"
  | (nobody) "W_wait \<notin> set ws" "ws' = ws"
  using assms by (auto simp: signal_not_empty_def split: if_splits)

lemma signal_not_full_cases:
  assumes "signal_not_full cs cs'"
  obtains (woke) i t where "i < length cs" "cs ! i = C_sleep t" "cs' = cs[i := C_submit t]"
  | (nobody) "\<And>t. C_sleep t \<notin> set cs" "cs' = cs"
  using assms by (auto simp: signal_not_full_def split: if_splits)

lemma signal_running: "signal_not_empty ws ws' \<Longrightarrow> running ws' = running ws"
  by (erule signal_not_empty_cases) (auto dest: running_update [of _ ws W_ready])

lemma running_wake: "running (map wake_worker ws) = running ws"
  by (simp add: running_def filter_map o_def wake_worker_def cong: filter_cong) (auto intro: arg_cong [where f = length] filter_cong)

lemma pool_fields [simp]:
  "pl_active (pool_push p t) = pl_active p" "pl_count (pool_push p t) = pl_count p + 1"
  "pl_shutdown (pool_push p t) = pl_shutdown p" "pl_queue_size (pool_push p t) = pl_queue_size p"
  by (simp_all add: pool_push_def)

lemma pop_fields:
  "pool_pop p = (t, p') \<Longrightarrow> pl_active p' = pl_active p + 1 \<and> pl_count p' = pl_count p - 1
     \<and> pl_shutdown p' = pl_shutdown p \<and> pl_queue_size p' = pl_queue_size p"
  by (auto simp: pool_pop_def)

lemma queue_inv_step:
  assumes "pool_step s s'" "queue_inv s"
  shows "queue_inv s'"
  using assms
proof (induction rule: pool_step.induct)
  case (worker_pop j s t p' cs)
  then show ?case
    using pool_pop_ok [of "th_pool s" t p'] pop_fields [of "th_pool s" t p'] running_update [of j "th_workers s" "W_run t"]
    by (auto simp: queue_inv_def)
next
  case (worker_done j s t b p')
  then show ?case
    unfolding worker_finish_def Let_def using running_update [of j "th_workers s" W_ready] by (auto simp: queue_inv_def pool_ok_def pool_tasks_def)
next
  case (submit_push i s t p' ws)
  then have "pl_count (th_pool s) < pl_queue_size (th_pool s)" "p' = pool_push (th_pool s) t"
    by (auto simp: queue_inv_def pool_ok_def split: if_splits)
  with submit_push pool_push_ok [of "th_pool s" t] signal_running [of "th_workers s" ws] show ?case
    by (simp add: queue_inv_def)
next
  case (try_push s t p' ws)
  then have "pl_count (th_pool s) < pl_queue_size (th_pool s)" "p' = pool_push (th_pool s) t"
    by (auto simp: queue_inv_def pool_ok_def pool_try_submit_def split: if_splits)
  with try_push pool_push_ok [of "th_pool s" t] signal_running [of "th_workers s" ws] show ?case
    by (simp add: queue_inv_def)
next
  case (worker_sleep j s)
  then show ?case using running_update [of j "th_workers s" W_wait] by (auto simp: queue_inv_def)
next
  case (worker_exit j s)
  then show ?case using running_update [of j "th_workers s" W_exit] by (auto simp: queue_inv_def)
next
  case (worker_wakes j s)
  then show ?case using running_update [of j "th_workers s" W_ready] by (auto simp: queue_inv_def)
next
  case (destroy s)
  then show ?case by (auto simp: queue_inv_def running_wake pool_ok_def pool_tasks_def pool_shutdown_def)
qed (auto simp: queue_inv_def split: if_splits)

lemma set_update: "x \<in> set (xs[i := y]) \<Longrightarrow> x = y \<or> x \<in> set xs"
  using set_update_subset_insert [of xs i y] by auto

lemma worker_inv_step:
  assumes "pool_step s s'" "worker_inv s" "queue_inv s"
  shows "worker_inv s'"
  using assms
proof (induction rule: pool_step.induct)
  case (worker_pop j s t p' cs)
  then show ?case
    using pop_fields [of "th_pool s" t p'] awake_update [of j "th_workers s" "W_run t"]
    by (auto simp: worker_inv_def dest!: set_update)
next
  case (worker_done j s t b p')
  then show ?case
    unfolding worker_finish_def Let_def
    using awake_update [of j "th_workers s" W_ready] by (auto simp: worker_inv_def dest!: set_update)
next
  case (submit_push i s t p' ws)
  then have p': "\<not> pl_shutdown (th_pool s)" "p' = pool_push (th_pool s) t" by (auto split: if_splits)
  from submit_push(4) show ?case
  proof (cases rule: signal_not_empty_cases)
    case (woke j)
    with submit_push p' awake_update [of j "th_workers s" W_ready] show ?thesis
      by (auto simp: worker_inv_def dest!: set_update)
  next
    case nobody
    with submit_push p' show ?thesis by (auto simp: worker_inv_def)
  qed
next
  case (try_push s t p' ws)
  then have p': "\<not> pl_shutdown (th_pool s)" "p' = pool_push (th_pool s) t"
    by (auto simp: pool_try_submit_def split: if_splits)
  from try_push(2) show ?case
  proof (cases rule: signal_not_empty_cases)
    case (woke j)
    with try_push p' awake_update [of j "th_workers s" W_ready] show ?thesis
      by (auto simp: worker_inv_def dest!: set_update)
  next
    case nobody
    with try_push p' show ?thesis by (auto simp: worker_inv_def)
  qed
next
  case (worker_wakes j s)
  then show ?case
    using awake_update [of j "th_workers s" W_ready] by (auto simp: worker_inv_def dest!: set_update)
qed (auto simp: worker_inv_def wake_worker_def pool_shutdown_def dest!: set_update split: if_splits)

lemma wake_submit_simps [simp]: "C_sleep t \<notin> wake_submit ` A" "C_wait \<in> wake_submit ` A \<longleftrightarrow> C_wait \<in> A"
  by (force simp: wake_submit_def split: client.splits)+

lemma wake_wait_eq: "wake_wait c = C_submit t \<longleftrightarrow> c = C_submit t"
  by (auto simp: wake_wait_def)

lemma wake_wait_simps [simp]: "C_sleep t \<in> wake_wait ` A \<longleftrightarrow> C_sleep t \<in> A" "C_wait \<notin> wake_wait ` A"
  by (force simp: wake_wait_def, auto simp: wake_wait_def image_iff)

lemma trying_wake: "trying (map wake_wait cs) = trying cs"
  by (simp add: trying_def filter_map o_def wake_wait_eq)

lemma client_inv_step:
  assumes "pool_step s s'" "client_inv s" "queue_inv s"
  shows "client_inv s'"
  using assms
proof (induction rule: pool_step.induct)
  case (worker_pop j s t p' cs)
  have p': "pl_active p' \<noteq> 0" "pl_count p' = pl_count (th_pool s) - 1" "pl_shutdown p' = pl_shutdown (th_pool s)"
    "pl_queue_size p' = pl_queue_size (th_pool s)"
    using pop_fields [of "th_pool s" t p'] worker_pop(3) by auto
  from worker_pop(4) show ?case
  proof (cases rule: signal_not_full_cases)
    case (woke i u)
    have "C_sleep u \<in> set (th_clients s)" using woke(1,2) by (metis nth_mem)
    with woke worker_pop(5) p' trying_update [of i "th_clients s" "C_submit u"] show ?thesis
      by (auto simp: client_inv_def idle_def dest!: set_update)
  next
    case nobody
    with worker_pop p' show ?thesis by (auto simp: client_inv_def idle_def)
  qed
next
  case (worker_done j s t b p')
  then show ?case
    unfolding worker_finish_def Let_def by (auto simp: client_inv_def trying_wake idle_def)
next
  case (submit_push i s t p' ws)
  then have "p' = pool_push (th_pool s) t" by (auto split: if_splits)
  with submit_push show ?case
    using trying_update [of i "th_clients s" C_out] by (auto simp: client_inv_def idle_def dest!: set_update)
next
  case (submit_call i s t)
  then show ?case
    using trying_update [of i "th_clients s" "C_submit t"] by (auto simp: client_inv_def dest!: set_update)
next
  case (submit_sleep i s t)
  then show ?case by (auto simp: client_inv_def dest!: set_update)
next
  case (submit_wakes i s t)
  then show ?case
    using trying_update [of i "th_clients s" "C_submit t"] by (auto simp: client_inv_def dest!: set_update)
next
  case (wait_call i s)
  then show ?case using trying_update [of i "th_clients s" C_test] by (auto simp: client_inv_def dest!: set_update)
next
  case (wait_sleep i s)
  then show ?case using trying_update [of i "th_clients s" C_wait] by (auto simp: client_inv_def dest!: set_update)
next
  case (wait_return i s r p')
  then show ?case using trying_update [of i "th_clients s" C_out] by (auto simp: client_inv_def dest!: set_update)
next
  case (wait_wakes i s)
  then show ?case using trying_update [of i "th_clients s" C_test] by (auto simp: client_inv_def dest!: set_update)
next
  case (destroy s)
  then show ?case by (auto simp: client_inv_def idle_def pool_shutdown_def)
next
  case (submit_refused i s t p')
  then show ?case by (auto simp: client_inv_def dest!: set_update split: if_splits)
next
  case (try_push s t p' ws)
  then show ?case by (auto simp: client_inv_def idle_def pool_try_submit_def split: if_splits)
qed (auto simp: client_inv_def idle_def dest!: set_update)

subsection \<open>Creating a pool\<close>

datatype resource =
    R_pool | R_threads | R_queue | R_mutex | R_not_empty | R_not_full | R_finished | R_thread nat

datatype event = Acquire resource | Release resource

text \<open>
  \<open>okr\<close> says which of the allocations, initializations and thread creations succeed.  The result is
  the pool, if there is one, and the trace of what was acquired and released.  A failed thread
  creation joins the threads made so far.
\<close>

fun spawn :: "(resource \<Rightarrow> bool) \<Rightarrow> nat \<Rightarrow> nat \<Rightarrow> bool \<times> event list" where
  "spawn okr i 0 = (True, [])"
| "spawn okr i (Suc n) =
     (if okr (R_thread i)
      then (case spawn okr (i + 1) n of (b, tr) \<Rightarrow> (b, Acquire (R_thread i) # tr))
      else (False, map (\<lambda>j. Release (R_thread j)) [0..<i]))"

definition teardown :: "event list" where
  "teardown = [Release R_finished, Release R_not_full, Release R_not_empty, Release R_mutex,
     Release R_queue, Release R_threads, Release R_pool]"

definition pool_create :: "(resource \<Rightarrow> bool) \<Rightarrow> 'a \<Rightarrow> nat \<Rightarrow> nat \<Rightarrow> 'a pool option \<times> event list" where
  "pool_create okr zero num_threads queue_size =
     (if num_threads = 0 \<or> queue_size = 0 then (None, [])
      else if \<not> okr R_pool then (None, [])
      else if \<not> okr R_threads then (None, [Acquire R_pool, Release R_pool])
      else if \<not> okr R_queue
      then (None, [Acquire R_pool, Acquire R_threads, Release R_threads, Release R_pool])
      else if \<not> okr R_mutex
      then (None, [Acquire R_pool, Acquire R_threads, Acquire R_queue,
                   Release R_queue, Release R_threads, Release R_pool])
      else if \<not> okr R_not_empty
      then (None, [Acquire R_pool, Acquire R_threads, Acquire R_queue, Acquire R_mutex,
                   Release R_mutex, Release R_queue, Release R_threads, Release R_pool])
      else if \<not> okr R_not_full
      then (None, [Acquire R_pool, Acquire R_threads, Acquire R_queue, Acquire R_mutex, Acquire R_not_empty,
                   Release R_not_empty, Release R_mutex, Release R_queue, Release R_threads, Release R_pool])
      else if \<not> okr R_finished
      then (None, [Acquire R_pool, Acquire R_threads, Acquire R_queue, Acquire R_mutex, Acquire R_not_empty,
                   Acquire R_not_full, Release R_not_full, Release R_not_empty, Release R_mutex,
                   Release R_queue, Release R_threads, Release R_pool])
      else
        let acq = [Acquire R_pool, Acquire R_threads, Acquire R_queue, Acquire R_mutex, Acquire R_not_empty,
                   Acquire R_not_full, Acquire R_finished] in
        (case spawn okr 0 num_threads of
           (True, tr) \<Rightarrow> (Some \<lparr>pl_queue = replicate queue_size zero, pl_queue_size = queue_size, pl_head = 0,
                             pl_tail = 0, pl_count = 0, pl_active = 0, pl_shutdown = False\<rparr>, acq @ tr)
         | (False, tr) \<Rightarrow> (None, acq @ tr @ teardown)))"

text \<open>\<open>pool_destroy\<close> after the shutdown step: join the workers, then release the rest.\<close>

definition pool_destroy_trace :: "nat \<Rightarrow> event list" where
  "pool_destroy_trace num_threads = map (\<lambda>j. Release (R_thread j)) [0..<num_threads] @ teardown"

fun held :: "event list \<Rightarrow> resource set \<Rightarrow> resource set option" where
  "held [] H = Some H"
| "held (Acquire r # es) H = (if r \<in> H then None else held es (insert r H))"
| "held (Release r # es) H = (if r \<in> H then held es (H - {r}) else None)"

text \<open>\<open>None\<close>: something is acquired twice or released without being held.\<close>

lemma held_append: "held (es @ fs) H = (case held es H of None \<Rightarrow> None | Some H' \<Rightarrow> held fs H')"
  by (induction es H rule: held.induct) auto

lemma held_release_threads:
  assumes "R_thread ` {..<i} \<subseteq> H"
  shows "held (map (\<lambda>j. Release (R_thread j)) [0..<i]) H = Some (H - R_thread ` {..<i})"
  using assms
proof (induction i)
  case (Suc i)
  have "R_thread ` {..<i} \<subseteq> H" using Suc.prems by (auto simp: lessThan_Suc)
  then have "held (map (\<lambda>j. Release (R_thread j)) [0..<i]) H = Some (H - R_thread ` {..<i})" by (rule Suc.IH)
  moreover have "R_thread i \<in> H" using Suc.prems by auto
  ultimately show ?case by (auto simp: held_append lessThan_Suc)
qed simp

lemma spawn_held:
  assumes "spawn okr i n = (b, tr)" "\<forall>j. R_thread j \<in> H \<longleftrightarrow> j < i"
  shows "held tr H = Some (if b then H \<union> R_thread ` {..<i + n} else H - R_thread ` UNIV)"
  using assms
proof (induction okr i n arbitrary: b tr H rule: spawn.induct)
  case (1 okr i)
  then show ?case by auto
next
  case (2 okr i n)
  show ?case
  proof (cases "okr (R_thread i)")
    case True
    then obtain tr' where tr': "spawn okr (i + 1) n = (b, tr')" "tr = Acquire (R_thread i) # tr'"
      using "2.prems"(1) by (auto split: prod.splits)
    have mem: "\<forall>j. R_thread j \<in> insert (R_thread i) H \<longleftrightarrow> j < i + 1"
      using "2.prems"(2) by (simp add: less_Suc_eq disj_commute)
    have "insert (R_thread i) H \<union> R_thread ` {..<i + 1 + n} = H \<union> R_thread ` {..<i + Suc n}"
      "insert (R_thread i) H - R_thread ` UNIV = H - R_thread ` UNIV" by auto
    with "2.IH" [OF True tr'(1) mem] have "held tr' (insert (R_thread i) H)
        = Some (if b then H \<union> R_thread ` {..<i + Suc n} else H - R_thread ` UNIV)" by simp
    moreover have "R_thread i \<notin> H" using "2.prems"(2) by simp
    ultimately show ?thesis by (simp add: tr'(2))
  next
    case False
    have "R_thread ` {..<i} \<subseteq> H" using "2.prems"(2) by auto
    moreover have "H - R_thread ` {..<i} = H - R_thread ` UNIV" using "2.prems"(2) by auto
    ultimately show ?thesis using False "2.prems"(1) held_release_threads by auto
  qed
qed

text \<open>A failed creation has released everything; a pool holds exactly what its destruction releases.\<close>

definition acquired :: "event list" where
  "acquired = [Acquire R_pool, Acquire R_threads, Acquire R_queue, Acquire R_mutex, Acquire R_not_empty,
     Acquire R_not_full, Acquire R_finished]"

definition base_set :: "resource set" where
  "base_set = {R_pool, R_threads, R_queue, R_mutex, R_not_empty, R_not_full, R_finished}"

lemma pool_create_cases:
  assumes "pool_create okr zero n q = (r, tr)"
  obtains (early) "r = None" "held tr {} = Some {}"
  | (failed) tr' where "r = None" "spawn okr 0 n = (False, tr')" "tr = acquired @ tr' @ teardown"
  | (created) tr' where "n \<noteq> 0" "0 < q" "spawn okr 0 n = (True, tr')" "tr = acquired @ tr'"
      "r = Some \<lparr>pl_queue = replicate q zero, pl_queue_size = q, pl_head = 0,
                 pl_tail = 0, pl_count = 0, pl_active = 0, pl_shutdown = False\<rparr>"
proof -
  obtain b tr' where sp: "spawn okr 0 n = (b, tr')" by (cases "spawn okr 0 n")
  let ?all = "n \<noteq> 0 \<and> q \<noteq> 0 \<and> okr R_pool \<and> okr R_threads \<and> okr R_queue \<and> okr R_mutex
    \<and> okr R_not_empty \<and> okr R_not_full \<and> okr R_finished"
  show thesis
  proof (cases ?all)
    case True
    with assms sp have "(r, tr) = (if b then (Some \<lparr>pl_queue = replicate q zero, pl_queue_size = q, pl_head = 0,
        pl_tail = 0, pl_count = 0, pl_active = 0, pl_shutdown = False\<rparr>, acquired @ tr') else (None, acquired @ tr' @ teardown))"
      by (cases b) (simp_all add: pool_create_def acquired_def Let_def)
    with True sp failed created show thesis by (cases b) auto
  next
    case False
    then consider "n = 0 \<or> q = 0 \<or> \<not> okr R_pool" | "\<not> okr R_threads" | "\<not> okr R_queue" | "\<not> okr R_mutex"
      | "\<not> okr R_not_empty" | "\<not> okr R_not_full" | "\<not> okr R_finished" by blast
    then have "r = None \<and> held tr {} = Some {}"
      using assms unfolding pool_create_def
      by cases (simp_all split: if_split_asm, (auto; fail)+)
    with early show thesis by blast
  qed
qed

text \<open>
  C23. Whatever allocation, initialization or thread creation fails, a failed \<open>pool_create\<close> has released
  everything it acquired, each thing once; a pool that was created is released completely by the
  joins and releases of \<^verbatim>\<open>pool_destroy\<close>.
\<close>

theorem pool_create_resources:
  assumes "pool_create okr zero n q = (r, tr)"
  shows "(r = None \<longrightarrow> held tr {} = Some {})
    \<and> (r \<noteq> None \<longrightarrow> held (tr @ pool_destroy_trace n) {} = Some {})"
proof -
  have acq: "held acquired {} = Some base_set" by (auto simp: acquired_def base_set_def)
  have down: "held teardown base_set = Some {}" by (auto simp: teardown_def base_set_def)
  have none: "base_set - R_thread ` A = base_set" for A by (auto simp: base_set_def)
  have sp: "held tr' base_set = Some (if b then base_set \<union> R_thread ` {..<n} else base_set)"
    if "spawn okr 0 n = (b, tr')" for b tr'
    using spawn_held [OF that, of base_set] by (simp add: none) (auto simp: base_set_def)
  have "(base_set \<union> R_thread ` {..<n}) - R_thread ` {..<n} = base_set" using none by blast
  then have join: "held (map (\<lambda>j. Release (R_thread j)) [0..<n]) (base_set \<union> R_thread ` {..<n}) = Some base_set"
    using held_release_threads [of n "base_set \<union> R_thread ` {..<n}"] by simp
  from assms show ?thesis
  proof (cases rule: pool_create_cases)
    case (failed tr')
    with sp [OF failed(2)] acq down show ?thesis by (simp add: held_append)
  next
    case (created tr')
    with sp [OF created(3)] acq down join show ?thesis by (simp add: held_append pool_destroy_trace_def)
  qed simp
qed

theorem pool_create_resources_witness:
  "held (snd (pool_create (\<lambda>r. r \<noteq> R_thread 1) (0 :: nat) 2 4)) {} = Some {}
   \<and> held (snd (pool_create (\<lambda>r. True) (0 :: nat) 2 4) @ pool_destroy_trace 2) {} = Some {}"
proof -
  have "fst (pool_create (\<lambda>r. r \<noteq> R_thread 1) (0 :: nat) 2 4) = None"
    "fst (pool_create (\<lambda>r. True) (0 :: nat) 2 4) \<noteq> None"
    by (simp_all add: pool_create_def numeral_2_eq_2)
  with pool_create_resources [of "\<lambda>r. r \<noteq> R_thread 1" "0 :: nat" 2 4, OF prod.collapse [symmetric]]
    pool_create_resources [of "\<lambda>r. True" "0 :: nat" 2 4, OF prod.collapse [symmetric]]
  show ?thesis by blast
qed

lemma pool_create_threads: "pool_create okr zero n q = (Some p, tr) \<Longrightarrow> n \<noteq> 0"
  by (erule pool_create_cases) auto

subsection \<open>Reachable states\<close>

definition pool_start :: "'a pool \<Rightarrow> nat \<Rightarrow> nat \<Rightarrow> 'a threads" where
  "pool_start p n m = \<lparr>th_pool = p, th_workers = replicate n W_ready, th_clients = replicate m C_out,
     th_submitted = [], th_started = []\<rparr>"

definition pool_reachable :: "'a threads \<Rightarrow> 'a threads \<Rightarrow> bool" where
  "pool_reachable s s' \<longleftrightarrow> pool_step\<^sup>*\<^sup>* s s'"

lemma pool_start_inv:
  assumes "pool_create okr zero n q = (Some p, tr)"
  shows "queue_inv (pool_start p n m) \<and> worker_inv (pool_start p n m) \<and> client_inv (pool_start p n m)"
proof -
  have "pool_ok p" "pl_count p = 0" "pl_active p = 0"
    using assms by (cases rule: pool_create_cases; simp add: pool_ok_def)+
  then show ?thesis
    by (auto simp: queue_inv_def worker_inv_def client_inv_def pool_start_def running_def pool_tasks_def)
qed

lemma pool_reachable_inv:
  assumes "pool_create okr zero n q = (Some p, tr)" "pool_reachable (pool_start p n m) s"
  shows "queue_inv s \<and> worker_inv s \<and> client_inv s \<and> length (th_workers s) = n"
  using assms(2) unfolding pool_reachable_def
proof (induction rule: rtranclp_induct)
  case base
  then show ?case using pool_start_inv [OF assms(1)] by (simp add: pool_start_def)
next
  case (step s s')
  have "length (th_workers s') = length (th_workers s)"
    using step(2) by (induction rule: pool_step.induct) (auto elim!: signal_not_empty_cases)
  with step queue_inv_step worker_inv_step client_inv_step show ?case by metis
qed

text \<open>A run with one worker, one place in the queue and three clients.\<close>

definition ex_state :: "nat \<Rightarrow> nat \<Rightarrow> nat \<Rightarrow> bool \<Rightarrow> nat worker \<Rightarrow> nat client list \<Rightarrow> nat list \<Rightarrow> nat threads" where
  "ex_state q c a sh w cs started = \<lparr>th_pool = \<lparr>pl_queue = [q], pl_queue_size = 1, pl_head = 0, pl_tail = 0,
     pl_count = c, pl_active = a, pl_shutdown = sh\<rparr>, th_workers = [w], th_clients = cs,
     th_submitted = (if q = 0 then [] else [q]), th_started = started\<rparr>"

lemma ex_create: "pool_create (\<lambda>r. True) 0 1 1 = (Some (th_pool (ex_state 0 0 0 False W_ready [] [])), acquired @ [Acquire (R_thread 0)])"
  by (simp add: pool_create_def ex_state_def acquired_def)

lemma ex_start: "pool_start (th_pool (ex_state 0 0 0 False W_ready [] [])) 1 3 = ex_state 0 0 0 False W_ready [C_out, C_out, C_out] []"
  by (simp add: pool_start_def ex_state_def numeral_3_eq_3)

lemma ex_steps:
  "pool_step (ex_state 0 0 0 False W_ready [C_out, C_out, C_out] []) (ex_state 1 1 0 False W_ready [C_out, C_out, C_out] [])"
  "pool_step (ex_state 1 1 0 False W_ready [C_out, C_out, C_out] []) (ex_state 1 1 0 False W_ready [C_submit 2, C_out, C_out] [])"
  "pool_step (ex_state 1 1 0 False W_ready [C_submit 2, C_out, C_out] []) (ex_state 1 1 0 False W_ready [C_sleep 2, C_out, C_out] [])"
  "pool_step (ex_state 1 1 0 False W_ready [C_sleep 2, C_out, C_out] []) (ex_state 1 1 0 False W_ready [C_sleep 2, C_submit 3, C_out] [])"
  "pool_step (ex_state 1 1 0 False W_ready [C_sleep 2, C_submit 3, C_out] []) (ex_state 1 1 0 False W_ready [C_sleep 2, C_sleep 3, C_out] [])"
  "pool_step (ex_state 1 1 0 False W_ready [C_sleep 2, C_sleep 3, C_out] []) (ex_state 1 0 1 False (W_run 1) [C_submit 2, C_sleep 3, C_out] [1])"
  "pool_step (ex_state 1 0 1 False (W_run 1) [C_submit 2, C_sleep 3, C_out] [1]) (ex_state 1 0 0 False W_ready [C_submit 2, C_sleep 3, C_out] [1])"
  "pool_step (ex_state 1 0 0 False W_ready [C_submit 2, C_sleep 3, C_out] [1]) (ex_state 1 0 0 True W_ready [C_submit 2, C_submit 3, C_out] [1])"
  "pool_step (ex_state 1 0 0 True W_ready [C_submit 2, C_submit 3, C_out] [1]) (ex_state 1 0 0 True W_exit [C_submit 2, C_submit 3, C_out] [1])"
proof -
  note defs = ex_state_def pool_try_submit_def pool_push_def pool_pop_def signal_not_empty_def signal_not_full_def
    worker_finish_def idle_def wake_wait_def wake_submit_def wake_worker_def pool_shutdown_def Let_def
  show "pool_step (ex_state 0 0 0 False W_ready [C_out, C_out, C_out] []) (ex_state 1 1 0 False W_ready [C_out, C_out, C_out] [])"
    using pool_step.try_push [of "ex_state 0 0 0 False W_ready [C_out, C_out, C_out] []" 1 _ "[W_ready]"] by (simp add: defs)
  show "pool_step (ex_state 1 1 0 False W_ready [C_out, C_out, C_out] []) (ex_state 1 1 0 False W_ready [C_submit 2, C_out, C_out] [])"
    using pool_step.submit_call [of 0 "ex_state 1 1 0 False W_ready [C_out, C_out, C_out] []" 2] by (simp add: defs)
  show "pool_step (ex_state 1 1 0 False W_ready [C_submit 2, C_out, C_out] []) (ex_state 1 1 0 False W_ready [C_sleep 2, C_out, C_out] [])"
    using pool_step.submit_sleep [of 0 "ex_state 1 1 0 False W_ready [C_submit 2, C_out, C_out] []" 2] by (simp add: defs)
  show "pool_step (ex_state 1 1 0 False W_ready [C_sleep 2, C_out, C_out] []) (ex_state 1 1 0 False W_ready [C_sleep 2, C_submit 3, C_out] [])"
    using pool_step.submit_call [of 1 "ex_state 1 1 0 False W_ready [C_sleep 2, C_out, C_out] []" 3] by (simp add: defs)
  show "pool_step (ex_state 1 1 0 False W_ready [C_sleep 2, C_submit 3, C_out] []) (ex_state 1 1 0 False W_ready [C_sleep 2, C_sleep 3, C_out] [])"
    using pool_step.submit_sleep [of 1 "ex_state 1 1 0 False W_ready [C_sleep 2, C_submit 3, C_out] []" 3] by (simp add: defs)
  show "pool_step (ex_state 1 1 0 False W_ready [C_sleep 2, C_sleep 3, C_out] []) (ex_state 1 0 1 False (W_run 1) [C_submit 2, C_sleep 3, C_out] [1])"
  proof -
    have "signal_not_full [C_sleep 2, C_sleep 3, C_out] [C_submit 2, C_sleep 3, C_out]"
      unfolding signal_not_full_def by (auto intro!: exI [of _ 0])
    then show ?thesis
      using pool_step.worker_pop [of 0 "ex_state 1 1 0 False W_ready [C_sleep 2, C_sleep 3, C_out] []" 1
          "th_pool (ex_state 1 0 1 False W_ready [] [])" "[C_submit 2, C_sleep 3, C_out]"]
      by (simp add: ex_state_def pool_pop_def)
  qed
  show "pool_step (ex_state 1 0 1 False (W_run 1) [C_submit 2, C_sleep 3, C_out] [1]) (ex_state 1 0 0 False W_ready [C_submit 2, C_sleep 3, C_out] [1])"
    using pool_step.worker_done [of 0 "ex_state 1 0 1 False (W_run 1) [C_submit 2, C_sleep 3, C_out] [1]" 1] by (simp add: defs)
  show "pool_step (ex_state 1 0 0 False W_ready [C_submit 2, C_sleep 3, C_out] [1]) (ex_state 1 0 0 True W_ready [C_submit 2, C_submit 3, C_out] [1])"
    using pool_step.destroy [of "ex_state 1 0 0 False W_ready [C_submit 2, C_sleep 3, C_out] [1]"] by (simp add: defs)
  show "pool_step (ex_state 1 0 0 True W_ready [C_submit 2, C_submit 3, C_out] [1]) (ex_state 1 0 0 True W_exit [C_submit 2, C_submit 3, C_out] [1])"
    using pool_step.worker_exit [of 0 "ex_state 1 0 0 True W_ready [C_submit 2, C_submit 3, C_out] [1]"] by (simp add: defs)
qed

lemma ex_reachable:
  "pool_reachable (pool_start (th_pool (ex_state 0 0 0 False W_ready [] [])) 1 3) (ex_state 1 1 0 False W_ready [C_sleep 2, C_sleep 3, C_out] [])"
  "pool_reachable (pool_start (th_pool (ex_state 0 0 0 False W_ready [] [])) 1 3) (ex_state 1 0 1 False (W_run 1) [C_submit 2, C_sleep 3, C_out] [1])"
  "pool_reachable (pool_start (th_pool (ex_state 0 0 0 False W_ready [] [])) 1 3) (ex_state 1 0 0 False W_ready [C_submit 2, C_sleep 3, C_out] [1])"
  "pool_reachable (pool_start (th_pool (ex_state 0 0 0 False W_ready [] [])) 1 3) (ex_state 1 0 0 True W_exit [C_submit 2, C_submit 3, C_out] [1])"
proof -
  note more = rtranclp.rtrancl_into_rtrancl [where r = pool_step]
  note s5 = more [OF more [OF more [OF more [OF r_into_rtranclp [where r = pool_step, OF ex_steps(1)] ex_steps(2)] ex_steps(3)] ex_steps(4)] ex_steps(5)]
  note s6 = more [OF s5 ex_steps(6)] and s7 = more [OF more [OF s5 ex_steps(6)] ex_steps(7)]
  note s9 = more [OF more [OF s7 ex_steps(8)] ex_steps(9)]
  show "pool_reachable (pool_start (th_pool (ex_state 0 0 0 False W_ready [] [])) 1 3) (ex_state 1 1 0 False W_ready [C_sleep 2, C_sleep 3, C_out] [])"
    "pool_reachable (pool_start (th_pool (ex_state 0 0 0 False W_ready [] [])) 1 3) (ex_state 1 0 1 False (W_run 1) [C_submit 2, C_sleep 3, C_out] [1])"
    "pool_reachable (pool_start (th_pool (ex_state 0 0 0 False W_ready [] [])) 1 3) (ex_state 1 0 0 False W_ready [C_submit 2, C_sleep 3, C_out] [1])"
    "pool_reachable (pool_start (th_pool (ex_state 0 0 0 False W_ready [] [])) 1 3) (ex_state 1 0 0 True W_exit [C_submit 2, C_submit 3, C_out] [1])"
    unfolding pool_reachable_def ex_start by (fact s5 s6 s7 s9)+
qed

text \<open>
  C5. Tasks are begun in the order in which they were accepted, none is lost and none is run twice:
  the accepted tasks are the ones begun followed by the ones in the queue.
\<close>

theorem pool_fifo:
  assumes "pool_create okr zero n q = (Some p, tr)" "pool_reachable (pool_start p n m) s"
  shows "th_submitted s = th_started s @ pool_tasks (th_pool s)"
  using pool_reachable_inv [OF assms] by (simp add: queue_inv_def)

theorem pool_fifo_witness:
  "th_submitted (ex_state 1 1 0 False W_ready [C_sleep 2, C_sleep 3, C_out] [])
     = [] @ pool_tasks (th_pool (ex_state 1 1 0 False W_ready [C_sleep 2, C_sleep 3, C_out] []))"
  using pool_fifo [OF ex_create ex_reachable(1)] by (simp add: ex_state_def)

lemma awake_pos: "0 < awake ws \<longleftrightarrow> (\<exists>j < length ws. ws ! j = W_ready \<or> (\<exists>t. ws ! j = W_run t))"
  unfolding awake_def length_greater_0_conv filter_empty_conv by (metis in_set_conv_nth)

text \<open>
  No wake-up is lost: while tasks are queued some worker runs or is about to test the queue.
\<close>

theorem pool_no_lost_task:
  assumes "pool_create okr zero n q = (Some p, tr)" "pool_reachable (pool_start p n m) s"
    and "pl_count (th_pool s) \<noteq> 0"
  shows "\<exists>j < length (th_workers s). th_workers s ! j = W_ready \<or> (\<exists>t. th_workers s ! j = W_run t)"
proof -
  have inv: "worker_inv s" "length (th_workers s) = n" using pool_reachable_inv [OF assms(1,2)] by auto
  have "n \<noteq> 0" by (rule pool_create_threads [OF assms(1)])
  show ?thesis
  proof (cases "W_wait \<in> set (th_workers s)")
    case True
    with inv(1) assms(3) have "0 < awake (th_workers s)" by (auto simp: worker_inv_def)
    then show ?thesis by (simp add: awake_pos)
  next
    case False
    have "W_exit \<notin> set (th_workers s)" using inv(1) assms(3) by (auto simp: worker_inv_def)
    then have "th_workers s ! 0 \<noteq> W_exit" "th_workers s ! 0 \<noteq> W_wait"
      using False \<open>n \<noteq> 0\<close> inv(2) by (metis gr0I nth_mem)+
    then show ?thesis using \<open>n \<noteq> 0\<close> inv(2) by (intro exI [of _ 0]) (cases "th_workers s ! 0"; simp)
  qed
qed

theorem pool_no_lost_task_witness:
  "\<exists>j < length (th_workers (ex_state 1 1 0 False W_ready [C_sleep 2, C_sleep 3, C_out] [])).
     th_workers (ex_state 1 1 0 False W_ready [C_sleep 2, C_sleep 3, C_out] []) ! j = W_ready
     \<or> (\<exists>t. th_workers (ex_state 1 1 0 False W_ready [C_sleep 2, C_sleep 3, C_out] []) ! j = W_run t)"
  by (rule pool_no_lost_task [OF ex_create ex_reachable(1)]) (simp add: ex_state_def)

text \<open>
  A client that sleeps although there is room is not stuck: another client has been woken and is
  about to test for room.
\<close>

theorem pool_no_lost_room:
  assumes "pool_create okr zero n q = (Some p, tr)" "pool_reachable (pool_start p n m) s"
    and "C_sleep t \<in> set (th_clients s)" "pl_count (th_pool s) < pl_queue_size (th_pool s)"
  shows "\<exists>u. C_submit u \<in> set (th_clients s)"
proof -
  have "client_inv s" using pool_reachable_inv [OF assms(1,2)] by auto
  with assms(3,4) have "0 < trying (th_clients s)" by (force simp: client_inv_def)
  then show ?thesis by (auto simp: trying_def length_greater_0_conv filter_empty_conv)
qed

theorem pool_no_lost_room_witness:
  "\<exists>u. C_submit u \<in> set (th_clients (ex_state 1 0 1 False (W_run 1) [C_submit 2, C_sleep 3, C_out] [1]))"
  by (rule pool_no_lost_room [OF ex_create ex_reachable(2), of 3]) (simp_all add: ex_state_def)

text \<open>
  C25. When \<open>pool_wait\<close> returns, every task accepted so far has been begun and none is running.
\<close>

theorem pool_wait_all_done:
  assumes "pool_create okr zero n q = (Some p, tr)" "pool_reachable (pool_start p n m) s"
    and "pool_wait (th_pool s) = CS_return r p'"
  shows "th_started s = th_submitted s \<and> (\<forall>t. W_run t \<notin> set (th_workers s))"
  using pool_reachable_inv [OF assms(1,2)] assms(3)
  by (auto simp: queue_inv_def idle_def running_def filter_empty_conv)

theorem pool_wait_all_done_witness:
  "th_started (ex_state 1 0 0 False W_ready [C_submit 2, C_sleep 3, C_out] [1])
     = th_submitted (ex_state 1 0 0 False W_ready [C_submit 2, C_sleep 3, C_out] [1])"
  using pool_wait_all_done [OF ex_create ex_reachable(3)] by (simp add: ex_state_def idle_def)

text \<open>
  When all workers have left after a shutdown, every accepted task has been run.
\<close>

theorem pool_exit_drained:
  assumes "pool_create okr zero n q = (Some p, tr)" "pool_reachable (pool_start p n m) s"
    and "\<forall>w \<in> set (th_workers s). w = W_exit"
  shows "th_started s = th_submitted s"
proof -
  have inv: "worker_inv s" "queue_inv s" "length (th_workers s) = n" using pool_reachable_inv [OF assms(1,2)] by auto
  have "n \<noteq> 0" by (rule pool_create_threads [OF assms(1)])
  then have "W_exit \<in> set (th_workers s)" using assms(3) inv(3) by (metis length_greater_0_conv neq0_conv nth_mem)
  with inv show ?thesis by (simp add: worker_inv_def queue_inv_def)
qed

theorem pool_exit_drained_witness:
  "th_started (ex_state 1 0 0 True W_exit [C_submit 2, C_submit 3, C_out] [1])
     = th_submitted (ex_state 1 0 0 True W_exit [C_submit 2, C_submit 3, C_out] [1])"
  by (rule pool_exit_drained [OF ex_create ex_reachable(4)]) (simp add: ex_state_def)

end
