(* ===== verification/Generics.thy ===== *)
theory Generics
  imports Czet_Prelude
begin

text \<open>
  Generic functions and generic structures, c-decl.cc.  A generic function is a template whose
  prototype has placeholder types; a call builds an instance declaration.  A generic structure is
  copied field by field with the placeholders replaced.

  The type nodes live in a heap, a list in which the address of a node is its position, because
  \<^verbatim>\<open>walk_tree\<close> rewrites the operands of shared nodes in place.  The recursion through nested templates
  has no bound in the source: it takes fuel, and \<open>None\<close> is a recursion that has not ended.  Parameters:
  the numbers of the tree codes, the text of an address (\<^verbatim>\<open>%p\<close>), the address of \<^verbatim>\<open>integer_type_node\<close>, the
  layout computed by \<^verbatim>\<open>finish_struct\<close>, and the address \<^verbatim>\<open>build_array_type\<close> returns.  Members of a structure are
  \<^verbatim>\<open>FIELD_DECL\<close>s, as the C parser makes them; \<^verbatim>\<open>error_mark_node\<close> entries of the lists are left out.  The walk
  with a visited set that \<^verbatim>\<open>walk_tree\<close> starts on chains of four pointers is taken to be the plain walk.
\<close>

subsection \<open>Type nodes and state\<close>

datatype gcode = G_INTEGER | G_BITINT | G_TPL | G_POINTER | G_REFERENCE | G_ARRAY | G_FUNCTION
  | G_RECORD | G_UNION | G_OTHER nat

datatype gname = GN_none | GN_ident string | GN_decl string

type_synonym taddr = nat

record gnode =
  gt_code :: gcode
  gt_name :: gname
  gt_size :: "nat option"
  gt_target :: taddr
  gt_args :: "taddr list"
  gt_fields :: "(string \<times> taddr) list"

record gparams =
  gp_code_no :: "gcode \<Rightarrow> nat"
  gp_ptr :: "nat \<Rightarrow> string"
  gp_int :: taddr
  gp_layout :: "gnode list \<Rightarrow> (string \<times> taddr) list \<Rightarrow> nat option"
  gp_array :: "gnode list \<Rightarrow> taddr \<Rightarrow> nat option"

record gdecl =
  gd_name :: string
  gd_ret :: taddr
  gd_args :: "taddr list"

record gtempl =
  gm_id :: nat
  gm_ret :: taddr
  gm_args :: "taddr list"

type_synonym bindings = "string \<rightharpoonup> taddr"

record gstate =
  gs_heap :: "gnode list"
  gs_params :: "(nat \<times> string list) list"
  gs_bindings :: bindings
  gs_binding_template :: "nat option"
  gs_current_fn :: "nat option"
  gs_current_parms :: "string list"
  gs_counter :: nat
  gs_instances :: "string \<rightharpoonup> gdecl"
  gs_templates :: "string \<rightharpoonup> taddr"
  gs_tparams :: "string \<rightharpoonup> string list"
  gs_cache :: "string \<rightharpoonup> (string \<times> taddr) list"
  gs_tcounter :: nat

definition node :: "gstate \<Rightarrow> taddr \<Rightarrow> gnode" where
  "node st a = gs_heap st ! a"

definition alloc :: "gnode \<Rightarrow> gstate \<Rightarrow> taddr \<times> gstate" where
  "alloc n st = (length (gs_heap st), st\<lparr>gs_heap := gs_heap st @ [n]\<rparr>)"

definition put_node :: "taddr \<Rightarrow> gnode \<Rightarrow> gstate \<Rightarrow> gstate" where
  "put_node a n st = st\<lparr>gs_heap := (gs_heap st)[a := n]\<rparr>"

subsection \<open>Type parameters and bindings\<close>

definition czet_generic_params :: "gstate \<Rightarrow> nat \<Rightarrow> string list" where
  "czet_generic_params st fn = (case map_of (gs_params st) fn of None \<Rightarrow> [] | Some ps \<Rightarrow> ps)"

text \<open>An entry of the list is overwritten, or a new one put in front.\<close>

fun set_params :: "nat \<Rightarrow> 'a \<Rightarrow> (nat \<times> 'a) list \<Rightarrow> (nat \<times> 'a) list option" where
  "set_params fn ps [] = None"
| "set_params fn ps ((f, q) # xs) =
     (if f = fn then Some ((f, ps) # xs) else map_option ((#) (f, q)) (set_params fn ps xs))"

definition czet_set_generic_params :: "gstate \<Rightarrow> nat \<Rightarrow> string list \<Rightarrow> gstate" where
  "czet_set_generic_params st fn ps =
     st\<lparr>gs_params := (case set_params fn ps (gs_params st) of
                        None \<Rightarrow> (fn, ps) # gs_params st | Some xs \<Rightarrow> xs)\<rparr>"

text \<open>The loop over names and types side by side; a repeated name keeps the last type.\<close>

definition bind_types :: "string list \<Rightarrow> taddr list \<Rightarrow> bindings" where
  "bind_types names types = fold (\<lambda>(n, t) m. m(n \<mapsto> t)) (zip names types) Map.empty"

definition czet_set_instantiation_bindings :: "gstate \<Rightarrow> nat \<Rightarrow> taddr list \<Rightarrow> gstate" where
  "czet_set_instantiation_bindings st templ types =
     st\<lparr>gs_binding_template := Some templ, gs_bindings := bind_types (czet_generic_params st templ) types\<rparr>"

definition czet_clear_instantiation_bindings :: "gstate \<Rightarrow> gstate" where
  "czet_clear_instantiation_bindings st = st\<lparr>gs_binding_template := None, gs_bindings := Map.empty\<rparr>"

definition czet_set_binding_template :: "gstate \<Rightarrow> nat option \<Rightarrow> gstate" where
  "czet_set_binding_template st templ = st\<lparr>gs_binding_template := templ\<rparr>"

definition czet_instantiation_active :: "gstate \<Rightarrow> bool" where
  "czet_instantiation_active st \<longleftrightarrow> gs_binding_template st \<noteq> None"

definition czet_push_generic_fn :: "gstate \<Rightarrow> nat \<Rightarrow> gstate" where
  "czet_push_generic_fn st fn = st\<lparr>gs_current_fn := Some fn\<rparr>"

definition czet_pop_generic_fn :: "gstate \<Rightarrow> gstate" where
  "czet_pop_generic_fn st = st\<lparr>gs_current_fn := None, gs_current_parms := []\<rparr>"

definition czet_set_generic_scope :: "gstate \<Rightarrow> string list \<Rightarrow> gstate" where
  "czet_set_generic_scope st ps = st\<lparr>gs_current_parms := ps\<rparr>"

text \<open>The placeholder is a copy of \<^verbatim>\<open>int\<close> under the name of the parameter.\<close>

definition czet_make_type_parm :: "gparams \<Rightarrow> gstate \<Rightarrow> string \<Rightarrow> taddr \<times> gstate" where
  "czet_make_type_parm G st name = alloc ((node st (gp_int G))\<lparr>gt_name := GN_ident name\<rparr>) st"

definition czet_param_placeholder :: "gparams \<Rightarrow> gstate \<Rightarrow> string \<Rightarrow> taddr option \<times> gstate" where
  "czet_param_placeholder G st name =
     (case gs_bindings st name of
        Some t \<Rightarrow> (Some t, st)
      | None \<Rightarrow>
          if name \<in> set (gs_current_parms st)
          then (case czet_make_type_parm G st name of (a, st') \<Rightarrow> (Some a, st'))
          else (None, st))"

subsection \<open>Structure templates\<close>

definition czet_set_type_template :: "gstate \<Rightarrow> string \<Rightarrow> string list \<Rightarrow> taddr \<Rightarrow> gstate" where
  "czet_set_type_template st tag ps t =
     st\<lparr>gs_templates := (gs_templates st)(tag \<mapsto> t), gs_tparams := (gs_tparams st)(tag \<mapsto> ps)\<rparr>"

definition czet_get_type_template_type :: "gstate \<Rightarrow> string \<Rightarrow> taddr option" where
  "czet_get_type_template_type st tag = gs_templates st tag"

definition czet_get_type_template_params :: "gstate \<Rightarrow> string \<Rightarrow> string list" where
  "czet_get_type_template_params st tag = (case gs_tparams st tag of None \<Rightarrow> [] | Some ps \<Rightarrow> ps)"

definition is_aggregate :: "gnode \<Rightarrow> bool" where
  "is_aggregate n \<longleftrightarrow> gt_code n = G_RECORD \<or> gt_code n = G_UNION"

definition is_pointer :: "gnode \<Rightarrow> bool" where
  "is_pointer n \<longleftrightarrow> gt_code n = G_POINTER \<or> gt_code n = G_REFERENCE"

text \<open>The tag of an aggregate that is named like a registered template.\<close>

definition template_tag :: "gstate \<Rightarrow> taddr \<Rightarrow> string option" where
  "template_tag st a =
     (if is_aggregate (node st a) then
        (case gt_name (node st a) of
           GN_ident tag \<Rightarrow> if czet_get_type_template_type st tag \<noteq> None then Some tag else None
         | _ \<Rightarrow> None)
      else None)"

text \<open>What the callback puts in the place of a placeholder; any other node stays.\<close>

definition subst_placeholder :: "gparams \<Rightarrow> bindings \<Rightarrow> gstate \<Rightarrow> taddr \<Rightarrow> taddr" where
  "subst_placeholder G bound st a =
     (case (gt_code (node st a), gt_name (node st a)) of
        (G_TPL, GN_none) \<Rightarrow> gp_int G
      | (G_TPL, GN_ident x) \<Rightarrow> (case bound x of None \<Rightarrow> gp_int G | Some c \<Rightarrow> c)
      | (G_TPL, GN_decl x) \<Rightarrow> gp_int G
      | (G_INTEGER, GN_ident x) \<Rightarrow> (case bound x of None \<Rightarrow> a | Some c \<Rightarrow> c)
      | _ \<Rightarrow> a)"

type_synonym instantiate = "string \<Rightarrow> taddr list \<Rightarrow> gstate \<Rightarrow> (taddr option \<times> gstate) option"

fun walk_list :: "(taddr \<Rightarrow> gstate \<Rightarrow> (taddr \<times> gstate) option) \<Rightarrow> taddr list \<Rightarrow> gstate \<Rightarrow> (taddr list \<times> gstate) option" where
  "walk_list f [] st = Some ([], st)"
| "walk_list f (a # as) st =
     (case f a st of
        None \<Rightarrow> None
      | Some (a', st1) \<Rightarrow> map_option (\<lambda>(as', st2). (a' # as', st2)) (walk_list f as st1))"

text \<open>
  \<open>walk_tree (&t, czet_subst_walk, bound)\<close>: the new value of \<open>t\<close> and the state.  After the callback the
  operands of the node now in place are walked and rewritten in that node.
\<close>

fun czet_subst_walk :: "nat \<Rightarrow> instantiate \<Rightarrow> gparams \<Rightarrow> bindings \<Rightarrow> taddr \<Rightarrow> gstate \<Rightarrow> (taddr \<times> gstate) option" where
  "czet_subst_walk 0 inst G bound a st = None"
| "czet_subst_walk (Suc n) inst G bound a st =
     (case (case template_tag st a of
              None \<Rightarrow> Some (None, st)
            | Some tag \<Rightarrow>
                inst tag (map (\<lambda>p. case bound p of None \<Rightarrow> gp_int G | Some c \<Rightarrow> c)
                            (czet_get_type_template_params st tag)) st) of
        None \<Rightarrow> None
      | Some (Some c, st1) \<Rightarrow> Some (c, st1)
      | Some (None, st1) \<Rightarrow>
          let a1 = subst_placeholder G bound st1 a; walk = czet_subst_walk n inst G bound in
          if is_pointer (node st1 a1)
             \<or> gt_code (node st1 a1) = G_ARRAY \<and> \<not> is_pointer (node st1 (gt_target (node st1 a1)))
          then (case walk (gt_target (node st1 a1)) st1 of
                  None \<Rightarrow> None
                | Some (t, st2) \<Rightarrow> Some (a1, put_node a1 ((node st2 a1)\<lparr>gt_target := t\<rparr>) st2))
          else if gt_code (node st1 a1) = G_FUNCTION
          then (case walk_list walk (gt_target (node st1 a1) # gt_args (node st1 a1)) st1 of
                  None \<Rightarrow> None
                | Some (ts, st2) \<Rightarrow>
                    Some (a1, put_node a1 ((node st2 a1)\<lparr>gt_target := hd ts, gt_args := tl ts\<rparr>) st2))
          else Some (a1, st1))"

definition has_placeholder :: "bindings \<Rightarrow> gstate \<Rightarrow> taddr \<Rightarrow> bool" where
  "has_placeholder bound st a \<longleftrightarrow>
     gt_code (node st a) = G_TPL
     \<or> gt_code (node st a) = G_INTEGER
         \<and> (case gt_name (node st a) of GN_ident x \<Rightarrow> bound x \<noteq> None | _ \<Rightarrow> False)
     \<or> is_aggregate (node st a)"

fun copy_fields :: "(taddr \<Rightarrow> gstate \<Rightarrow> (taddr \<times> gstate) option) \<Rightarrow> (string \<times> taddr) list \<Rightarrow> gstate
    \<Rightarrow> ((string \<times> taddr) list \<times> gstate) option" where
  "copy_fields subst [] st = Some ([], st)"
| "copy_fields subst ((f, t) # fs) st =
     (case subst t st of
        None \<Rightarrow> None
      | Some (t', st1) \<Rightarrow> map_option (\<lambda>(fs', st2). ((f, t') # fs', st2)) (copy_fields subst fs st1))"

text \<open>The layout of a fresh copy from its new fields.\<close>

definition finish_copy :: "gparams \<Rightarrow> taddr \<Rightarrow> gname \<Rightarrow> (string \<times> taddr) list \<Rightarrow> gstate \<Rightarrow> gstate" where
  "finish_copy G nt name fs st =
     put_node nt ((node st nt)\<lparr>gt_name := name, gt_fields := fs, gt_size := gp_layout G (gs_heap st) fs\<rparr>) st"

fun czet_deep_subst :: "nat \<Rightarrow> instantiate \<Rightarrow> gparams \<Rightarrow> bindings \<Rightarrow> taddr \<Rightarrow> gstate \<Rightarrow> (taddr \<times> gstate) option" where
  "czet_deep_subst 0 inst G bound t st = None"
| "czet_deep_subst (Suc n) inst G bound t st =
     (if is_aggregate (node st t) then
        if \<not> list_ex (\<lambda>(f, ft). has_placeholder bound st ft) (gt_fields (node st t)) then Some (t, st)
        else (case alloc ((node st t)\<lparr>gt_size := None\<rparr>) st of (nt, st1) \<Rightarrow>
                (case copy_fields (czet_deep_subst n inst G bound) (gt_fields (node st t)) st1 of
                   None \<Rightarrow> None
                 | Some (fs, st2) \<Rightarrow> Some (nt, finish_copy G nt (gt_name (node st t)) fs st2)))
      else czet_subst_walk (Suc n) inst G bound t st)"

text \<open>The signature of a list of type arguments: code, name and size of each.\<close>

definition sig_entry :: "gparams \<Rightarrow> gnode \<Rightarrow> string" where
  "sig_entry G n =
     take 127 (show_unsigned (gp_code_no G (gt_code n)) @ ''|''
       @ (case gt_name n of GN_ident s \<Rightarrow> s | _ \<Rightarrow> []) @ ''|''
       @ show_unsigned (case gt_size n of None \<Rightarrow> 0 | Some s \<Rightarrow> s) @ '';'')"

fun type_signature :: "gparams \<Rightarrow> gnode list \<Rightarrow> string \<Rightarrow> string" where
  "type_signature G [] sig = sig"
| "type_signature G (t # ts) sig =
     (if 1024 \<le> length sig + length (sig_entry G t) then sig else type_signature G ts (sig @ sig_entry G t))"

definition cached :: "gstate \<Rightarrow> string \<Rightarrow> (string \<times> taddr) list" where
  "cached st tag = (case gs_cache st tag of None \<Rightarrow> [] | Some cs \<Rightarrow> cs)"

definition instance_tag :: "string \<Rightarrow> nat \<Rightarrow> string" where
  "instance_tag tag n = take 63 (tag @ ''__czet'' @ show_unsigned n)"

fun czet_instantiate_type :: "nat \<Rightarrow> gparams \<Rightarrow> instantiate" where
  "czet_instantiate_type 0 G tag types st = None"
| "czet_instantiate_type (Suc n) G tag types st =
     (case czet_get_type_template_type st tag of
        None \<Rightarrow> Some (None, st)
      | Some tmpl \<Rightarrow>
          let bound = bind_types (czet_get_type_template_params st tag) types;
              sig = type_signature G (map (node st) types) [] in
          (case map_of (cached st tag) sig of
             Some ct \<Rightarrow> Some (Some ct, st)
           | None \<Rightarrow>
               (case alloc ((node st tmpl)\<lparr>gt_size := None\<rparr>) st of (nt, st1) \<Rightarrow>
                  (case copy_fields (czet_deep_subst n (czet_instantiate_type n G) G bound) (gt_fields (node st tmpl)) st1 of
                     None \<Rightarrow> None
                   | Some (fs, st2) \<Rightarrow>
                       let st3 = finish_copy G nt (GN_ident (instance_tag tag (gs_tcounter st2))) fs
                                   (st2\<lparr>gs_tcounter := gs_tcounter st2 + 1\<rparr>)
                       in Some (Some nt, st3\<lparr>gs_cache := (gs_cache st3)(tag \<mapsto> (sig, nt) # cached st3 tag)\<rparr>)))))"

subsection \<open>Function instances\<close>

text \<open>
  A registered template always gives a record, so the \<^verbatim>\<open>NULL\<close> result of the instantiation has no case of
  its own.  \<^verbatim>\<open>build_array_type\<close> is taken to make a new node.
\<close>

fun czet_subst_type :: "nat \<Rightarrow> gparams \<Rightarrow> bindings \<Rightarrow> taddr \<Rightarrow> gstate \<Rightarrow> (taddr \<times> gstate) option" where
  "czet_subst_type 0 G bound t st = None"
| "czet_subst_type (Suc n) G bound t st =
     (let nd = node st t in
      if is_pointer nd then
        (case czet_subst_type n G bound (gt_target nd) st of
           None \<Rightarrow> None
         | Some (npt, st1) \<Rightarrow>
             if npt = gt_target nd then Some (t, st1) else Some (alloc ((node st1 t)\<lparr>gt_target := npt\<rparr>) st1))
      else if gt_code nd = G_ARRAY then
        (case czet_subst_type n G bound (gt_target nd) st of
           None \<Rightarrow> None
         | Some (net, st1) \<Rightarrow>
             if net = gt_target nd then Some (t, st1)
             else Some (alloc \<lparr>gt_code = G_ARRAY, gt_name = GN_none, gt_size = gp_array G (gs_heap st1) net,
                               gt_target = net, gt_args = [], gt_fields = []\<rparr> st1))
      else if is_aggregate nd \<and> (case gt_name nd of GN_ident x \<Rightarrow> True | _ \<Rightarrow> False) then
        (case template_tag st t of
           None \<Rightarrow> Some (t, st)
         | Some tag \<Rightarrow>
             let ps = czet_get_type_template_params st tag in
             if ps = [] \<or> list_ex (\<lambda>p. bound p = None) ps then Some (t, st)
             else (case czet_instantiate_type n G tag (map (\<lambda>p. the (bound p)) ps) st of
                     Some (Some c, st1) \<Rightarrow> Some (c, st1)
                   | _ \<Rightarrow> None))
      else if gt_code nd = G_TPL \<or> gt_code nd = G_INTEGER then
        (case gt_name nd of
           GN_ident x \<Rightarrow> Some (case bound x of None \<Rightarrow> t | Some c \<Rightarrow> c, st)
         | _ \<Rightarrow> Some (t, st))
      else Some (t, st))"

definition czet_materialize :: "nat \<Rightarrow> gparams \<Rightarrow> gtempl \<Rightarrow> taddr list \<Rightarrow> gstate \<Rightarrow> ((taddr \<times> taddr list) \<times> gstate) option" where
  "czet_materialize n G templ types st =
     (let bound = bind_types (czet_generic_params st (gm_id templ)) types in
      case walk_list (czet_subst_type n G bound) (gm_args templ) st of
        None \<Rightarrow> None
      | Some (as, st1) \<Rightarrow>
          map_option (\<lambda>(r, st2). ((r, as), st2)) (czet_subst_type n G bound (gm_ret templ) st1))"

text \<open>The counter is an \<^verbatim>\<open>unsigned long\<close>, so the name always fits the buffer.\<close>

definition instance_label :: "nat \<Rightarrow> string" where
  "instance_label k = ''f__czet'' @ show_unsigned k"

definition czet_instance_name :: "gstate \<Rightarrow> string \<times> gstate" where
  "czet_instance_name st =
     (instance_label (gs_counter st), st\<lparr>gs_counter := gs_counter st + 1\<rparr>)"

definition is_integral :: "gnode \<Rightarrow> bool" where
  "is_integral n \<longleftrightarrow> gt_code n = G_INTEGER \<or> gt_code n = G_BITINT"

text \<open>One \<^verbatim>\<open>|name@bits\<close> of the key.\<close>

definition key_entry :: "gnode \<Rightarrow> string" where
  "key_entry n = ''|'' @ (case gt_name n of GN_decl s \<Rightarrow> if is_integral n then s else ''?'' | _ \<Rightarrow> ''?'') @ ''@''
     @ (if is_integral n then show_unsigned (case gt_size n of None \<Rightarrow> 0 | Some s \<Rightarrow> s) else ''-1'')"

definition instance_key :: "gparams \<Rightarrow> gstate \<Rightarrow> gtempl \<Rightarrow> taddr list \<Rightarrow> string" where
  "instance_key G st templ types =
     take 511 (gp_ptr G (gm_id templ) @ '':'' @ concat (map (\<lambda>a. key_entry (node st a)) types))"

definition czet_build_instance_decl :: "nat \<Rightarrow> gparams \<Rightarrow> gtempl \<Rightarrow> taddr list \<Rightarrow> gstate \<Rightarrow> (gdecl \<times> gstate) option" where
  "czet_build_instance_decl n G templ types st =
     (let key = instance_key G st templ types in
      case gs_instances st key of
        Some d \<Rightarrow> Some (d, st)
      | None \<Rightarrow>
          (case czet_materialize n G templ types st of
             None \<Rightarrow> None
           | Some ((r, as), st1) \<Rightarrow>
               (case czet_instance_name st1 of (name, st2) \<Rightarrow>
                  let d = \<lparr>gd_name = name, gd_ret = r, gd_args = as\<rparr>
                  in Some (d, st2\<lparr>gs_instances := (gs_instances st2)(key \<mapsto> d)\<rparr>))))"

subsection \<open>What an instantiation keeps\<close>

text \<open>
  Existing nodes keep their code, name, size and fields (targets and arguments may be rewritten),
  the tables of templates and instances stay, and the cache of type instances only grows.
\<close>

definition same_shape :: "gnode \<Rightarrow> gnode \<Rightarrow> bool" where
  "same_shape n m \<longleftrightarrow> gt_code n = gt_code m \<and> gt_name n = gt_name m \<and> gt_size n = gt_size m \<and> gt_fields n = gt_fields m"

definition grows :: "gstate \<Rightarrow> gstate \<Rightarrow> bool" where
  "grows st st' \<longleftrightarrow> length (gs_heap st) \<le> length (gs_heap st')
     \<and> (\<forall>a < length (gs_heap st). same_shape (node st' a) (node st a))
     \<and> gs_templates st' = gs_templates st \<and> gs_tparams st' = gs_tparams st \<and> gs_params st' = gs_params st
     \<and> gs_instances st' = gs_instances st \<and> gs_counter st' = gs_counter st
     \<and> (\<forall>tag. \<exists>cs. cached st' tag = cs @ cached st tag)"

lemma growsD:
  assumes "grows st st'"
  shows "gs_templates st' = gs_templates st" "gs_tparams st' = gs_tparams st" "gs_instances st' = gs_instances st"
    "gs_counter st' = gs_counter st" "length (gs_heap st) \<le> length (gs_heap st')"
    "a < length (gs_heap st) \<Longrightarrow> same_shape (node st' a) (node st a)"
  using assms by (simp_all add: grows_def)

lemma same_shape_refl [simp]: "same_shape n n"
  by (simp add: same_shape_def)

lemma same_shape_upd [simp]: "same_shape (n\<lparr>gt_target := t\<rparr>) m = same_shape n m" "same_shape (n\<lparr>gt_args := as\<rparr>) m = same_shape n m"
  by (simp_all add: same_shape_def)

lemma same_shape_trans: "same_shape n m \<Longrightarrow> same_shape m k \<Longrightarrow> same_shape n k"
  by (simp add: same_shape_def)

lemma grows_refl [simp]: "grows st st"
  by (simp add: grows_def)

lemma grows_trans [trans]: "grows a b \<Longrightarrow> grows b c \<Longrightarrow> grows a c"
  unfolding grows_def by (smt (verit, ccfv_threshold) append.assoc dual_order.trans order_less_le_trans same_shape_trans)

lemma grows_alloc: "alloc n st = (a, st') \<Longrightarrow> grows st st'"
  by (auto simp: alloc_def grows_def node_def cached_def nth_append)

lemma alloc_addr: "alloc n st = (a, st') \<Longrightarrow> a = length (gs_heap st) \<and> node st' a = n \<and> length (gs_heap st') = Suc a"
  by (auto simp: alloc_def node_def)

lemma node_put: "node (put_node a n st) b = (if b = a \<and> a < length (gs_heap st) then n else node st b)"
  by (cases "a < length (gs_heap st)") (auto simp: node_def put_node_def nth_list_update not_less list_update_beyond)

lemma grows_put:
  assumes "grows st st'" "a < length (gs_heap st) \<longrightarrow> same_shape n (node st' a)"
  shows "grows st (put_node a n st')"
proof -
  have "cached (put_node a n st') = cached st'" by (simp add: fun_eq_iff cached_def put_node_def)
  then show ?thesis
    using assms unfolding grows_def
    by (auto simp: node_put, auto simp: put_node_def dest: same_shape_trans)
qed

lemma grows_finish:
  assumes "grows st st'" "length (gs_heap st) \<le> nt"
  shows "grows st (finish_copy G nt name fs st')"
  unfolding finish_copy_def using assms by (intro grows_put) auto

lemma grows_cache:
  assumes "grows st st'"
  shows "grows st (st'\<lparr>gs_cache := (gs_cache st')(tag \<mapsto> e # cached st' tag)\<rparr>)"
proof -
  have "\<exists>cs. cached (st'\<lparr>gs_cache := (gs_cache st')(tag \<mapsto> e # cached st' tag)\<rparr>) x = cs @ cached st x" for x
  proof -
    obtain cs where "cached st' x = cs @ cached st x" using assms by (auto simp: grows_def)
    then show ?thesis by (intro exI [of _ "if x = tag then e # cs else cs"]) (auto simp: cached_def)
  qed
  then show ?thesis using assms by (simp add: grows_def node_def)
qed

definition frames :: "(gstate \<Rightarrow> ('a \<times> gstate) option) \<Rightarrow> bool" where
  "frames f \<longleftrightarrow> (\<forall>st r st'. f st = Some (r, st') \<longrightarrow> grows st st')"

lemma framesD: "frames f \<Longrightarrow> f st = Some (r, st') \<Longrightarrow> grows st st'"
  by (auto simp: frames_def)

lemma walk_list_frames:
  assumes "\<And>a. frames (f a)"
  shows "frames (walk_list f as)"
proof (induction as)
  case (Cons a as)
  show ?case
    unfolding frames_def
    using framesD [OF assms] framesD [OF Cons] by (auto split: option.splits) (blast intro: grows_trans)
qed (simp add: frames_def)

lemma copy_fields_frames:
  assumes "\<And>a. frames (f a)"
  shows "frames (copy_fields f fs)"
proof (induction fs)
  case (Cons a as)
  show ?case
    unfolding frames_def
    using framesD [OF assms] framesD [OF Cons] by (cases a) (auto split: option.splits, blast intro: grows_trans)
qed (simp add: frames_def)

lemma subst_walk_frames:
  assumes "\<And>tag types. frames (inst tag types)"
  shows "frames (czet_subst_walk n inst G bound a)"
proof (induction n arbitrary: a)
  case (Suc n)
  show ?case
    unfolding frames_def
  proof (intro allI impI)
    fix st r st'
    let ?I = "case template_tag st a of None \<Rightarrow> Some (None, st)
      | Some tag \<Rightarrow> inst tag (map (\<lambda>p. case bound p of None \<Rightarrow> gp_int G | Some c \<Rightarrow> c) (czet_get_type_template_params st tag)) st"
    assume run: "czet_subst_walk (Suc n) inst G bound a st = Some (r, st')"
    then obtain c st1 where i: "?I = Some (c, st1)" by (cases ?I) auto
    then have g1: "grows st st1" using framesD [OF assms] by (auto split: option.splits)
    let ?a = "subst_placeholder G bound st1 a"
    have one: "grows st (put_node ?a ((node st2 ?a)\<lparr>gt_target := t\<rparr>) st2)"
      if "czet_subst_walk n inst G bound x st1 = Some (t, st2)" for x t st2
      using grows_trans [OF g1 framesD [OF Suc that]] by (intro grows_put) auto
    have all: "grows st (put_node ?a ((node st2 ?a)\<lparr>gt_target := t, gt_args := as\<rparr>) st2)"
      if "walk_list (czet_subst_walk n inst G bound) xs st1 = Some (ts, st2)" for xs ts t as st2
      using grows_trans [OF g1 framesD [OF walk_list_frames [OF Suc] that]] by (intro grows_put) auto
    show "grows st st'"
      using run i g1 one all
      by (cases c) (auto simp: Let_def simp del: walk_list.simps split: option.splits if_splits prod.splits)
  qed
qed (simp add: frames_def)

lemma deep_subst_frames:
  assumes "\<And>tag types. frames (inst tag types)"
  shows "frames (czet_deep_subst n inst G bound t)"
proof (induction n arbitrary: t)
  case (Suc n)
  show ?case
    unfolding frames_def
  proof (intro allI impI)
    fix st r st'
    assume run: "czet_deep_subst (Suc n) inst G bound t st = Some (r, st')"
    let ?new = "(node st t)\<lparr>gt_size := None\<rparr>"
    obtain nt st1 where al: "alloc ?new st = (nt, st1)" by (cases "alloc ?new st")
    have "grows st (finish_copy G nt nm fs st2)"
      if "copy_fields (czet_deep_subst n inst G bound) fs0 st1 = Some (fs, st2)" for fs0 fs nm st2
      using grows_trans [OF grows_alloc [OF al] framesD [OF copy_fields_frames [OF Suc] that]] alloc_addr [OF al]
      by (intro grows_finish) auto
    then show "grows st st'"
      using run al framesD [OF subst_walk_frames [OF assms]]
      by (auto simp del: czet_subst_walk.simps split: if_splits option.splits)
  qed
qed (simp add: frames_def)

lemma instantiate_none: "gs_templates st tag = None \<Longrightarrow> czet_instantiate_type (Suc n) G tag types st = Some (None, st)"
  by (simp add: czet_get_type_template_type_def)

lemma instantiate_hit:
  assumes "gs_templates st tag = Some tmpl" "map_of (cached st tag) (type_signature G (map (node st) types) []) = Some c"
  shows "czet_instantiate_type (Suc n) G tag types st = Some (Some c, st)"
  using assms by (simp add: czet_get_type_template_type_def Let_def)

definition record_instance :: "gparams \<Rightarrow> string \<Rightarrow> string \<Rightarrow> taddr \<Rightarrow> (string \<times> taddr) list \<Rightarrow> gstate \<Rightarrow> gstate" where
  "record_instance G tag sig nt fs st =
     (let st' = finish_copy G nt (GN_ident (instance_tag tag (gs_tcounter st))) fs (st\<lparr>gs_tcounter := gs_tcounter st + 1\<rparr>)
      in st'\<lparr>gs_cache := (gs_cache st')(tag \<mapsto> (sig, nt) # cached st' tag)\<rparr>)"

lemma instantiate_fresh:
  assumes "gs_templates st tag = Some tmpl" "map_of (cached st tag) (type_signature G (map (node st) types) []) = None"
    "alloc ((node st tmpl)\<lparr>gt_size := None\<rparr>) st = (nt, st1)"
  shows "czet_instantiate_type (Suc n) G tag types st =
    map_option (\<lambda>(fs, st2). (Some nt, record_instance G tag (type_signature G (map (node st) types) []) nt fs st2))
      (copy_fields (czet_deep_subst n (czet_instantiate_type n G) G (bind_types (czet_get_type_template_params st tag) types))
         (gt_fields (node st tmpl)) st1)"
  using assms
  by (simp add: czet_get_type_template_type_def Let_def record_instance_def map_option_case split: option.split)

lemma instantiate_cases:
  assumes "czet_instantiate_type (Suc n) G tag types st = Some (r, st')"
  obtains (none) "gs_templates st tag = None" "r = None" "st' = st"
  | (hit) tmpl c where "gs_templates st tag = Some tmpl" "r = Some c" "st' = st"
      "map_of (cached st tag) (type_signature G (map (node st) types) []) = Some c"
  | (fresh) tmpl nt st1 fs st2 where "gs_templates st tag = Some tmpl" "r = Some nt"
      "alloc ((node st tmpl)\<lparr>gt_size := None\<rparr>) st = (nt, st1)"
      "copy_fields (czet_deep_subst n (czet_instantiate_type n G) G (bind_types (czet_get_type_template_params st tag) types))
         (gt_fields (node st tmpl)) st1 = Some (fs, st2)"
      "st' = record_instance G tag (type_signature G (map (node st) types) []) nt fs st2"
proof (cases "gs_templates st tag")
  case None
  with assms none instantiate_none [OF None, of n G types] show thesis by simp
next
  case (Some tmpl)
  obtain nt st1 where al: "alloc ((node st tmpl)\<lparr>gt_size := None\<rparr>) st = (nt, st1)"
    by (cases "alloc ((node st tmpl)\<lparr>gt_size := None\<rparr>) st")
  show thesis
  proof (cases "map_of (cached st tag) (type_signature G (map (node st) types) [])")
    case None
    from assms [unfolded instantiate_fresh [OF Some None al] map_option_eq_Some]
    show thesis by (elim exE conjE, split prod.splits) (auto intro: fresh [OF Some _ al])
  next
    case c: (Some c)
    from assms hit [OF Some _ _ c] instantiate_hit [OF Some c, of n] show thesis by simp
  qed
qed

lemma grows_record:
  assumes "grows st st'" "length (gs_heap st) \<le> nt"
  shows "grows st (record_instance G tag sig nt fs st')"
proof -
  have "grows st (st'\<lparr>gs_tcounter := k\<rparr>)" for k using assms(1) by (simp add: grows_def node_def cached_def)
  from grows_cache [OF grows_finish [OF this assms(2)]] show ?thesis by (simp add: record_instance_def Let_def)
qed

lemma instantiate_frames: "frames (czet_instantiate_type n G tag types)"
proof (induction n arbitrary: tag types)
  case (Suc n)
  show ?case
    unfolding frames_def
  proof (intro allI impI)
    fix st r st'
    assume "czet_instantiate_type (Suc n) G tag types st = Some (r, st')"
    then show "grows st st'"
    proof (cases rule: instantiate_cases)
      case (fresh tmpl nt st1 fs st2)
      have "grows st st2"
        using grows_trans [OF grows_alloc [OF fresh(3)] framesD [OF copy_fields_frames [OF deep_subst_frames [OF Suc]] fresh(4)]] .
      then show ?thesis unfolding fresh(5) using alloc_addr [OF fresh(3)] by (intro grows_record) auto
    qed simp_all
  qed
qed (simp add: frames_def)

lemma subst_type_frames: "frames (czet_subst_type n G bound t)"
proof (induction n arbitrary: t)
  case (Suc n)
  show ?case
    unfolding frames_def
  proof (intro allI impI)
    fix st r st'
    assume run: "czet_subst_type (Suc n) G bound t st = Some (r, st')"
    have wrap: "grows st st2" if "czet_subst_type n G bound x st = Some (y, st1)" "alloc m st1 = (z, st2)" for x y z m st1 st2
      using grows_trans [OF framesD [OF Suc that(1)] grows_alloc [OF that(2)]] .
    show "grows st st'"
      using run framesD [OF Suc] framesD [OF instantiate_frames] wrap
      by (auto simp: Let_def split: if_splits option.splits gname.splits)
  qed
qed (simp add: frames_def)

lemma materialize_frames: "frames (czet_materialize n G templ types)"
proof -
  have "frames (walk_list (czet_subst_type n G b) as)" for b as by (rule walk_list_frames [OF subst_type_frames])
  then show ?thesis
    using subst_type_frames unfolding frames_def czet_materialize_def Let_def
    by (fastforce split: option.splits intro: grows_trans)
qed

subsection \<open>Parameters and bindings\<close>

lemma set_params_map_of:
  "set_params fn ps xs = Some ys \<Longrightarrow> map_of ys = (map_of xs)(fn \<mapsto> ps)"
  by (induction xs arbitrary: ys) (auto split: if_splits simp: fun_upd_twist)

text \<open>Setting the parameters of a function changes the answer for that function only.\<close>

lemma get_set_params:
  "czet_generic_params (czet_set_generic_params st fn ps) g = (if g = fn then ps else czet_generic_params st g)"
  by (auto simp: czet_generic_params_def czet_set_generic_params_def dest: set_params_map_of split: option.split)

lemma fold_bind: "fold (\<lambda>(n, t) m. m(n \<mapsto> t)) xs m = m ++ map_of (rev xs)"
  by (induction xs arbitrary: m) auto

lemma bind_types_nth:
  assumes "distinct names" "length types = length names" "i < length names"
  shows "bind_types names types (names ! i) = Some (types ! i)"
proof -
  have "map_of (rev (zip names types)) (names ! i) = Some (types ! i)"
    using assms by (subst map_of_eq_Some_iff) (auto simp: rev_map [symmetric] in_set_zip)
  then show ?thesis by (simp add: bind_types_def fold_bind)
qed

lemma bind_types_all:
  assumes "distinct names" "length types = length names"
  shows "map (\<lambda>p. case bind_types names types p of None \<Rightarrow> d | Some c \<Rightarrow> c) names = types"
  using assms by (auto simp: list_eq_iff_nth_eq bind_types_nth)

text \<open>A placeholder made for a parameter is a fresh node that only a binding of that name replaces.\<close>

lemma placeholder_bound:
  assumes "czet_make_type_parm G st name = (a, st')" "gt_code (node st (gp_int G)) = G_INTEGER"
  shows "subst_placeholder G bound st' a = (case bound name of None \<Rightarrow> a | Some c \<Rightarrow> c)"
  using assms alloc_addr [of _ st a st'] by (auto simp: czet_make_type_parm_def subst_placeholder_def)

subsection \<open>Sharing of instances\<close>

lemma signature_grows:
  assumes "grows st st'" "\<forall>t \<in> set types. t < length (gs_heap st)"
  shows "type_signature G (map (node st') types) sig = type_signature G (map (node st) types) sig"
  using assms(2)
proof (induction types arbitrary: sig)
  case (Cons t types)
  then have "sig_entry G (node st' t) = sig_entry G (node st t)"
    using assms(1) by (simp add: grows_def same_shape_def sig_entry_def)
  with Cons show ?case by simp
qed simp

text \<open>
  A generic structure is instantiated once for each list of arguments: asking again, at any later
  depth, gives the same type and changes nothing.
\<close>

theorem type_instance_shared:
  assumes "czet_instantiate_type n G tag types st = Some (Some c, st')" "\<forall>t \<in> set types. t < length (gs_heap st)"
  shows "czet_instantiate_type (Suc m) G tag types st' = Some (Some c, st')"
proof -
  have g: "grows st st'" by (rule framesD [OF instantiate_frames assms(1)])
  obtain k where "n = Suc k" using assms(1) by (cases n) auto
  from assms(1) [unfolded this] have "gs_templates st tag \<noteq> None
    \<and> map_of (cached st' tag) (type_signature G (map (node st) types) []) = Some c"
    by (cases rule: instantiate_cases) (auto simp: cached_def record_instance_def Let_def)
  then show ?thesis
    using signature_grows [OF g assms(2), of G "[]"] growsD(1) [OF g]
    by (auto simp: czet_get_type_template_type_def Let_def)
qed

lemma instance_key_grows:
  assumes "grows st st'" "\<forall>t \<in> set types. t < length (gs_heap st)"
  shows "instance_key G st' templ types = instance_key G st templ types"
proof -
  have "key_entry (node st' t) = key_entry (node st t)" if "t \<in> set types" for t
    using assms that by (simp add: grows_def same_shape_def key_entry_def is_integral_def split: gname.split)
  then have "map (\<lambda>a. key_entry (node st' a)) types = map (\<lambda>a. key_entry (node st a)) types" by simp
  then show ?thesis by (simp only: instance_key_def)
qed

lemma build_instance_cases:
  assumes "czet_build_instance_decl n G templ types st = Some (d, st')"
  obtains (old) "gs_instances st (instance_key G st templ types) = Some d" "st' = st"
  | (fresh) r as st1 where "gs_instances st (instance_key G st templ types) = None" "grows st st1"
      "d = \<lparr>gd_name = instance_label (gs_counter st), gd_ret = r, gd_args = as\<rparr>"
      "st' = st1\<lparr>gs_counter := gs_counter st + 1, gs_instances := (gs_instances st)(instance_key G st templ types \<mapsto> d)\<rparr>"
proof (cases "gs_instances st (instance_key G st templ types)")
  case None
  with assms obtain r as st1 where m: "czet_materialize n G templ types st = Some ((r, as), st1)"
    by (auto simp: czet_build_instance_decl_def split: option.splits)
  have g: "grows st st1" by (rule framesD [OF materialize_frames m])
  let ?d = "\<lparr>gd_name = instance_label (gs_counter st), gd_ret = r, gd_args = as\<rparr>"
  have "czet_build_instance_decl n G templ types st = Some (?d, st1\<lparr>gs_counter := gs_counter st + 1,
      gs_instances := (gs_instances st)(instance_key G st templ types \<mapsto> ?d)\<rparr>)"
    using None m growsD(3,4) [OF g] by (simp add: czet_build_instance_decl_def czet_instance_name_def Let_def)
  from trans [OF assms [symmetric] this] have d: "d = ?d" and st: "st' = st1\<lparr>gs_counter := gs_counter st + 1,
      gs_instances := (gs_instances st)(instance_key G st templ types \<mapsto> ?d)\<rparr>"
    unfolding option.inject prod.inject by blast+
  show thesis by (rule fresh [OF None g d st [folded d]])
next
  case (Some d')
  then have "czet_build_instance_decl n G templ types st = Some (d', st)" by (simp add: czet_build_instance_decl_def)
  with assms have "d = d'" "st' = st" by simp_all
  with Some show thesis by (intro old) simp_all
qed

text \<open>The key does not tell apart two types that are not integers.\<close>

lemma instance_key_blur:
  assumes "length types' = length types"
    "\<forall>i < length types. types' ! i = types ! i \<or> \<not> is_integral (node st (types' ! i)) \<and> \<not> is_integral (node st (types ! i))"
  shows "instance_key G st templ types' = instance_key G st templ types"
proof -
  have any: "key_entry n = ''|?@-1''" if "\<not> is_integral n" for n
    using that by (simp add: key_entry_def split: gname.split)
  have "key_entry (node st (types' ! i)) = key_entry (node st (types ! i))" if "i < length types" for i
    using assms(2) that by (metis any)
  with assms(1) have "map (\<lambda>a. key_entry (node st a)) types' = map (\<lambda>a. key_entry (node st a)) types"
    by (simp add: list_eq_iff_nth_eq)
  then show ?thesis by (simp only: instance_key_def)
qed

text \<open>
  Calls of a generic function share an instance: the second call gets the declaration of the first
  and changes nothing when each of its type arguments is the same as before, or when both the
  old and the new one are not integer types.  So \<^verbatim>\<open>f<float>\<close> and \<^verbatim>\<open>f<double>\<close> are one function.
\<close>

theorem function_instance_shared:
  assumes "czet_build_instance_decl n G templ types st = Some (d, st')"
    "length types' = length types" "\<forall>t \<in> set types \<union> set types'. t < length (gs_heap st)"
    "\<forall>i < length types. types' ! i = types ! i \<or> \<not> is_integral (node st (types' ! i)) \<and> \<not> is_integral (node st (types ! i))"
  shows "czet_build_instance_decl m G templ types' st' = Some (d, st')"
proof -
  have blur: "instance_key G st templ types' = instance_key G st templ types"
    by (rule instance_key_blur [OF assms(2,4)])
  from assms(1) show ?thesis
  proof (cases rule: build_instance_cases)
    case old
    with blur show ?thesis by (simp add: czet_build_instance_decl_def)
  next
    case (fresh r as st1)
    have "instance_key G st' templ types' = instance_key G st1 templ types'"
      by (simp add: fresh(4) instance_key_def node_def)
    with blur instance_key_grows [OF fresh(2), of types'] assms(3) fresh(4) show ?thesis
      by (simp add: czet_build_instance_decl_def)
  qed
qed

lemma instance_label_inject: "instance_label m = instance_label n \<longleftrightarrow> m = n"
  by (simp add: instance_label_def show_unsigned_inject)

definition instances_ok :: "gstate \<Rightarrow> bool" where
  "instances_ok st \<longleftrightarrow>
     (\<forall>key d. gs_instances st key = Some d \<longrightarrow> (\<exists>k < gs_counter st. gd_name d = instance_label k))
     \<and> (\<forall>key key' d d'. gs_instances st key = Some d \<longrightarrow> gs_instances st key' = Some d' \<longrightarrow> gd_name d = gd_name d' \<longrightarrow> key = key')"

text \<open>
  Instances have different names: every declaration in the registry carries a number below the
  counter and no two entries carry the same, and each call keeps it so.
\<close>

theorem instance_names_distinct:
  assumes "czet_build_instance_decl n G templ types st = Some (d, st')" "instances_ok st"
  shows "instances_ok st'"
  using assms(1)
proof (cases rule: build_instance_cases)
  case (fresh r as st1)
  let ?key = "instance_key G st templ types"
  have new: "gd_name d \<noteq> gd_name d'" if "gs_instances st k = Some d'" for k d'
    using assms(2) that fresh(3) unfolding instances_ok_def
    by (metis gdecl.select_convs(1) instance_label_inject less_irrefl)
  have inst: "gs_instances st' = (gs_instances st)(?key \<mapsto> d)" "gs_counter st' = gs_counter st + 1"
    using fresh(4) by simp_all
  have "\<exists>k < gs_counter st + 1. gd_name x = instance_label k" if "gs_instances st' k' = Some x" for k' x
  proof (cases "k' = ?key")
    case True
    with that inst(1) have "x = d" by simp
    with fresh(3) show ?thesis by (intro exI [of _ "gs_counter st"]) simp
  next
    case False
    with that inst(1) assms(2) show ?thesis unfolding instances_ok_def by (metis fun_upd_other less_SucI Suc_eq_plus1)
  qed
  moreover have "k = k'" if "gs_instances st' k = Some x" "gs_instances st' k' = Some y" "gd_name x = gd_name y" for k k' x y
    using that assms(2) new unfolding inst(1) instances_ok_def by (metis fun_upd_apply option.inject)
  ultimately show ?thesis unfolding instances_ok_def inst(2) by blast
qed (use assms in simp)

subsection \<open>Instances of a template\<close>

text \<open>A type on which the substitution has nothing to do, down to the given depth.\<close>

fun closed :: "nat \<Rightarrow> gparams \<Rightarrow> bindings \<Rightarrow> gstate \<Rightarrow> taddr \<Rightarrow> bool" where
  "closed 0 G bound st a \<longleftrightarrow> False"
| "closed (Suc n) G bound st a \<longleftrightarrow>
     a < length (gs_heap st) \<and> \<not> is_aggregate (node st a) \<and> gt_code (node st a) \<noteq> G_FUNCTION
     \<and> subst_placeholder G bound st a = a
     \<and> (is_pointer (node st a) \<or> gt_code (node st a) = G_ARRAY \<longrightarrow> closed n G bound st (gt_target (node st a)))"

definition plain_field :: "nat \<Rightarrow> gparams \<Rightarrow> bindings \<Rightarrow> gstate \<Rightarrow> taddr \<Rightarrow> bool" where
  "plain_field n G bound st t \<longleftrightarrow>
     t < length (gs_heap st) \<and> \<not> is_aggregate (node st t) \<and> closed n G bound st (subst_placeholder G bound st t)"

lemma put_node_same [simp]: "put_node a (node st a) st = st"
  by (simp add: put_node_def node_def)

lemma closed_fixed: "closed n G bound st a \<Longrightarrow> subst_placeholder G bound st a = a \<and> \<not> is_aggregate (node st a)"
  by (cases n) auto

lemma template_tag_none: "\<not> is_aggregate (node st a) \<Longrightarrow> template_tag st a = None"
  by (simp add: template_tag_def)

lemma walk_closed:
  assumes "closed k G bound st (subst_placeholder G bound st a)" "\<not> is_aggregate (node st a)"
  shows "czet_subst_walk n inst G bound a st \<in> {None, Some (subst_placeholder G bound st a, st)}"
    and "k \<le> n \<Longrightarrow> czet_subst_walk n inst G bound a st = Some (subst_placeholder G bound st a, st)"
proof -
  have "czet_subst_walk n inst G bound a st \<in> {None, Some (subst_placeholder G bound st a, st)}
    \<and> (k \<le> n \<longrightarrow> czet_subst_walk n inst G bound a st = Some (subst_placeholder G bound st a, st))"
    using assms
  proof (induction n arbitrary: k a)
    case 0
    then show ?case by (cases k) auto
  next
    case (Suc n)
    then obtain j where k: "k = Suc j" by (cases k) auto
    let ?c = "subst_placeholder G bound st a"
    let ?t = "gt_target (node st ?c)"
    have IH: "czet_subst_walk n inst G bound ?t st \<in> {None, Some (?t, st)}"
      "j \<le> n \<Longrightarrow> czet_subst_walk n inst G bound ?t st = Some (?t, st)" if "closed j G bound st ?t"
      using Suc.IH [of j ?t] that closed_fixed [OF that] by auto
    from Suc.prems k have c: "is_pointer (node st ?c) \<or> gt_code (node st ?c) = G_ARRAY \<Longrightarrow> closed j G bound st ?t"
      "gt_code (node st ?c) \<noteq> G_FUNCTION" by auto
    show ?case
      using IH c k by (auto simp: template_tag_none [OF Suc.prems(2)] Let_def split: option.splits)
  qed
  then show "czet_subst_walk n inst G bound a st \<in> {None, Some (subst_placeholder G bound st a, st)}"
    "k \<le> n \<Longrightarrow> czet_subst_walk n inst G bound a st = Some (subst_placeholder G bound st a, st)" by auto
qed

lemma deep_subst_plain:
  assumes "plain_field k G bound st t"
  shows "czet_deep_subst n inst G bound t st \<in> {None, Some (subst_placeholder G bound st t, st)}"
    and "k \<le> n \<Longrightarrow> czet_deep_subst n inst G bound t st = Some (subst_placeholder G bound st t, st)"
proof -
  have c: "closed k G bound st (subst_placeholder G bound st t)" "\<not> is_aggregate (node st t)"
    using assms by (simp_all add: plain_field_def)
  then have "czet_deep_subst n inst G bound t st = czet_subst_walk n inst G bound t st"
    by (cases n) (simp_all del: czet_subst_walk.simps(2))
  with walk_closed [OF c] show "czet_deep_subst n inst G bound t st \<in> {None, Some (subst_placeholder G bound st t, st)}"
    "k \<le> n \<Longrightarrow> czet_deep_subst n inst G bound t st = Some (subst_placeholder G bound st t, st)" by simp_all
qed

lemma copy_fields_plain:
  assumes "\<forall>(f, t) \<in> set fs. plain_field k G bound st t"
  shows "copy_fields (czet_deep_subst n inst G bound) fs st
      \<in> {None, Some (map (apsnd (subst_placeholder G bound st)) fs, st)}"
    and "k \<le> n \<Longrightarrow> copy_fields (czet_deep_subst n inst G bound) fs st
      = Some (map (apsnd (subst_placeholder G bound st)) fs, st)"
proof -
  have "copy_fields (czet_deep_subst n inst G bound) fs st
      \<in> {None, Some (map (apsnd (subst_placeholder G bound st)) fs, st)}
    \<and> (k \<le> n \<longrightarrow> copy_fields (czet_deep_subst n inst G bound) fs st
      = Some (map (apsnd (subst_placeholder G bound st)) fs, st))"
    using assms
  proof (induction fs)
    case (Cons ft fs)
    obtain f t where ft: "ft = (f, t)" by (cases ft)
    with Cons.prems have "plain_field k G bound st t" by auto
    from deep_subst_plain [OF this, of n inst] Cons ft show ?case by auto
  qed simp
  then show "copy_fields (czet_deep_subst n inst G bound) fs st
      \<in> {None, Some (map (apsnd (subst_placeholder G bound st)) fs, st)}"
    "k \<le> n \<Longrightarrow> copy_fields (czet_deep_subst n inst G bound) fs st
      = Some (map (apsnd (subst_placeholder G bound st)) fs, st)" by auto
qed

text \<open>A larger heap with the old nodes unchanged.\<close>

definition extends :: "gstate \<Rightarrow> gstate \<Rightarrow> bool" where
  "extends st st' \<longleftrightarrow> length (gs_heap st) \<le> length (gs_heap st') \<and> (\<forall>a < length (gs_heap st). node st' a = node st a)"

lemma extends_alloc: "alloc n st = (a, st') \<Longrightarrow> extends st st'"
  by (auto simp: extends_def alloc_def node_def nth_append)

lemma extends_placeholder: "extends st st' \<Longrightarrow> a < length (gs_heap st) \<Longrightarrow> subst_placeholder G bound st' a = subst_placeholder G bound st a"
  by (simp add: extends_def subst_placeholder_def)

lemma extends_closed: "extends st st' \<Longrightarrow> closed n G bound st a \<Longrightarrow> closed n G bound st' a"
  by (induction n arbitrary: a) (auto simp: extends_placeholder, auto simp: extends_def)

lemma extends_plain: "extends st st' \<Longrightarrow> plain_field n G bound st t \<Longrightarrow> plain_field n G bound st' t"
  using extends_closed by (auto simp: plain_field_def extends_placeholder) (auto simp: extends_def)

lemma record_instance_node:
  assumes "nt < length (gs_heap st)"
  shows "node (record_instance G tag sig nt fs st) a =
    (if a = nt then (node st nt)\<lparr>gt_name := GN_ident (instance_tag tag (gs_tcounter st)), gt_fields := fs,
                                gt_size := gp_layout G (gs_heap st) fs\<rparr> else node st a)"
  using assms by (auto simp: record_instance_def finish_copy_def Let_def put_node_def node_def)

text \<open>
  C27. Instantiating a generic structure whose members are parameters or types without parameters
  ends and gives a new record: its members are those of the template in order, with the i-th type argument
  for the i-th parameter, its tag carries the next number, every other node is untouched, and a later
  request for the same arguments gives this record again.
\<close>

theorem template_instance:
  fixes G st tag types
  defines "ps \<equiv> czet_get_type_template_params st tag" and "nt \<equiv> length (gs_heap st)"
  defines "bound \<equiv> bind_types ps types"
  assumes "gs_templates st tag = Some tmpl" "tmpl < length (gs_heap st)" "\<forall>t \<in> set types. t < length (gs_heap st)"
    "map_of (cached st tag) (type_signature G (map (node st) types) []) = None"
    "distinct ps" "length types = length ps"
    "\<forall>(f, t) \<in> set (gt_fields (node st tmpl)). plain_field n G bound st t"
  shows "\<exists>st' fs. czet_instantiate_type (Suc n) G tag types st = Some (Some nt, st')
    \<and> gt_code (node st' nt) = gt_code (node st tmpl)
    \<and> gt_name (node st' nt) = GN_ident (instance_tag tag (gs_tcounter st))
    \<and> gt_fields (node st' nt) = fs \<and> map fst fs = map fst (gt_fields (node st tmpl))
    \<and> (\<forall>k < length fs. snd (fs ! k) = subst_placeholder G bound st (snd (gt_fields (node st tmpl) ! k)))
    \<and> (\<forall>k < length fs. \<forall>i < length ps.
         gt_code (node st (snd (gt_fields (node st tmpl) ! k))) = G_INTEGER
         \<longrightarrow> gt_name (node st (snd (gt_fields (node st tmpl) ! k))) = GN_ident (ps ! i) \<longrightarrow> snd (fs ! k) = types ! i)
    \<and> (\<forall>a < nt. node st' a = node st a)
    \<and> (\<forall>m. czet_instantiate_type (Suc m) G tag types st' = Some (Some nt, st'))"
proof -
  let ?fs = "gt_fields (node st tmpl)"
  let ?sub = "map (apsnd (subst_placeholder G bound st)) ?fs"
  obtain st1 where al: "alloc ((node st tmpl)\<lparr>gt_size := None\<rparr>) st = (nt, st1)" by (simp add: alloc_def nt_def)
  note ext = extends_alloc [OF al]
  have "\<forall>(f, t) \<in> set ?fs. plain_field n G bound st1 t" using assms(10) extends_plain [OF ext] by fast
  from copy_fields_plain(2) [OF this order_refl]
  have "copy_fields (czet_deep_subst n inst G bound) ?fs st1 = Some (map (apsnd (subst_placeholder G bound st1)) ?fs, st1)" for inst .
  moreover have "map (apsnd (subst_placeholder G bound st1)) ?fs = ?sub"
    using assms(10) extends_placeholder [OF ext] by (auto simp: plain_field_def)
  ultimately have run: "czet_instantiate_type (Suc n) G tag types st
      = Some (Some nt, record_instance G tag (type_signature G (map (node st) types) []) nt ?sub st1)" (is "_ = Some (_, ?st')")
    unfolding instantiate_fresh [OF assms(4,7) al] bound_def ps_def by simp
  have st1: "nt < length (gs_heap st1)" "node st1 nt = (node st tmpl)\<lparr>gt_size := None\<rparr>" "gs_tcounter st1 = gs_tcounter st"
    using al by (auto simp: alloc_def node_def)
  have "snd (?sub ! k) = types ! i" if "k < length ?sub" "i < length ps"
    "gt_code (node st (snd (?fs ! k))) = G_INTEGER" "gt_name (node st (snd (?fs ! k))) = GN_ident (ps ! i)" for k i
    using that bind_types_nth [OF assms(8,9) that(2)] by (simp add: subst_placeholder_def bound_def)
  moreover have "node ?st' a = node st a" if "a < nt" for a
    unfolding record_instance_node [OF st1(1)] using that ext by (simp add: extends_def nt_def)
  moreover have "czet_instantiate_type (Suc m) G tag types ?st' = Some (Some nt, ?st')" for m
    by (rule type_instance_shared [OF run assms(6)])
  ultimately show ?thesis
    using run by (intro exI [of _ ?st'] exI [of _ ?sub]) (auto simp: record_instance_node [OF st1(1)] st1)
qed

subsection \<open>Members that are pointers\<close>

text \<open>The old nodes are unchanged except for the target of one pointer.\<close>

definition retarget :: "taddr \<Rightarrow> taddr \<Rightarrow> gstate \<Rightarrow> gstate \<Rightarrow> bool" where
  "retarget p c st st' \<longleftrightarrow> length (gs_heap st) \<le> length (gs_heap st')
     \<and> (\<forall>a < length (gs_heap st). node st' a = (if a = p then (node st p)\<lparr>gt_target := c\<rparr> else node st a))"

lemma retarget_shape:
  assumes "retarget p c st st'" "a < length (gs_heap st)"
  shows "is_aggregate (node st' a) = is_aggregate (node st a)" "subst_placeholder G bound st' a = subst_placeholder G bound st a"
proof -
  have "gt_code (node st' a) = gt_code (node st a)" "gt_name (node st' a) = gt_name (node st a)"
    using assms by (simp_all add: retarget_def)
  then show "is_aggregate (node st' a) = is_aggregate (node st a)"
    "subst_placeholder G bound st' a = subst_placeholder G bound st a"
    by (simp_all add: is_aggregate_def subst_placeholder_def)
qed

lemma retarget_closed:
  assumes "retarget p c st st'" "\<And>k. \<not> closed k G bound st p" "closed k G bound st a" "closed j G bound' st a"
  shows "closed j G bound' st' a"
  using assms(3,4)
proof (induction j arbitrary: k a)
  case (Suc j)
  from Suc.prems(1) assms(2) have "a \<noteq> p" by metis
  moreover obtain i where "k = Suc i" using Suc.prems(1) by (cases k) auto
  moreover have len: "a < length (gs_heap st)" using Suc.prems(2) by simp
  ultimately have "node st' a = node st a" "a < length (gs_heap st')" using assms(1) by (auto simp: retarget_def)
  with Suc \<open>k = Suc i\<close> retarget_shape(2) [OF assms(1) len] show ?case by auto
qed simp

lemma closed_plain: "closed k G bound st t \<Longrightarrow> plain_field k G bound st t"
  by (cases k) (auto simp: plain_field_def)

lemma deep_subst_pointer:
  assumes "is_pointer (node st p)" "\<not> is_aggregate (node st (gt_target (node st p)))" "k \<le> n"
    "closed k G bound st (subst_placeholder G bound st (gt_target (node st p)))"
  shows "czet_deep_subst (Suc n) inst G bound p st =
    Some (p, put_node p ((node st p)\<lparr>gt_target := subst_placeholder G bound st (gt_target (node st p))\<rparr>) st)"
proof -
  have p: "\<not> is_aggregate (node st p)" "subst_placeholder G bound st p = p"
    using assms(1) by (auto simp: is_pointer_def is_aggregate_def subst_placeholder_def)
  show ?thesis
    using assms(1) walk_closed(2) [OF assms(4,2,3), of inst] p by (simp add: template_tag_none Let_def)
qed

lemma copy_fields_closed:
  assumes "\<forall>(f, t) \<in> set fs. closed k G bound st t" "k \<le> n"
  shows "copy_fields (czet_deep_subst n inst G bound) fs st = Some (fs, st)"
proof -
  have "\<forall>(f, t) \<in> set fs. plain_field k G bound st t" using assms(1) closed_plain by fast
  moreover have "map (apsnd (subst_placeholder G bound st)) fs = fs"
    using assms(1) closed_fixed by (intro map_idI) fastforce
  ultimately show ?thesis using copy_fields_plain(2) [OF _ assms(2)] by metis
qed

text \<open>One instantiation of a structure whose first member is a pointer and the others have no parameter.\<close>

lemma pointer_template_run:
  fixes G st tag types
  defines "bound \<equiv> bind_types (czet_get_type_template_params st tag) types"
  assumes "gs_templates st tag = Some tmpl" "tmpl < length (gs_heap st)"
    "map_of (cached st tag) (type_signature G (map (node st) types) []) = None"
    "gt_fields (node st tmpl) = (f, p) # rest" "p < length (gs_heap st)" "is_pointer (node st p)"
    "gt_target (node st p) < length (gs_heap st)" "\<not> is_aggregate (node st (gt_target (node st p)))"
    "closed k G bound st (subst_placeholder G bound st (gt_target (node st p)))"
    "\<And>st2. retarget p (subst_placeholder G bound st (gt_target (node st p))) st st2
       \<Longrightarrow> \<forall>(g, t) \<in> set rest. closed k G bound st2 t"
  obtains st' where "czet_instantiate_type (Suc (Suc k)) G tag types st = Some (Some (length (gs_heap st)), st')"
    "retarget p (subst_placeholder G bound st (gt_target (node st p))) st st'"
    "length (gs_heap st) < length (gs_heap st')" "gt_fields (node st' (length (gs_heap st))) = (f, p) # rest"
    "cached st' tag = (type_signature G (map (node st) types) [], length (gs_heap st)) # cached st tag"
proof -
  let ?c = "subst_placeholder G bound st (gt_target (node st p))"
  let ?nt = "length (gs_heap st)"
  obtain st1 where al: "alloc ((node st tmpl)\<lparr>gt_size := None\<rparr>) st = (?nt, st1)" by (simp add: alloc_def)
  have st1: "node st1 a = node st a" if "a < ?nt" for a using that extends_alloc [OF al] by (simp add: extends_def)
  let ?st2 = "put_node p ((node st p)\<lparr>gt_target := ?c\<rparr>) st1"
  have "subst_placeholder G bound st1 (gt_target (node st1 p)) = ?c"
    using assms(6,8) st1 extends_placeholder [OF extends_alloc [OF al]] by simp
  then have deep: "czet_deep_subst (Suc k) inst G bound p st1 = Some (p, ?st2)" for inst
    using deep_subst_pointer [of st1 p k k G bound inst] assms(6-10) extends_closed [OF extends_alloc [OF al]] st1 by simp
  have len: "?nt < length (gs_heap ?st2)" "?nt < length (gs_heap st1)" using al by (auto simp: alloc_def put_node_def)
  have re: "retarget p ?c st ?st2"
    using assms(6) st1 len by (auto simp: retarget_def node_put)
  have copy: "copy_fields (czet_deep_subst (Suc k) inst G bound) ((f, p) # rest) st1 = Some ((f, p) # rest, ?st2)" for inst
    using deep copy_fields_closed [OF assms(11) [OF re], of "Suc k" inst] by simp
  let ?st' = "record_instance G tag (type_signature G (map (node st) types) []) ?nt ((f, p) # rest) ?st2"
  have run: "czet_instantiate_type (Suc (Suc k)) G tag types st = Some (Some ?nt, ?st')"
    unfolding instantiate_fresh [OF assms(2,4) al] assms(5) copy [unfolded bound_def] bound_def by simp
  have "retarget p ?c st ?st'"
    using re len(1) growsD(5) [OF framesD [OF instantiate_frames run]]
    by (simp add: retarget_def record_instance_node [OF len(1)])
  moreover have "cached ?st' tag = (type_signature G (map (node st) types) [], ?nt) # cached st tag"
    using al by (auto simp: record_instance_def Let_def cached_def finish_copy_def put_node_def alloc_def)
  moreover have "?nt < length (gs_heap ?st')" using len(1) by (simp add: record_instance_def Let_def finish_copy_def put_node_def)
  ultimately show thesis using that run record_instance_node [OF len(1)] by simp
qed

lemma pointer_not_closed:
  assumes "is_pointer (node st p)" "subst_placeholder G bound st (gt_target (node st p)) = c" "c \<noteq> gt_target (node st p)"
  shows "\<not> closed k G bound st p"
proof
  assume "closed k G bound st p"
  then obtain i where "closed i G bound st (gt_target (node st p))" using assms(1) by (cases k) auto
  with closed_fixed assms(2,3) show False by metis
qed

text \<open>
  C32. A pointer member of a generic structure is substituted in the template itself: after the first
  instantiation of \<^verbatim>\<open>struct slice<T> { T *data; ... }\<close> the template's pointer points at the first argument, so an
  instance for other arguments has the same member type, a pointer to the argument of the first.
\<close>

theorem pointer_member_first_wins:
  fixes G st tag types types'
  defines "bound \<equiv> bind_types (czet_get_type_template_params st tag) types"
    and "bound' \<equiv> bind_types (czet_get_type_template_params st tag) types'"
  assumes "gs_templates st tag = Some tmpl" "tmpl < length (gs_heap st)"
    "\<forall>t \<in> set types'. t < length (gs_heap st)"
    "map_of (cached st tag) (type_signature G (map (node st) types) []) = None"
    "map_of (cached st tag) (type_signature G (map (node st) types') []) = None"
    "type_signature G (map (node st) types) [] \<noteq> type_signature G (map (node st) types') []"
    "gt_fields (node st tmpl) = (f, p) # rest" "p < length (gs_heap st)" "tmpl \<noteq> p" "is_pointer (node st p)"
    "gt_target (node st p) < length (gs_heap st)"
    "gt_code (node st (gt_target (node st p))) = G_INTEGER" "gt_name (node st (gt_target (node st p))) = GN_ident x"
    "bound x = Some c" "c \<noteq> gt_target (node st p)" "closed k G bound st c" "closed k G bound' st c"
    "\<forall>(g, t) \<in> set rest. closed k G bound st t \<and> closed k G bound' st t"
  shows "\<exists>st1 st2 a b. czet_instantiate_type (Suc (Suc k)) G tag types st = Some (Some a, st1)
    \<and> czet_instantiate_type (Suc (Suc k)) G tag types' st1 = Some (Some b, st2) \<and> a \<noteq> b
    \<and> hd (gt_fields (node st2 b)) = (f, p) \<and> gt_target (node st2 p) = c"
proof -
  let ?sub = "\<lambda>b st. subst_placeholder G b st (gt_target (node st p))"
  have c: "?sub bound st = c" using assms(14-16) by (simp add: subst_placeholder_def)
  note open_p = pointer_not_closed [OF assms(12) c assms(17)]
  note keep = retarget_closed [OF _ open_p]
  have agg: "\<not> is_aggregate (node st (gt_target (node st p)))" using assms(14) by (simp add: is_aggregate_def)
  have rest: "\<forall>(g, t) \<in> set rest. closed k G bound s t \<and> closed k G bound' s t" if "retarget p c st s" for s
    using keep [OF that] assms(20) by fast
  then have rest1: "\<forall>(g, t) \<in> set rest. closed k G bound s t" if "retarget p c st s" for s using that by fast
  obtain st1 where r1: "czet_instantiate_type (Suc (Suc k)) G tag types st = Some (Some (length (gs_heap st)), st1)"
      "retarget p c st st1" "length (gs_heap st) < length (gs_heap st1)" "gt_fields (node st1 (length (gs_heap st))) = (f, p) # rest"
      "cached st1 tag = (type_signature G (map (node st) types) [], length (gs_heap st)) # cached st tag"
    by (rule pointer_template_run [of st tag tmpl G types f p rest k, folded bound_def, unfolded c,
          OF assms(3,4,6,9,10,12,13) agg assms(18) rest1])
  note g = framesD [OF instantiate_frames r1(1)]
  have p1: "node st1 p = (node st p)\<lparr>gt_target := c\<rparr>" using r1(2) assms(10) by (simp add: retarget_def)
  have bound': "bind_types (czet_get_type_template_params st1 tag) types' = bound'"
    using growsD(2) [OF g] by (simp add: bound'_def czet_get_type_template_params_def)
  have c1: "closed k G bound' st1 c" by (rule keep [OF r1(2) assms(18,19)])
  have sub: "?sub bound' st1 = c" "gt_target (node st1 p) = c" using closed_fixed [OF c1] p1 by simp_all
  have rest2: "\<forall>(g, t) \<in> set rest. closed k G bound' s t" if "retarget p c st1 s" for s
  proof -
    have "retarget p c st s" using that r1(2) p1 by (auto simp: retarget_def)
    from rest [OF this] show ?thesis by fast
  qed
  have t1: "gs_templates st1 tag = Some tmpl" "tmpl < length (gs_heap st1)" "p < length (gs_heap st1)"
    using growsD(1,5) [OF g] assms(3,4,10) by simp_all
  have t2: "c < length (gs_heap st1)" "\<not> is_aggregate (node st1 c)"
    using c1 by (cases k; simp)+
  have t3: "gt_fields (node st1 tmpl) = (f, p) # rest" "is_pointer (node st1 p)"
    using r1(2) p1 assms(4,9,11,12) by (auto simp: retarget_def is_pointer_def)
  have t4: "map_of (cached st1 tag) (type_signature G (map (node st1) types') []) = None"
    unfolding signature_grows [OF g assms(5)] using r1(5) assms(7,8) by simp
  obtain st2 where r2: "czet_instantiate_type (Suc (Suc k)) G tag types' st1 = Some (Some (length (gs_heap st1)), st2)"
      "retarget p c st1 st2" "length (gs_heap st1) < length (gs_heap st2)" "gt_fields (node st2 (length (gs_heap st1))) = (f, p) # rest"
      "cached st2 tag = (type_signature G (map (node st1) types') [], length (gs_heap st1)) # cached st1 tag"
    by (rule pointer_template_run [of st1 tag tmpl G types' f p rest k, unfolded bound' sub,
          OF t1(1,2) t4 t3(1) t1(3) t3(2) t2 _ rest2]) (use c1 sub in simp_all)
  have "gt_target (node st2 p) = c" using r2(2) t1(3) by (simp add: retarget_def)
  with r1(1,3) r2(1,4) show ?thesis by (intro exI conjI) (assumption | simp)+
qed

subsection \<open>Structures that refer to themselves\<close>

text \<open>
  The template of \<open>tag\<close> has a member that is a pointer to the template itself, after members that the
  substitution handles.
\<close>

definition self_reference :: "nat \<Rightarrow> gparams \<Rightarrow> string \<Rightarrow> taddr list \<Rightarrow> taddr \<Rightarrow> nat \<Rightarrow> gstate \<Rightarrow> bool" where
  "self_reference k G tag types tmpl i st \<longleftrightarrow>
     (let fs = gt_fields (node st tmpl); p = snd (fs ! i); ps = czet_get_type_template_params st tag in
      gs_templates st tag = Some tmpl \<and> tmpl < length (gs_heap st) \<and> i < length fs
      \<and> list_all (\<lambda>(f, t). plain_field k G (bind_types ps types) st t) (take i fs)
      \<and> p < length (gs_heap st) \<and> is_pointer (node st p) \<and> gt_target (node st p) = tmpl
      \<and> is_aggregate (node st tmpl) \<and> gt_name (node st tmpl) = GN_ident tag
      \<and> distinct ps \<and> length types = length ps \<and> list_all (\<lambda>t. t < length (gs_heap st)) types)"

lemma self_reference_alloc:
  assumes "self_reference k G tag types tmpl i st" "alloc n st = (a, st')"
  shows "self_reference k G tag types tmpl i st'"
    and "type_signature G (map (node st') types) [] = type_signature G (map (node st) types) []"
    and "cached st' tag = cached st tag"
proof -
  have ps: "czet_get_type_template_params st' tag = czet_get_type_template_params st tag"
    "gs_templates st' = gs_templates st" and c: "cached st' tag = cached st tag"
    using assms(2) by (auto simp: alloc_def czet_get_type_template_params_def cached_def)
  have ext: "b < length (gs_heap st) \<Longrightarrow> node st' b = node st b" "length (gs_heap st) \<le> length (gs_heap st')" for b
    using extends_alloc [OF assms(2)] by (auto simp: extends_def)
  show "self_reference k G tag types tmpl i st'"
    using assms(1) ext ps extends_plain [OF extends_alloc [OF assms(2)]]
    by (auto simp: self_reference_def Let_def list_all_iff)
  show "type_signature G (map (node st') types) [] = type_signature G (map (node st) types) []"
    using assms by (intro signature_grows grows_alloc) (auto simp: self_reference_def Let_def list_all_iff)
  show "cached st' tag = cached st tag" by (rule c)
qed

lemma copy_fields_append:
  "copy_fields f (xs @ ys) st = (case copy_fields f xs st of None \<Rightarrow> None
     | Some (xs', st') \<Rightarrow> map_option (\<lambda>(ys', st''). (xs' @ ys', st'')) (copy_fields f ys st'))"
proof (induction xs arbitrary: st)
  case Nil
  then show ?case by (cases "copy_fields f ys st") auto
next
  case (Cons a xs)
  then show ?case
    by (cases a) (auto simp: map_option_case split: option.splits)
qed

lemma self_walk:
  assumes "self_reference k G tag types tmpl i st" "inst tag types st = None"
  defines "b \<equiv> bind_types (czet_get_type_template_params st tag) types"
  shows "czet_deep_subst n inst G b (snd (gt_fields (node st tmpl) ! i)) st = None"
proof -
  let ?p = "snd (gt_fields (node st tmpl) ! i)"
  note self = assms(1) [unfolded self_reference_def Let_def]
  have "template_tag st tmpl = Some tag"
    using self by (simp add: template_tag_def czet_get_type_template_type_def)
  moreover have "map (\<lambda>p. case b p of None \<Rightarrow> gp_int G | Some c \<Rightarrow> c) (czet_get_type_template_params st tag) = types"
    unfolding b_def using self by (intro bind_types_all) simp_all
  ultimately have "czet_subst_walk m inst G b tmpl st = None" for m using assms(2) by (cases m) simp_all
  moreover have "\<not> is_aggregate (node st ?p)" "subst_placeholder G b st ?p = ?p"
    using self by (auto simp: is_pointer_def is_aggregate_def subst_placeholder_def)
  ultimately show ?thesis
    using self by (cases n) (simp_all add: template_tag_none Let_def)
qed

text \<open>
  C33. A generic structure with a pointer to itself, such as a list node, cannot be instantiated: whatever
  the depth of the recursion, it has not returned.
\<close>

theorem self_reference_diverges:
  assumes "self_reference k G tag types tmpl i st"
    "map_of (cached st tag) (type_signature G (map (node st) types) []) = None"
  shows "czet_instantiate_type n G tag types st = None"
  using assms
proof (induction n arbitrary: st)
  case (Suc n)
  let ?fs = "gt_fields (node st tmpl)" and ?b = "bind_types (czet_get_type_template_params st tag) types"
  note self = Suc.prems(1) [unfolded self_reference_def Let_def]
  obtain nt st1 where al: "alloc ((node st tmpl)\<lparr>gt_size := None\<rparr>) st = (nt, st1)" by (simp add: alloc_def)
  note s1 = self_reference_alloc [OF Suc.prems(1) al]
  let ?d = "czet_deep_subst n (czet_instantiate_type n G) G ?b"
  have st1: "gt_fields (node st1 tmpl) = ?fs" "bind_types (czet_get_type_template_params st1 tag) types = ?b"
    using self al extends_alloc [OF al] by (auto simp: extends_def alloc_def czet_get_type_template_params_def)
  have "czet_instantiate_type n G tag types st1 = None" using Suc.IH [OF s1(1)] Suc.prems(2) s1(2,3) by simp
  from self_walk [where inst = "czet_instantiate_type n G", OF s1(1) this] st1
  have "?d (snd (?fs ! i)) st1 = None" by simp
  moreover have "\<forall>(f, t) \<in> set (take i ?fs). plain_field k G ?b st1 t"
    using s1(1) [unfolded self_reference_def Let_def st1] by (simp add: list_all_iff)
  from copy_fields_plain(1) [OF this, of n "czet_instantiate_type n G"]
  have "copy_fields ?d (take i ?fs) st1 = None \<or> (\<exists>xs. copy_fields ?d (take i ?fs) st1 = Some (xs, st1))" by blast
  moreover have "copy_fields ?d ?fs st1 = copy_fields ?d (take i ?fs @ ?fs ! i # drop (Suc i) ?fs) st1"
    using self by (simp add: id_take_nth_drop [symmetric])
  ultimately have "copy_fields ?d ?fs st1 = None"
    by (cases "?fs ! i") (auto simp: copy_fields_append)
  with instantiate_fresh [OF _ Suc.prems(2) al, of n] self show ?case by simp
qed simp

subsection \<open>Concrete structures\<close>

text \<open>
  \<^verbatim>\<open>struct box<T> { T v; int n; }\<close>, \<^verbatim>\<open>struct slice<T> { T *data; int len; }\<close> and
  \<^verbatim>\<open>struct list<T> { T v; struct list *next; }\<close>, with \<^verbatim>\<open>int\<close> at 0, \<^verbatim>\<open>T\<close> at 1, \<^verbatim>\<open>double\<close> at 4 and \<^verbatim>\<open>float\<close> at 5.
\<close>

definition example_params :: gparams where
  "example_params = \<lparr>gp_code_no = (\<lambda>c. if c = G_INTEGER then 8 else 9), gp_ptr = show_unsigned, gp_int = 0,
     gp_layout = (\<lambda>h fs. Some (64 * length fs)), gp_array = (\<lambda>h a. None)\<rparr>"

definition example_leaf :: "gcode \<Rightarrow> gname \<Rightarrow> nat \<Rightarrow> gnode" where
  "example_leaf c n s = \<lparr>gt_code = c, gt_name = n, gt_size = Some s, gt_target = 0, gt_args = [], gt_fields = []\<rparr>"

definition example_heap :: "gnode list" where
  "example_heap =
     [example_leaf G_INTEGER (GN_decl ''int'') 32, example_leaf G_INTEGER (GN_ident ''T'') 32,
      (example_leaf G_POINTER GN_none 64)\<lparr>gt_target := 1\<rparr>,
      (example_leaf G_RECORD (GN_ident ''box'') 64)\<lparr>gt_fields := [(''v'', 1), (''n'', 0)]\<rparr>,
      example_leaf (G_OTHER 0) (GN_decl ''double'') 64, example_leaf (G_OTHER 0) (GN_decl ''float'') 32,
      (example_leaf G_RECORD (GN_ident ''slice'') 128)\<lparr>gt_fields := [(''data'', 2), (''len'', 0)]\<rparr>,
      (example_leaf G_RECORD (GN_ident ''list'') 128)\<lparr>gt_fields := [(''v'', 1), (''next'', 8)]\<rparr>,
      (example_leaf G_POINTER GN_none 64)\<lparr>gt_target := 7\<rparr>]"

definition example_state :: gstate where
  "example_state =
     \<lparr>gs_heap = example_heap, gs_params = [(0, [''T''])], gs_bindings = Map.empty, gs_binding_template = None,
      gs_current_fn = None, gs_current_parms = [], gs_counter = 0, gs_instances = Map.empty,
      gs_templates = [''box'' \<mapsto> 3, ''slice'' \<mapsto> 6, ''list'' \<mapsto> 7],
      gs_tparams = [''box'' \<mapsto> [''T''], ''slice'' \<mapsto> [''T''], ''list'' \<mapsto> [''T'']], gs_cache = Map.empty, gs_tcounter = 0\<rparr>"

lemmas example_defs = example_params_def example_leaf_def example_heap_def example_state_def node_def is_aggregate_def
  is_pointer_def plain_field_def subst_placeholder_def bind_types_def czet_get_type_template_params_def cached_def

lemma example_lookup [simp]:
  "gs_templates example_state ''box'' = Some 3" "gs_templates example_state ''slice'' = Some 6" "gs_templates example_state ''list'' = Some 7"
  "czet_get_type_template_params example_state ''box'' = [''T'']" "czet_get_type_template_params example_state ''slice'' = [''T'']"
  "czet_get_type_template_params example_state ''list'' = [''T'']" "length (gs_heap example_state) = 9" "cached example_state tag = []"
  "gt_fields (node example_state 3) = [(''v'', 1), (''n'', 0)]" "gt_fields (node example_state 6) = [(''data'', 2), (''len'', 0)]"
  "gt_fields (node example_state 7) = [(''v'', 1), (''next'', 8)]" "gt_target (node example_state 2) = 1"
  "bind_types [''T''] [c] = [''T'' \<mapsto> c]"
  by (simp_all add: example_defs)

theorem template_instance_witness:
  "\<exists>st'. czet_instantiate_type 2 example_params ''box'' [4] example_state = Some (Some 9, st')
    \<and> gt_fields (node st' 9) = [(''v'', 4), (''n'', 0)]
    \<and> czet_instantiate_type 1 example_params ''box'' [4] st' = Some (Some 9, st')"
proof -
  have "\<forall>(f, t) \<in> set (gt_fields (node example_state 3)).
      plain_field 1 example_params (bind_types (czet_get_type_template_params example_state ''box'') [4]) example_state t"
    by (simp add: example_defs)
  from template_instance [OF _ _ _ _ _ _ this]
  obtain st' fs where run: "czet_instantiate_type (Suc 1) example_params ''box'' [4] example_state = Some (Some 9, st')"
      "\<forall>m. czet_instantiate_type (Suc m) example_params ''box'' [4] st' = Some (Some 9, st')"
    and fs: "gt_fields (node st' 9) = fs" "map fst fs = [''v'', ''n'']"
      "\<forall>k < length fs. snd (fs ! k) = subst_placeholder example_params [''T'' \<mapsto> 4] example_state (snd ([(''v'', 1), (''n'', 0)] ! k))"
    by (auto simp del: czet_instantiate_type.simps)
  from fs(2) obtain a b where "fs = [(''v'', a), (''n'', b)]" by (auto simp: map_eq_Cons_conv)
  with fs(3) have "fs = [(''v'', 4), (''n'', 0)]" by (auto simp: example_defs less_Suc_eq)
  with run fs(1) show ?thesis
    by (intro exI [of _ st']) (simp add: numeral_2_eq_2 One_nat_def del: czet_instantiate_type.simps)
qed

theorem self_reference_diverges_witness:
  "\<forall>n. czet_instantiate_type n example_params ''list'' [4] example_state = None"
proof -
  have "self_reference 1 example_params ''list'' [4] 7 1 example_state"
    by (simp add: self_reference_def) (simp add: example_defs)
  from self_reference_diverges [OF this] show ?thesis by simp
qed

definition example_function :: gtempl where
  "example_function = \<lparr>gm_id = 0, gm_ret = 1, gm_args = [1, 1]\<rparr>"

text \<open>\<^verbatim>\<open>sum<double>\<close> after \<^verbatim>\<open>sum<float>\<close> is the function that returns a \<^verbatim>\<open>float\<close>.\<close>

theorem function_instance_shared_witness:
  "\<exists>d st'. czet_build_instance_decl 1 example_params example_function [5] example_state = Some (d, st')
    \<and> gd_ret d = 5 \<and> czet_build_instance_decl 1 example_params example_function [4] st' = Some (d, st')"
proof -
  have p: "czet_generic_params example_state 0 = [''T'']" by (simp add: czet_generic_params_def example_state_def)
  have n: "node example_state 1 = example_leaf G_INTEGER (GN_ident ''T'') 32" by (simp add: node_def example_state_def example_heap_def)
  have "czet_subst_type 1 example_params [''T'' \<mapsto> 5] 1 example_state = Some (5, example_state)"
    by (simp add: n [simplified] example_leaf_def is_pointer_def is_aggregate_def)
  then have "czet_materialize 1 example_params example_function [5] example_state = Some ((5, [5, 5]), example_state)"
    by (simp add: czet_materialize_def p example_function_def del: czet_subst_type.simps One_nat_def)
  moreover have "gs_instances example_state k = None" for k by (simp add: example_state_def)
  ultimately obtain d st' where run: "czet_build_instance_decl 1 example_params example_function [5] example_state = Some (d, st')"
      "gd_ret d = 5"
    by (simp add: czet_build_instance_decl_def czet_instance_name_def Let_def)
  have "\<forall>i < length [5 :: nat]. [4] ! i = [5] ! i
      \<or> \<not> is_integral (node example_state ([4] ! i)) \<and> \<not> is_integral (node example_state ([5] ! i))"
    by (simp add: is_integral_def node_def example_state_def example_heap_def example_leaf_def)
  from function_instance_shared [OF run(1) _ _ this] run show ?thesis by auto
qed

theorem pointer_member_first_wins_witness:
  "\<exists>st1 st2 a b. czet_instantiate_type 3 example_params ''slice'' [4] example_state = Some (Some a, st1)
    \<and> czet_instantiate_type 3 example_params ''slice'' [0] st1 = Some (Some b, st2) \<and> a \<noteq> b
    \<and> hd (gt_fields (node st2 b)) = (''data'', 2) \<and> gt_target (node st2 2) = 4"
proof -
  have sig: "type_signature example_params [node example_state 4] [] \<noteq> type_signature example_params [node example_state 0] []"
    by code_simp
  have c: "closed 1 example_params b example_state 4" "closed 1 example_params b example_state 0" for b
    by (simp_all add: example_defs)
  have "\<exists>st1 st2 a b. czet_instantiate_type (Suc (Suc 1)) example_params ''slice'' [4] example_state = Some (Some a, st1)
    \<and> czet_instantiate_type (Suc (Suc 1)) example_params ''slice'' [0] st1 = Some (Some b, st2) \<and> a \<noteq> b
    \<and> hd (gt_fields (node st2 b)) = (''data'', 2) \<and> gt_target (node st2 2) = 4"
    by (rule pointer_member_first_wins [where tmpl = 6 and x = "''T''" and rest = "[(''len'', 0)]"])
      (simp_all add: sig c del: czet_instantiate_type.simps type_signature.simps closed.simps One_nat_def, simp_all add: example_defs)
  then show ?thesis by (simp only: numeral_3_eq_3 One_nat_def)
qed

end
