(* ===== verification/Generic_Replay.thy ===== *)
theory Generic_Replay
  imports Generics Token_Stream
begin

text \<open>
  Instances of generic functions are requested while a body is parsed and defined later, at the top
  level, by parsing the captured tokens of the template again (c-parser.cc).  The C parser itself is
  a parameter: for the tokens of a definition and the active bindings it gives the generic calls met, in
  order.  The state also records the names of the functions defined so far.  Two declarations are the same
  node when they are equal, since every instance has a name of its own.
\<close>

subsection \<open>State\<close>

record czet_pending_inst =
  pi_templ :: gtempl
  pi_types :: "taddr list"
  pi_decl :: gdecl

record rstate =
  rs_parser :: c_parser
  rs_gen :: gstate
  rs_pending :: "czet_pending_inst list"
  rs_bodies :: "(nat \<times> tokens) list"
  rs_replay_decl :: "gdecl option"
  rs_defined :: "string list"

type_synonym body_calls = "tokens \<Rightarrow> bindings \<Rightarrow> (gtempl \<times> taddr list) list"

subsection \<open>Captured bodies\<close>

definition czet_get_body_tokens :: "rstate \<Rightarrow> nat \<Rightarrow> tokens option" where
  "czet_get_body_tokens st fn = map_of (rs_bodies st) fn"

definition czet_set_body_tokens :: "rstate \<Rightarrow> nat \<Rightarrow> tokens \<Rightarrow> rstate" where
  "czet_set_body_tokens st fn toks =
     st\<lparr>rs_bodies := (case set_params fn toks (rs_bodies st) of
                        None \<Rightarrow> (fn, toks) # rs_bodies st | Some xs \<Rightarrow> xs)\<rparr>"

text \<open>
  The end of a definition: the probe of a template is kept with eight \<^verbatim>\<open>CPP_EOF\<close> behind it.  Inside an
  external declaration the probe is \<^verbatim>\<open>NULL\<close> exactly when it has been committed.
\<close>

definition stash_body :: "bool \<Rightarrow> nat \<Rightarrow> rstate \<Rightarrow> rstate" where
  "stash_body generic fn st =
     (let ps = rs_parser st in
      if generic \<and> \<not> cp_probe_committed ps
      then (czet_set_body_tokens st fn (cp_probe ps @ replicate 8 eof_tok))
             \<lparr>rs_parser := ps\<lparr>cp_probe := [], cp_probe_committed := True\<rparr>\<rparr>
      else st)"

subsection \<open>Requests and replay\<close>

definition czet_instantiate :: "nat \<Rightarrow> gparams \<Rightarrow> gtempl \<Rightarrow> taddr list \<Rightarrow> rstate \<Rightarrow> (gdecl \<times> rstate) option" where
  "czet_instantiate m G templ types st =
     (case czet_build_instance_decl m G templ types (rs_gen st) of
        None \<Rightarrow> None
      | Some (d, g) \<Rightarrow>
          Some (d, st\<lparr>rs_gen := g,
                      rs_pending := (if list_ex (\<lambda>p. pi_decl p = d) (rs_pending st) then rs_pending st
                                     else \<lparr>pi_templ = templ, pi_types = types, pi_decl = d\<rparr> # rs_pending st)\<rparr>))"

fun instantiate_all :: "nat \<Rightarrow> gparams \<Rightarrow> (gtempl \<times> taddr list) list \<Rightarrow> rstate \<Rightarrow> rstate option" where
  "instantiate_all m G [] st = Some st"
| "instantiate_all m G ((templ, types) # rs) st =
     (case czet_instantiate m G templ types st of
        None \<Rightarrow> None
      | Some (d, st1) \<Rightarrow> instantiate_all m G rs st1)"

text \<open>
  The parse of a replayed definition: \<^verbatim>\<open>start_function\<close> gives it the name of the instance, then the
  generic calls of its body are met.
\<close>

definition replay_definition :: "nat \<Rightarrow> gparams \<Rightarrow> body_calls \<Rightarrow> rstate \<Rightarrow> rstate option" where
  "replay_definition m G calls st =
     instantiate_all m G (calls (cp_tokens (rs_parser st)) (gs_bindings (rs_gen st)))
       (case rs_replay_decl st of None \<Rightarrow> st | Some d \<Rightarrow> st\<lparr>rs_defined := rs_defined st @ [gd_name d]\<rparr>)"

definition czet_replay :: "nat \<Rightarrow> gparams \<Rightarrow> body_calls \<Rightarrow> czet_pending_inst \<Rightarrow> rstate \<Rightarrow> rstate option" where
  "czet_replay m G calls p st =
     (case czet_get_body_tokens st (gm_id (pi_templ p)) of
        None \<Rightarrow> Some st
      | Some toks \<Rightarrow>
          map_option (\<lambda>st1. st1\<lparr>rs_replay_decl := None, rs_gen := czet_clear_instantiation_bindings (rs_gen st1),
                                 rs_parser := (rs_parser st1)\<lparr>cp_tokens := cp_tokens (rs_parser st)\<rparr>\<rparr>)
            (replay_definition m G calls
               (st\<lparr>rs_parser := (rs_parser st)\<lparr>cp_probing := False, cp_tokens := toks\<rparr>,
                   rs_gen := czet_set_instantiation_bindings (rs_gen st) (gm_id (pi_templ p)) (pi_types p),
                   rs_replay_decl := Some (pi_decl p)\<rparr>)))"

text \<open>The loop has no bound in the source: \<open>None\<close> with fuel \<open>n\<close> is a loop that has not ended after \<open>n\<close> tests.\<close>

fun czet_flush_instances :: "nat \<Rightarrow> nat \<Rightarrow> gparams \<Rightarrow> body_calls \<Rightarrow> rstate \<Rightarrow> rstate option" where
  "czet_flush_instances 0 m G calls st = None"
| "czet_flush_instances (Suc n) m G calls st =
     (case rs_pending st of
        [] \<Rightarrow> Some st
      | p # ps \<Rightarrow>
          (case czet_replay m G calls p (st\<lparr>rs_pending := ps\<rparr>) of
             None \<Rightarrow> None
           | Some st1 \<Rightarrow> czet_flush_instances n m G calls st1))"

text \<open>
  One round of the loop over the translation unit: the probe is started, the external declaration is
  parsed, and what it requested is defined.  What the C parser makes of the declaration is given: its
  generic calls, and for a generic definition the function and the tokens that were probed.
\<close>

definition external_declaration :: "nat \<Rightarrow> nat \<Rightarrow> gparams \<Rightarrow> body_calls \<Rightarrow> (gtempl \<times> taddr list) list \<Rightarrow> (nat \<times> tokens) option \<Rightarrow> rstate \<Rightarrow> rstate option" where
  "external_declaration n m G calls requests defines st =
     (let st1 = st\<lparr>rs_parser := (rs_parser st)\<lparr>cp_probe := [], cp_probing := True, cp_probe_committed := False\<rparr>\<rparr> in
      case instantiate_all m G requests st1 of
        None \<Rightarrow> None
      | Some st2 \<Rightarrow>
          let st3 = (case defines of
                       None \<Rightarrow> st2
                     | Some (fn, toks) \<Rightarrow> stash_body True fn (st2\<lparr>rs_parser := (rs_parser st2)\<lparr>cp_probe := toks\<rparr>\<rparr>))
          in czet_flush_instances n m G calls (st3\<lparr>rs_parser := (rs_parser st3)\<lparr>cp_probing := False, cp_probe := []\<rparr>\<rparr>))"

subsection \<open>Bodies\<close>

lemma get_set_body:
  "czet_get_body_tokens (czet_set_body_tokens st fn toks) g = (if g = fn then Some toks else czet_get_body_tokens st g)"
  by (auto simp: czet_get_body_tokens_def czet_set_body_tokens_def dest: set_params_map_of split: option.split)

lemma stash_then_get:
  "\<not> cp_probe_committed (rs_parser st) \<Longrightarrow>
   czet_get_body_tokens (stash_body True fn st) fn = Some (cp_probe (rs_parser st) @ replicate 8 eof_tok)"
  using get_set_body [of st fn] by (simp add: stash_body_def Let_def czet_get_body_tokens_def)

subsection \<open>Flushing\<close>

text \<open>Whether the body of a request is known and makes no generic call itself.\<close>

definition leaf_request :: "body_calls \<Rightarrow> rstate \<Rightarrow> czet_pending_inst \<Rightarrow> bool" where
  "leaf_request calls st p \<longleftrightarrow>
     (case czet_get_body_tokens st (gm_id (pi_templ p)) of
        None \<Rightarrow> False
      | Some toks \<Rightarrow> calls toks (bind_types (czet_generic_params (rs_gen st) (gm_id (pi_templ p))) (pi_types p)) = [])"

definition after_leaves :: "string list \<Rightarrow> rstate \<Rightarrow> rstate" where
  "after_leaves names st =
     (if names = [] then st
      else st\<lparr>rs_parser := (rs_parser st)\<lparr>cp_probing := False\<rparr>,
              rs_gen := czet_clear_instantiation_bindings (rs_gen st),
              rs_pending := [], rs_replay_decl := None, rs_defined := rs_defined st @ names\<rparr>)"

lemma clear_set_bindings [simp]:
  "czet_clear_instantiation_bindings (czet_set_instantiation_bindings g t types) = czet_clear_instantiation_bindings g"
  "czet_clear_instantiation_bindings (czet_clear_instantiation_bindings g) = czet_clear_instantiation_bindings g"
  by (simp_all add: czet_clear_instantiation_bindings_def czet_set_instantiation_bindings_def)

lemma params_clear [simp]: "czet_generic_params (czet_clear_instantiation_bindings g) = czet_generic_params g"
  by (simp add: fun_eq_iff czet_generic_params_def czet_clear_instantiation_bindings_def)

lemma bindings_set [simp]:
  "gs_bindings (czet_set_instantiation_bindings g t types) = bind_types (czet_generic_params g t) types"
  by (simp add: czet_set_instantiation_bindings_def)

lemma replay_leaf:
  assumes "leaf_request calls st p"
  shows "czet_replay m G calls p st = Some (st\<lparr>rs_parser := (rs_parser st)\<lparr>cp_probing := False\<rparr>,
    rs_gen := czet_clear_instantiation_bindings (rs_gen st), rs_replay_decl := None,
    rs_defined := rs_defined st @ [gd_name (pi_decl p)]\<rparr>)"
  using assms by (auto simp: leaf_request_def czet_replay_def replay_definition_def split: option.splits)

text \<open>
  C31. When the requested bodies make no generic calls, flushing ends after one test per request and
  one more: every requested instance is defined, the most recent request first, under the name its callers
  use, the bindings are dropped and the token stream is as before.
\<close>

theorem flush_leaves:
  assumes "\<forall>p \<in> set (rs_pending st). leaf_request calls st p"
  shows "czet_flush_instances (Suc (length (rs_pending st))) m G calls st
    = Some (after_leaves (map (\<lambda>p. gd_name (pi_decl p)) (rs_pending st)) st)"
  using assms
proof (induction "rs_pending st" arbitrary: st)
  case Nil
  then show ?case by (simp add: after_leaves_def split: list.split)
next
  case (Cons p ps)
  let ?st = "st\<lparr>rs_pending := ps\<rparr>"
  let ?st1 = "?st\<lparr>rs_parser := (rs_parser st)\<lparr>cp_probing := False\<rparr>,
    rs_gen := czet_clear_instantiation_bindings (rs_gen st), rs_replay_decl := None,
    rs_defined := rs_defined st @ [gd_name (pi_decl p)]\<rparr>"
  have same: "leaf_request calls ?st q = leaf_request calls st q" "leaf_request calls ?st1 q = leaf_request calls st q" for q
    by (simp_all add: leaf_request_def czet_get_body_tokens_def split: option.split)
  have "czet_replay m G calls p ?st = Some ?st1"
    using replay_leaf [of calls ?st p m G] same(1) Cons.prems Cons.hyps(2) [symmetric] by simp
  moreover have "czet_flush_instances (Suc (length ps)) m G calls ?st1
      = Some (after_leaves (map (\<lambda>p. gd_name (pi_decl p)) ps) ?st1)"
    using Cons.hyps(1) [of ?st1] Cons.prems Cons.hyps(2) [symmetric] same(2) by simp
  ultimately show ?case
    unfolding Cons.hyps(2) [symmetric] by (simp add: Cons.hyps(2) [symmetric] after_leaves_def)
qed

subsection \<open>Requests that come again\<close>

lemma registry_bindings [simp]:
  "gs_instances (czet_clear_instantiation_bindings g) = gs_instances g"
  "gs_instances (czet_set_instantiation_bindings g t types) = gs_instances g"
  "instance_key G (czet_clear_instantiation_bindings g) templ types = instance_key G g templ types"
  "instance_key G (czet_set_instantiation_bindings g t types') templ types = instance_key G g templ types"
  by (simp_all add: czet_clear_instantiation_bindings_def czet_set_instantiation_bindings_def instance_key_def node_def)

text \<open>A request for a registered instance that is not pending.\<close>

lemma instantiate_registered:
  assumes "gs_instances (rs_gen st) (instance_key G (rs_gen st) templ types) = Some d"
  shows "czet_instantiate m G templ types st = Some (d,
    if list_ex (\<lambda>p. pi_decl p = d) (rs_pending st) then st
    else st\<lparr>rs_pending := \<lparr>pi_templ = templ, pi_types = types, pi_decl = d\<rparr> # rs_pending st\<rparr>)"
  using assms by (simp add: czet_instantiate_def czet_build_instance_decl_def)

lemma build_registers:
  assumes "czet_build_instance_decl m G templ types g = Some (d, g')" "\<forall>t \<in> set types. t < length (gs_heap g)"
  shows "gs_instances g' (instance_key G g' templ types) = Some d" "czet_generic_params g' = czet_generic_params g"
proof -
  have "instance_key G g' templ types = instance_key G g templ types"
    using assms(1)
  proof (cases rule: build_instance_cases)
    case (fresh r as g1)
    have "instance_key G g' templ types = instance_key G g1 templ types" by (simp add: fresh(4) instance_key_def node_def)
    with instance_key_grows [OF fresh(2) assms(2)] show ?thesis by simp
  qed simp
  with assms(1) show "gs_instances g' (instance_key G g' templ types) = Some d"
    by (cases rule: build_instance_cases) simp_all
  from assms(1) show "czet_generic_params g' = czet_generic_params g"
    by (cases rule: build_instance_cases) (simp_all add: fun_eq_iff czet_generic_params_def grows_def)
qed

text \<open>
  An instance is defined once for each external declaration that uses it: when a second
  declaration makes the same call, the instance is replayed again and its name is defined twice.
\<close>

theorem instance_defined_twice:
  assumes "rs_pending st = []" "\<forall>t \<in> set types. t < length (gs_heap (rs_gen st))"
    "czet_build_instance_decl m G templ types (rs_gen st) = Some (d, g)"
    "leaf_request calls st \<lparr>pi_templ = templ, pi_types = types, pi_decl = d\<rparr>"
  shows "\<exists>st1 st2. external_declaration 2 m G calls [(templ, types)] None st = Some st1
    \<and> external_declaration 2 m G calls [(templ, types)] None st1 = Some st2
    \<and> rs_defined st2 = rs_defined st @ [gd_name d, gd_name d]"
proof -
  let ?p = "\<lparr>pi_templ = templ, pi_types = types, pi_decl = d\<rparr>"
  note reg = build_registers [OF assms(3,2)]
  have round: "external_declaration 2 m G calls [(templ, types)] None s
      = Some (after_leaves [gd_name d] (s\<lparr>rs_gen := g', rs_pending := [?p],
                rs_parser := (rs_parser s)\<lparr>cp_probe_committed := False, cp_probing := False, cp_probe := []\<rparr>\<rparr>))"
    if s: "rs_pending s = []" "czet_build_instance_decl m G templ types (rs_gen s) = Some (d, g')"
      "leaf_request calls (s\<lparr>rs_gen := g'\<rparr>) ?p" for s g'
  proof -
    let ?s = "s\<lparr>rs_gen := g', rs_pending := [?p],
      rs_parser := (rs_parser s)\<lparr>cp_probe_committed := False, cp_probing := False, cp_probe := []\<rparr>\<rparr>"
    have "leaf_request calls ?s ?p"
      using s(3) by (simp add: leaf_request_def czet_get_body_tokens_def split: option.splits)
    with flush_leaves [of ?s calls m G] have "czet_flush_instances 2 m G calls ?s = Some (after_leaves [gd_name d] ?s)"
      by (simp add: numeral_2_eq_2 del: czet_flush_instances.simps)
    then show ?thesis
      using s(1,2) by (simp add: external_declaration_def czet_instantiate_def del: czet_flush_instances.simps)
  qed
  have leaf: "leaf_request calls (s\<lparr>rs_gen := g'\<rparr>) ?p"
    if "rs_bodies s = rs_bodies st" "czet_generic_params g' = czet_generic_params (rs_gen st)" for s g'
    using assms(4) that by (simp add: leaf_request_def czet_get_body_tokens_def split: option.splits)
  let ?g = "czet_clear_instantiation_bindings g"
  obtain st1 where st1: "external_declaration 2 m G calls [(templ, types)] None st = Some st1"
    "rs_pending st1 = []" "rs_gen st1 = ?g" "rs_bodies st1 = rs_bodies st" "rs_defined st1 = rs_defined st @ [gd_name d]"
    using round [OF assms(1,3) leaf] reg(2) by (simp add: after_leaves_def)
  have "czet_build_instance_decl m G templ types (rs_gen st1) = Some (d, ?g)"
    using reg(1) st1(3) by (simp add: czet_build_instance_decl_def)
  from round [OF st1(2) this leaf] reg(2) st1 show ?thesis by (simp add: after_leaves_def)
qed

text \<open>
  C35. A generic function that calls itself with its own type arguments is replayed for ever: once it is
  requested, flushing does not end.
\<close>

theorem recursive_generic_hangs:
  assumes "rs_pending st = [\<lparr>pi_templ = templ, pi_types = types, pi_decl = d\<rparr>]"
    "gs_instances (rs_gen st) (instance_key G (rs_gen st) templ types) = Some d"
    "czet_get_body_tokens st (gm_id templ) = Some toks"
    "set (calls toks (bind_types (czet_generic_params (rs_gen st) (gm_id templ)) types)) = {(templ, types)}"
  shows "czet_flush_instances n m G calls st = None"
  using assms
proof (induction n arbitrary: st)
  case (Suc n)
  let ?p = "\<lparr>pi_templ = templ, pi_types = types, pi_decl = d\<rparr>"
  let ?b = "bind_types (czet_generic_params (rs_gen st) (gm_id templ)) types"
  have again: "instantiate_all m G rs s = Some s" if "set rs \<subseteq> {(templ, types)}" "rs_pending s = [?p]"
      "gs_instances (rs_gen s) (instance_key G (rs_gen s) templ types) = Some d" for rs s
    using that by (induction rs) (auto simp: instantiate_registered)
  have once: "instantiate_all m G rs s = Some (s\<lparr>rs_pending := [?p]\<rparr>)" if "set rs = {(templ, types)}" "rs_pending s = []"
      "gs_instances (rs_gen s) (instance_key G (rs_gen s) templ types) = Some d" for rs s
    using that again [of "tl rs" "s\<lparr>rs_pending := [?p]\<rparr>"] by (cases rs) (auto simp: instantiate_registered)
  obtain st1 where "czet_replay m G calls ?p (st\<lparr>rs_pending := []\<rparr>) = Some st1" "rs_pending st1 = [?p]"
      "rs_bodies st1 = rs_bodies st" "rs_gen st1 = czet_clear_instantiation_bindings (rs_gen st)"
    using Suc.prems(2-4) once
    by (simp add: czet_replay_def czet_get_body_tokens_def replay_definition_def)
  moreover from this Suc.prems have "czet_flush_instances n m G calls st1 = None"
    by (intro Suc.IH) (simp_all add: czet_get_body_tokens_def)
  ultimately show ?case using Suc.prems(1) by simp
qed simp

subsection \<open>Concrete calls\<close>

definition example_parser :: c_parser where
  "example_parser = \<lparr>cp_tokens = [], cp_prelexed = False, cp_probing = False, cp_probe_committed = False, cp_probe = [],
     cp_inject = None, cp_inject_pos = 0, cp_inject_stack = [], cp_lexer = [], cp_error = False\<rparr>"

text \<open>A declaration whose instance was made before, and a captured body.\<close>

definition example_replay :: "czet_pending_inst list \<Rightarrow> rstate" where
  "example_replay ps =
     \<lparr>rs_parser = example_parser,
      rs_gen = example_state\<lparr>gs_instances := [instance_key example_params example_state example_function [0]
                 \<mapsto> \<lparr>gd_name = instance_label 0, gd_ret = 0, gd_args = [0, 0]\<rparr>], gs_counter := 1\<rparr>,
      rs_pending = ps, rs_bodies = [(0, [eof_tok])], rs_replay_decl = None, rs_defined = []\<rparr>"

definition example_request :: czet_pending_inst where
  "example_request = \<lparr>pi_templ = example_function, pi_types = [0],
     pi_decl = \<lparr>gd_name = instance_label 0, gd_ret = 0, gd_args = [0, 0]\<rparr>\<rparr>"

lemma example_registered:
  "gs_instances (rs_gen (example_replay ps)) (instance_key example_params (rs_gen (example_replay ps)) example_function [0])
    = Some (pi_decl example_request)"
  by (simp add: example_replay_def example_request_def instance_key_def node_def)

theorem flush_leaves_witness:
  "czet_flush_instances (Suc 1) 1 example_params (\<lambda>_ _. []) (example_replay [example_request])
    = Some (after_leaves [instance_label 0] (example_replay [example_request]))"
proof -
  have p: "rs_pending (example_replay [example_request]) = [example_request]" by (simp add: example_replay_def)
  have "leaf_request (\<lambda>_ _. []) (example_replay [example_request]) example_request"
    by (simp add: leaf_request_def czet_get_body_tokens_def example_replay_def example_request_def example_function_def)
  with flush_leaves [of "example_replay [example_request]" "\<lambda>_ _. []" 1 example_params] p show ?thesis
    by (simp add: example_request_def del: czet_flush_instances.simps)
qed

theorem instance_defined_twice_witness:
  "\<exists>st1 st2. external_declaration 2 1 example_params (\<lambda>_ _. []) [(example_function, [0])] None (example_replay []) = Some st1
    \<and> external_declaration 2 1 example_params (\<lambda>_ _. []) [(example_function, [0])] None st1 = Some st2
    \<and> rs_defined st2 = [instance_label 0, instance_label 0]"
proof -
  let ?st = "example_replay []" and ?d = "pi_decl example_request"
  have "czet_build_instance_decl 1 example_params example_function [0] (rs_gen ?st) = Some (?d, rs_gen ?st)"
    using example_registered [of "[]"] by (simp add: czet_build_instance_decl_def)
  from instance_defined_twice [of ?st "[0]" 1 example_params example_function ?d "rs_gen ?st" "\<lambda>_ _. []", OF _ _ this]
  show ?thesis
    by (simp add: leaf_request_def czet_get_body_tokens_def example_replay_def example_request_def example_function_def
        example_state_def example_heap_def)
qed

theorem recursive_generic_hangs_witness:
  "\<forall>n. czet_flush_instances n 1 example_params (\<lambda>_ _. [(example_function, [0])]) (example_replay [example_request]) = None"
proof
  fix n
  show "czet_flush_instances n 1 example_params (\<lambda>_ _. [(example_function, [0])]) (example_replay [example_request]) = None"
    using recursive_generic_hangs [OF _ example_registered, of "[example_request]" "[eof_tok]" "\<lambda>_ _. [(example_function, [0])]" n 1]
    by (simp add: example_replay_def example_request_def czet_get_body_tokens_def example_function_def)
qed

end
