(* ===== verification/Generic_Lists.thy ===== *)
theory Generic_Lists
  imports Generic_Replay
begin

text \<open>
  The lists in angle brackets of generics (c-parser.cc), and the type-parameter scope they open and close in
  the C front end (c-parser.cc, c-decl.cc).  A scope is the list of its names, empty when there is none; the
  empty string stands for a name that is missing.  The parser of type names is a parameter: it gives
  a type, no type after an error, or does not return.
\<close>

subsection \<open>Parameter lists\<close>

datatype gdiag = GD_param_name | GD_param_close | GD_type_arg | GD_generic_arg

function param_names :: "c_parser \<Rightarrow> string list \<times> gdiag list \<times> c_parser" where
  "param_names ps =
     (case c_parser_peek_token ps of (t, ps1) \<Rightarrow>
        let (name, es, ps2) = (if tk_type t = CPP_NAME then (tk_value t, [], c_parser_consume_token ps1)
                               else ([], [GD_param_name], ps1))
        in (case c_parser_peek_token ps2 of (c, ps3) \<Rightarrow>
              if tk_type c = CPP_COMMA
              then (case param_names (c_parser_consume_token ps3) of (names, es', ps4) \<Rightarrow> (name # names, es @ es', ps4))
              else ([name], es, ps3)))"
  by pat_completeness auto
termination
proof (relation "measure live")
  fix ps t ps1 x name y es ps2 c ps3
  assume p: "(t, ps1) = c_parser_peek_token ps" "(c, ps3) = c_parser_peek_token ps2" "tk_type c = CPP_COMMA"
    and x: "x = (if tk_type t = CPP_NAME then (tk_value t, [], c_parser_consume_token ps1) else ([], [GD_param_name], ps1))"
      "(name, y) = x" "(es, ps2) = y"
  have "live ps2 \<le> live ps"
    using x peek_live [OF p(1) [symmetric]] consume_live_le [of ps1] by (auto split: if_splits)
  moreover have "live (c_parser_consume_token ps3) < live ps2" using peek_consume_live [OF p(2) [symmetric]] p(3) by simp
  ultimately show "(c_parser_consume_token ps3, ps) \<in> measure live" by simp
qed simp

declare param_names.simps [simp del]

text \<open>From the opening \<^verbatim>\<open><\<close>, which is the next token.\<close>

definition generic_params :: "c_parser \<Rightarrow> string list \<times> gdiag list \<times> c_parser" where
  "generic_params ps =
     (case c_parser_peek_token (c_parser_consume_token ps) of (t, ps1) \<Rightarrow>
        (case (if tk_type t = CPP_GREATER then ([], [], ps1) else param_names ps1) of (names, es, ps2) \<Rightarrow>
           (case c_parser_peek_token ps2 of (c, ps3) \<Rightarrow>
              if tk_type c \<noteq> CPP_GREATER then (names, es @ [GD_param_close], ps3)
              else (names, es, c_parser_consume_token ps3))))"

definition open_scope :: "rstate \<Rightarrow> gdiag list \<times> rstate" where
  "open_scope st =
     (case generic_params (rs_parser st) of (names, es, ps) \<Rightarrow>
        (es, st\<lparr>rs_parser := ps, rs_gen := czet_set_generic_scope (rs_gen st) names\<rparr>))"

text \<open>After the tag of a structure, and after the name in a declarator.\<close>

definition struct_tag_params :: "string \<Rightarrow> rstate \<Rightarrow> gdiag list \<times> rstate" where
  "struct_tag_params tag st =
     (case c_parser_peek_token (rs_parser st) of (t, ps) \<Rightarrow>
        if tk_type t = CPP_LESS \<and> czet_get_type_template_type (rs_gen st) tag = None
        then open_scope (st\<lparr>rs_parser := ps\<rparr>) else ([], st\<lparr>rs_parser := ps\<rparr>))"

definition declarator_params :: "bool \<Rightarrow> rstate \<Rightarrow> gdiag list \<times> rstate" where
  "declarator_params id_present st =
     (case c_parser_peek_token (rs_parser st) of (t, ps) \<Rightarrow>
        if id_present \<and> tk_type t = CPP_LESS
        then open_scope (st\<lparr>rs_parser := ps\<rparr>) else ([], st\<lparr>rs_parser := ps\<rparr>))"

subsection \<open>The scope of the parameters\<close>

text \<open>The end of a structure with members.\<close>

definition finish_template :: "string option \<Rightarrow> taddr \<Rightarrow> gstate \<Rightarrow> gstate" where
  "finish_template ident t g =
     (case ident of
        None \<Rightarrow> g
      | Some tag \<Rightarrow>
          if gs_current_parms g = [] then g
          else let g1 = czet_set_type_template g tag (gs_current_parms g) t
               in if czet_instantiation_active g1 then g1 else czet_pop_generic_fn g1)"

text \<open>The start of a function definition: whether it is a template, and the name it takes in a replay.\<close>

definition start_function :: "nat \<Rightarrow> rstate \<Rightarrow> bool \<times> string option \<times> rstate" where
  "start_function fn st =
     (let g = rs_gen st in
      if gs_current_parms g \<noteq> [] \<and> gs_binding_template g = None
      then (True, None, st\<lparr>rs_gen := czet_push_generic_fn (czet_set_generic_params g fn (gs_current_parms g)) fn\<rparr>)
      else if gs_binding_template g \<noteq> None then (False, map_option gd_name (rs_replay_decl st), st)
      else (False, None, st))"

text \<open>The end of a function definition, and whether its code is generated then.\<close>

definition finish_function :: "rstate \<Rightarrow> rstate" where
  "finish_function st =
     (if gs_current_parms (rs_gen st) \<noteq> [] then st\<lparr>rs_gen := czet_pop_generic_fn (rs_gen st)\<rparr> else st)"

definition genericized :: "bool \<Rightarrow> bool" where
  "genericized template \<longleftrightarrow> \<not> template"

text \<open>The types of the parameters in a replay are those of the instance, as far as it has any.\<close>

fun restamp :: "taddr list \<Rightarrow> taddr list \<Rightarrow> taddr list" where
  "restamp [] ats = []"
| "restamp (t # ts) [] = t # ts"
| "restamp (t # ts) (a # ats) = a # restamp ts ats"

definition store_parm_types :: "rstate \<Rightarrow> taddr list \<Rightarrow> taddr list" where
  "store_parm_types st parms = (case rs_replay_decl st of None \<Rightarrow> parms | Some d \<Rightarrow> restamp parms (gd_args d))"

text \<open>A name in the place of a type, for which no type was known when it was parsed.\<close>

definition grok_type_slot :: "gparams \<Rightarrow> (string \<Rightarrow> taddr option) \<Rightarrow> string \<Rightarrow> gstate \<Rightarrow> taddr option \<times> gstate" where
  "grok_type_slot G typedefs name g =
     (case czet_param_placeholder G g name of
        (Some t, g1) \<Rightarrow> (Some t, g1)
      | (None, g1) \<Rightarrow> (typedefs name, g1))"

subsection \<open>Argument lists\<close>

type_synonym type_parser = "rstate \<Rightarrow> (taddr option \<times> rstate) option"

text \<open>The fuel bounds the number of arguments.\<close>

fun struct_args :: "nat \<Rightarrow> type_parser \<Rightarrow> rstate \<Rightarrow> (taddr list \<times> gdiag list \<times> rstate) option" where
  "struct_args 0 tn st = None"
| "struct_args (Suc n) tn st =
     (case c_parser_peek_token (rs_parser st) of (t, ps1) \<Rightarrow>
        if tk_type t = CPP_GREATER then Some ([], [], st\<lparr>rs_parser := ps1\<rparr>)
        else
          (case tn (st\<lparr>rs_parser := ps1\<rparr>) of
             None \<Rightarrow> None
           | Some (None, st2) \<Rightarrow> Some ([], [GD_type_arg], st2\<lparr>rs_parser := snd (c_parser_peek_token (rs_parser st2))\<rparr>)
           | Some (Some ty, st2) \<Rightarrow>
               (case c_parser_peek_token (rs_parser st2) of (c, ps3) \<Rightarrow>
                  if tk_type c = CPP_COMMA
                  then map_option (\<lambda>(tys, es, st4). (ty # tys, es, st4)) (struct_args n tn (st2\<lparr>rs_parser := c_parser_consume_token ps3\<rparr>))
                  else Some ([ty], [], st2\<lparr>rs_parser := ps3\<rparr>))))"

definition mentions_param :: "gstate \<Rightarrow> taddr list \<Rightarrow> bool" where
  "mentions_param g types \<longleftrightarrow>
     list_ex (\<lambda>a. case gt_name (node g a) of GN_ident x \<Rightarrow> x \<in> set (gs_current_parms g) | _ \<Rightarrow> False) types"

text \<open>The use of a structure template, after the tag.  The result is the type, or none for a plain tag.\<close>

definition template_use :: "nat \<Rightarrow> nat \<Rightarrow> gparams \<Rightarrow> type_parser \<Rightarrow> string \<Rightarrow> rstate \<Rightarrow> (taddr option \<times> gdiag list \<times> rstate) option" where
  "template_use n m G tn tag st =
     (case c_parser_peek_token (rs_parser st) of (t, ps) \<Rightarrow>
        if tk_type t = CPP_LESS \<and> czet_get_type_template_type (rs_gen st) tag \<noteq> None then
          (case struct_args n tn (st\<lparr>rs_parser := c_parser_consume_token ps\<rparr>) of
             None \<Rightarrow> None
           | Some (types, es, st1) \<Rightarrow>
               (case c_parser_peek_token (rs_parser st1) of (c, ps2) \<Rightarrow>
                  let st2 = st1\<lparr>rs_parser := if tk_type c = CPP_GREATER then c_parser_consume_token ps2 else ps2\<rparr> in
                  if \<not> czet_instantiation_active (rs_gen st2) \<and> types \<noteq> [] \<and> mentions_param (rs_gen st2) types
                  then Some (czet_get_type_template_type (rs_gen st2) tag, es, st2)
                  else map_option (\<lambda>(ty, g). (ty, es, st2\<lparr>rs_gen := g\<rparr>)) (czet_instantiate_type m G tag types (rs_gen st2))))
        else Some (None, [], st\<lparr>rs_parser := ps\<rparr>))"

fun call_args :: "nat \<Rightarrow> type_parser \<Rightarrow> rstate \<Rightarrow> (taddr list \<times> gdiag list \<times> rstate) option" where
  "call_args 0 tn st = None"
| "call_args (Suc n) tn st =
     (case tn st of
        None \<Rightarrow> None
      | Some (r, st1) \<Rightarrow>
          let (tys, es) = (case r of None \<Rightarrow> ([], [GD_generic_arg]) | Some ty \<Rightarrow> ([ty], [])) in
          (case c_parser_peek_token (rs_parser st1) of (c, ps2) \<Rightarrow>
             if tk_type c = CPP_COMMA
             then map_option (\<lambda>(tys', es', st3). (tys @ tys', es @ es', st3)) (call_args n tn (st1\<lparr>rs_parser := c_parser_consume_token ps2\<rparr>))
             else Some (tys, es, st1\<lparr>rs_parser := ps2\<rparr>)))"

text \<open>
  A \<^verbatim>\<open><\<close> after an expression.  The callee is given when it is a generic function; the result is the
  instance that takes its place, or none when the sign is an operator.
\<close>

definition generic_call :: "nat \<Rightarrow> nat \<Rightarrow> gparams \<Rightarrow> type_parser \<Rightarrow> gtempl option \<Rightarrow> rstate \<Rightarrow> (gdecl option \<times> gdiag list \<times> rstate) option" where
  "generic_call n m G tn callee st =
     (case callee of
        None \<Rightarrow> Some (None, [], st)
      | Some templ \<Rightarrow>
          (case call_args n tn (st\<lparr>rs_parser := c_parser_consume_token (rs_parser st)\<rparr>) of
             None \<Rightarrow> None
           | Some (types, es, st1) \<Rightarrow>
               map_option (\<lambda>(d, st2). (Some d, es, st2))
                 (czet_instantiate m G templ types (st1\<lparr>rs_parser := c_parser_skip_until_found (rs_parser st1) CPP_GREATER\<rparr>))))"

subsection \<open>Parameters of a replayed function\<close>

lemma restamp_take: "restamp ts ats = take (length ts) ats @ drop (length ats) ts"
  by (induction ts ats rule: restamp.induct) simp_all

text \<open>A replayed function with the parameters of its template takes what its callers pass.\<close>

lemma replayed_parameters:
  "rs_replay_decl st = Some d \<Longrightarrow> length parms = length (gd_args d) \<Longrightarrow> store_parm_types st parms = gd_args d"
  by (simp add: store_parm_types_def restamp_take)

subsection \<open>Reading parameter lists\<close>

fun commas :: "tokens list \<Rightarrow> tokens" where
  "commas [] = []"
| "commas [w] = w"
| "commas (w # v # ws) = w @ mk_tok CPP_COMMA [] # commas (v # ws)"

lemma peek_stream:
  assumes "stream ps = t # ts"
  shows "\<exists>ps'. c_parser_peek_token ps = (t, ps') \<and> stream ps' = t # ts \<and> stream (c_parser_consume_token ps') = ts"
  using parser.peek_head [OF assms] parser.consume_tail [of ps] assms by (cases "c_parser_peek_token ps") auto

lemma token_types [simp]: "tk_type (mk_tok ty v) = ty" "tk_value (mk_tok ty v) = v" "tk_type (name_tok x) = CPP_NAME" "tk_value (name_tok x) = x"
  by (simp_all add: mk_tok_def name_tok_def)

lemma param_names_read:
  assumes "stream ps = commas (map (\<lambda>x. [name_tok x]) (n # ns)) @ c # rest" "tk_type c \<noteq> CPP_COMMA"
  shows "\<exists>ps'. param_names ps = (n # ns, [], ps') \<and> stream ps' = c # rest"
  using assms(1)
proof (induction ns arbitrary: n ps)
  case Nil
  then obtain ps1 where p1: "c_parser_peek_token ps = (name_tok n, ps1)" "stream (c_parser_consume_token ps1) = c # rest"
    using peek_stream [of ps] by auto
  then obtain ps2 where "c_parser_peek_token (c_parser_consume_token ps1) = (c, ps2)" "stream ps2 = c # rest"
    using peek_stream by blast
  with p1 assms(2) show ?case by (subst param_names.simps) simp
next
  case (Cons m ns)
  let ?r = "commas (map (\<lambda>x. [name_tok x]) (m # ns)) @ c # rest"
  have "stream ps = name_tok n # mk_tok CPP_COMMA [] # ?r" using Cons.prems by simp
  then obtain ps1 where p1: "c_parser_peek_token ps = (name_tok n, ps1)" "stream (c_parser_consume_token ps1) = mk_tok CPP_COMMA [] # ?r"
    using peek_stream by blast
  then obtain ps2 where p2: "c_parser_peek_token (c_parser_consume_token ps1) = (mk_tok CPP_COMMA [], ps2)" "stream (c_parser_consume_token ps2) = ?r"
    using peek_stream by blast
  from Cons.IH [OF this(2)] obtain ps' where "param_names (c_parser_consume_token ps2) = (m # ns, [], ps')" "stream ps' = c # rest" by blast
  with p1(1) p2(1) show ?case by (subst param_names.simps) simp
qed

lemma generic_params_read:
  assumes "stream ps = lt # commas (map (\<lambda>x. [name_tok x]) names) @ gt # rest" "tk_type gt = CPP_GREATER"
  shows "\<exists>ps'. generic_params (snd (c_parser_peek_token ps)) = (names, [], ps') \<and> stream ps' = rest"
proof -
  obtain ps1 where p1: "c_parser_peek_token ps = (lt, ps1)" "stream (c_parser_consume_token ps1) = commas (map (\<lambda>x. [name_tok x]) names) @ gt # rest"
    using peek_stream [OF assms(1)] by blast
  have close: "\<exists>ps3. c_parser_peek_token ps2 = (gt, ps3) \<and> stream (c_parser_consume_token ps3) = rest" if "stream ps2 = gt # rest" for ps2
    using peek_stream [OF that] by blast
  show ?thesis
  proof (cases names)
    case Nil
    then obtain ps2 where p2: "c_parser_peek_token (c_parser_consume_token ps1) = (gt, ps2)" "stream ps2 = gt # rest"
      using peek_stream [of "c_parser_consume_token ps1"] p1(2) by auto
    with p1(1) close [OF p2(2)] Nil assms(2) show ?thesis by (auto simp: generic_params_def)
  next
    case (Cons n ns)
    then obtain ps2 where p2: "c_parser_peek_token (c_parser_consume_token ps1) = (name_tok n, ps2)"
      "stream ps2 = commas (map (\<lambda>x. [name_tok x]) names) @ gt # rest"
      using peek_stream [of "c_parser_consume_token ps1"] p1(2) by (cases ns) auto
    then obtain ps3 where "param_names ps2 = (names, [], ps3)" "stream ps3 = gt # rest"
      using param_names_read [of ps2 n ns gt rest] Cons assms(2) by auto
    with p1(1) p2(1) close [OF this(2)] assms(2) show ?thesis by (auto simp: generic_params_def)
  qed
qed

lemma open_scope_read:
  assumes "stream (rs_parser st) = lt # commas (map (\<lambda>x. [name_tok x]) names) @ gt # rest" "tk_type gt = CPP_GREATER"
  shows "\<exists>ps'. open_scope (st\<lparr>rs_parser := snd (c_parser_peek_token (rs_parser st))\<rparr>)
      = ([], st\<lparr>rs_parser := ps', rs_gen := czet_set_generic_scope (rs_gen st) names\<rparr>) \<and> stream ps' = rest"
  using generic_params_read [OF assms] by (auto simp: open_scope_def)

lemma declarator_params_read:
  assumes "stream (rs_parser st) = lt # commas (map (\<lambda>x. [name_tok x]) names) @ gt # rest" "tk_type lt = CPP_LESS" "tk_type gt = CPP_GREATER"
  shows "\<exists>ps'. declarator_params True st = ([], st\<lparr>rs_parser := ps', rs_gen := czet_set_generic_scope (rs_gen st) names\<rparr>) \<and> stream ps' = rest"
  using open_scope_read [OF assms(1,3)] peek_stream [OF assms(1)] assms(2) by (auto simp: declarator_params_def)

lemma struct_tag_params_read:
  assumes "stream (rs_parser st) = lt # commas (map (\<lambda>x. [name_tok x]) names) @ gt # rest" "tk_type lt = CPP_LESS" "tk_type gt = CPP_GREATER"
    "gs_templates (rs_gen st) tag = None"
  shows "\<exists>ps'. struct_tag_params tag st = ([], st\<lparr>rs_parser := ps', rs_gen := czet_set_generic_scope (rs_gen st) names\<rparr>) \<and> stream ps' = rest"
  using open_scope_read [OF assms(1,3)] peek_stream [OF assms(1)] assms(2,4)
  by (auto simp: struct_tag_params_def czet_get_type_template_type_def)

subsection \<open>Reading argument lists\<close>

text \<open>A type parser reads the type that a piece of text denotes, up to a comma or a closing sign, and changes nothing else.\<close>

definition reads :: "type_parser \<Rightarrow> tokens \<Rightarrow> taddr \<Rightarrow> bool" where
  "reads tn w t \<longleftrightarrow> w \<noteq> [] \<and> tk_type (hd w) \<noteq> CPP_GREATER
     \<and> (\<forall>st c rest. stream (rs_parser st) = w @ c # rest \<longrightarrow> tk_type c \<in> {CPP_COMMA, CPP_GREATER, CPP_RSHIFT}
          \<longrightarrow> (\<exists>ps'. tn st = Some (Some t, st\<lparr>rs_parser := ps'\<rparr>) \<and> stream ps' = c # rest))"

lemma readsD:
  assumes "reads tn w t" "stream (rs_parser st) = w @ c # rest" "tk_type c \<in> {CPP_COMMA, CPP_GREATER, CPP_RSHIFT}"
  shows "\<exists>ps'. tn st = Some (Some t, st\<lparr>rs_parser := ps'\<rparr>) \<and> stream ps' = c # rest"
  using assms unfolding reads_def by blast

lemma call_args_read:
  assumes "stream (rs_parser st) = commas (map fst (a # args)) @ c # rest" "tk_type c \<in> {CPP_GREATER, CPP_RSHIFT}"
    "\<forall>(w, t) \<in> set (a # args). reads tn w t" "length args < n"
  shows "\<exists>ps'. call_args n tn st = Some (map snd (a # args), [], st\<lparr>rs_parser := ps'\<rparr>) \<and> stream ps' = c # rest"
  using assms(1,3,4)
proof (induction args arbitrary: a st n)
  case Nil
  obtain w t where a: "a = (w, t)" by fastforce
  obtain k where n: "n = Suc k" using Nil.prems(3) by (cases n) auto
  obtain ps1 where "tn st = Some (Some t, st\<lparr>rs_parser := ps1\<rparr>)" "stream ps1 = c # rest"
    using readsD [of tn w t st c rest] Nil.prems(1,2) a assms(2) by auto
  with peek_stream [OF this(2)] a n assms(2) show ?case by auto
next
  case (Cons b args)
  obtain w t where a: "a = (w, t)" by fastforce
  obtain k where n: "n = Suc k" "length args < k" using Cons.prems(3) by (cases n) auto
  let ?r = "commas (map fst (b # args)) @ c # rest"
  have "stream (rs_parser st) = w @ mk_tok CPP_COMMA [] # ?r" using Cons.prems(1) a by simp
  then obtain ps1 where p1: "tn st = Some (Some t, st\<lparr>rs_parser := ps1\<rparr>)" "stream ps1 = mk_tok CPP_COMMA [] # ?r"
    using readsD [of tn w t st] Cons.prems(2) a by fastforce
  then obtain ps2 where p2: "c_parser_peek_token ps1 = (mk_tok CPP_COMMA [], ps2)" "stream (c_parser_consume_token ps2) = ?r"
    using peek_stream by blast
  with Cons.IH [of "st\<lparr>rs_parser := c_parser_consume_token ps2\<rparr>" b k] Cons.prems(2) n(2)
  obtain ps' where "call_args k tn (st\<lparr>rs_parser := c_parser_consume_token ps2\<rparr>)
      = Some (map snd (b # args), [], st\<lparr>rs_parser := ps'\<rparr>)" "stream ps' = c # rest" by auto
  with p1(1) p2(1) a n(1) show ?case by auto
qed

lemma struct_args_read:
  assumes "stream (rs_parser st) = commas (map fst args) @ c # rest" "tk_type c \<in> {CPP_GREATER, CPP_RSHIFT}"
    "args = [] \<longrightarrow> tk_type c = CPP_GREATER" "\<forall>(w, t) \<in> set args. reads tn w t" "length args < n"
  shows "\<exists>ps'. struct_args n tn st = Some (map snd args, [], st\<lparr>rs_parser := ps'\<rparr>) \<and> stream ps' = c # rest"
  using assms(1,3,4,5)
proof (induction args arbitrary: st n)
  case Nil
  then show ?case using peek_stream [of "rs_parser st" c rest] by (cases n) auto
next
  case (Cons a args)
  obtain w t where a: "a = (w, t)" by fastforce
  have rd: "reads tn w t" using Cons.prems(3) a by simp
  then obtain v ws where w: "w = v # ws" "tk_type v \<noteq> CPP_GREATER" by (cases w) (auto simp: reads_def)
  obtain k where n: "n = Suc k" "length args < k" using Cons.prems(4) by (cases n) auto
  define d r where "d = (if args = [] then c else mk_tok CPP_COMMA [])" and "r = (if args = [] then rest else commas (map fst args) @ c # rest)"
  have d: "tk_type d \<in> {CPP_COMMA, CPP_GREATER, CPP_RSHIFT}" using assms(2) by (auto simp: d_def)
  have s: "stream (rs_parser st) = w @ d # r"
    using Cons.prems(1) a by (cases args) (simp_all add: d_def r_def)
  then obtain ps0 where p0: "c_parser_peek_token (rs_parser st) = (v, ps0)" "stream ps0 = w @ d # r"
    using peek_stream [of "rs_parser st"] w(1) by auto
  obtain ps1 where p1: "tn (st\<lparr>rs_parser := ps0\<rparr>) = Some (Some t, st\<lparr>rs_parser := ps1\<rparr>)" "stream ps1 = d # r"
    using readsD [OF rd, of "st\<lparr>rs_parser := ps0\<rparr>" d r] p0(2) d by auto
  obtain ps2 where p2: "c_parser_peek_token ps1 = (d, ps2)" "stream ps2 = d # r" "stream (c_parser_consume_token ps2) = r"
    using peek_stream [OF p1(2)] by blast
  show ?case
  proof (cases "args = []")
    case True
    then show ?thesis using p0 p1 p2 w n a assms(2) by (auto simp: d_def r_def)
  next
    case False
    with Cons.IH [of "st\<lparr>rs_parser := c_parser_consume_token ps2\<rparr>" k] Cons.prems(3) n(2) p2(3)
    obtain ps' where "struct_args k tn (st\<lparr>rs_parser := c_parser_consume_token ps2\<rparr>)
      = Some (map snd args, [], st\<lparr>rs_parser := ps'\<rparr>)" "stream ps' = c # rest" by (auto simp: r_def)
    with p0 p1 p2 w n a False show ?thesis by (auto simp: d_def)
  qed
qed

text \<open>Reading arguments ends when the parser of types returns and never puts tokens back.\<close>

definition consumes :: "type_parser \<Rightarrow> bool" where
  "consumes tn \<longleftrightarrow> (\<forall>st. \<exists>r st'. tn st = Some (r, st') \<and> live (rs_parser st') \<le> live (rs_parser st))"

lemma struct_args_return: "consumes tn \<Longrightarrow> live (rs_parser st) < n \<Longrightarrow> struct_args n tn st \<noteq> None"
proof (induction n arbitrary: st)
  case (Suc n)
  obtain t ps1 where p1: "c_parser_peek_token (rs_parser st) = (t, ps1)" by fastforce
  obtain r st2 where r: "tn (st\<lparr>rs_parser := ps1\<rparr>) = Some (r, st2)" "live (rs_parser st2) \<le> live ps1"
    using Suc.prems(1) unfolding consumes_def by (metis rstate.select_convs(1) rstate.surjective rstate.update_convs(1))
  obtain c ps3 where p3: "c_parser_peek_token (rs_parser st2) = (c, ps3)" by fastforce
  show ?case
  proof (cases "tk_type c = CPP_COMMA")
    case True
    then have "live (c_parser_consume_token ps3) < n" using peek_consume_live [OF p3] r(2) peek_live [OF p1] Suc.prems(2) by simp
    then have "struct_args n tn (st2\<lparr>rs_parser := c_parser_consume_token ps3\<rparr>) \<noteq> None" using Suc by simp
    then show ?thesis using p1 r(1) p3 True by (auto split: option.split)
  qed (use p1 r(1) p3 in \<open>auto split: option.split\<close>)
qed simp

lemma call_args_return: "consumes tn \<Longrightarrow> live (rs_parser st) < n \<Longrightarrow> call_args n tn st \<noteq> None"
proof (induction n arbitrary: st)
  case (Suc n)
  obtain r st1 where r: "tn st = Some (r, st1)" "live (rs_parser st1) \<le> live (rs_parser st)"
    using Suc.prems(1) unfolding consumes_def by blast
  obtain c ps2 where p2: "c_parser_peek_token (rs_parser st1) = (c, ps2)" by fastforce
  show ?case
  proof (cases "tk_type c = CPP_COMMA")
    case True
    then have "live (c_parser_consume_token ps2) < n" using peek_consume_live [OF p2] r(2) Suc.prems(2) by simp
    then have "call_args n tn (st1\<lparr>rs_parser := c_parser_consume_token ps2\<rparr>) \<noteq> None" using Suc by simp
    then show ?thesis using r(1) p2 True by (auto split: option.split)
  qed (use r(1) p2 in \<open>auto split: option.split\<close>)
qed simp

subsection \<open>Uses of templates\<close>

lemma require_found:
  assumes "stream ps = t # ts" "tk_type t = ty"
  shows "stream (c_parser_skip_until_found ps ty) = ts"
  using peek_stream [OF assms(1)] assms(2) by (auto simp: c_parser_skip_until_found_def c_parser_require_def)

text \<open>
  C28. A generic call \<^verbatim>\<open>f<A, B>(...)\<close> becomes a request for the instance of \<open>f\<close> at exactly the types written, in their
  order, and parsing goes on behind the closing sign, where the ordinary arguments start.
\<close>

theorem generic_call_requests:
  assumes "stream (rs_parser st) = lt # commas (map fst (a # args)) @ gt # rest" "tk_type gt = CPP_GREATER"
    "\<forall>(w, t) \<in> set (a # args). reads tn w t" "length args < n"
  shows "\<exists>ps'. stream ps' = rest
    \<and> generic_call n m G tn (Some templ) (st\<lparr>rs_parser := snd (c_parser_peek_token (rs_parser st))\<rparr>)
      = map_option (\<lambda>(d, st'). (Some d, [], st')) (czet_instantiate m G templ (map snd (a # args)) (st\<lparr>rs_parser := ps'\<rparr>))"
proof -
  obtain ps1 where p1: "c_parser_peek_token (rs_parser st) = (lt, ps1)" "stream (c_parser_consume_token ps1) = commas (map fst (a # args)) @ gt # rest"
    using peek_stream [OF assms(1)] by blast
  then obtain ps2 where p2: "call_args n tn (st\<lparr>rs_parser := c_parser_consume_token ps1\<rparr>) = Some (map snd (a # args), [], st\<lparr>rs_parser := ps2\<rparr>)"
    "stream ps2 = gt # rest"
    using call_args_read [of "st\<lparr>rs_parser := c_parser_consume_token ps1\<rparr>" a args gt rest tn n] assms(2-4) by auto
  show ?thesis
    using require_found [OF p2(2) assms(2)] p1(1) p2(1)
    by (intro exI [of _ "c_parser_skip_until_found ps2 CPP_GREATER"]) (simp add: generic_call_def)
qed

lemma template_use_run:
  assumes "stream (rs_parser st) = lt # commas (map fst args) @ c # rest" "tk_type lt = CPP_LESS" "tk_type c \<in> {CPP_GREATER, CPP_RSHIFT}"
    "args = [] \<longrightarrow> tk_type c = CPP_GREATER" "\<forall>(w, t) \<in> set args. reads tn w t" "length args < n" "gs_templates (rs_gen st) tag = Some tmpl"
  shows "\<exists>ps'. stream ps' = (if tk_type c = CPP_GREATER then rest else c # rest)
    \<and> template_use n m G tn tag st =
        (if \<not> czet_instantiation_active (rs_gen st) \<and> mentions_param (rs_gen st) (map snd args)
         then Some (Some tmpl, [], st\<lparr>rs_parser := ps'\<rparr>)
         else map_option (\<lambda>(ty, g). (ty, [], st\<lparr>rs_parser := ps', rs_gen := g\<rparr>)) (czet_instantiate_type m G tag (map snd args) (rs_gen st)))"
proof -
  obtain ps1 where p1: "c_parser_peek_token (rs_parser st) = (lt, ps1)" "stream (c_parser_consume_token ps1) = commas (map fst args) @ c # rest"
    using peek_stream [OF assms(1)] by blast
  then obtain ps2 where p2: "struct_args n tn (st\<lparr>rs_parser := c_parser_consume_token ps1\<rparr>) = Some (map snd args, [], st\<lparr>rs_parser := ps2\<rparr>)"
    "stream ps2 = c # rest"
    using struct_args_read [of "st\<lparr>rs_parser := c_parser_consume_token ps1\<rparr>" args c rest tn n] assms(3-6) by auto
  obtain ps3 where p3: "c_parser_peek_token ps2 = (c, ps3)" "stream ps3 = c # rest" "stream (c_parser_consume_token ps3) = rest"
    using peek_stream [OF p2(2)] by blast
  have e: "args = [] \<Longrightarrow> \<not> mentions_param (rs_gen st) (map snd args)" by (simp add: mentions_param_def)
  show ?thesis
    using p1(1) p2(1) p3 assms(2,7) e
    by (intro exI [of _ "if tk_type c = CPP_GREATER then c_parser_consume_token ps3 else ps3"])
      (auto simp: template_use_def Let_def czet_get_type_template_type_def simp del: map_map)
qed

text \<open>
  C30. From definition to use: after \<^verbatim>\<open>struct tag<T, U> { ... }\<close>, whose members may add types but keep the scope, the tag is a template with these parameters and the scope is
  closed again; a later \<^verbatim>\<open>struct tag<A, B>\<close> outside generic code is the instance of the template at the types written, and
  parsing goes on behind the closing sign.
\<close>

theorem generic_struct_use:
  assumes "stream (rs_parser st0) = lt # commas (map (\<lambda>x. [name_tok x]) names) @ gt # members" "names \<noteq> []"
    "tk_type lt = CPP_LESS" "tk_type gt = CPP_GREATER" "gs_templates (rs_gen st0) tag = None"
    "gs_current_parms g = gs_current_parms (rs_gen (snd (struct_tag_params tag st0)))" "gs_binding_template g = None"
    "rs_gen st = finish_template (Some tag) tmpl g"
    and "stream (rs_parser st) = lt' # commas (map fst args) @ gt' # rest" "tk_type lt' = CPP_LESS" "tk_type gt' = CPP_GREATER"
    "\<forall>(w, t) \<in> set args. reads tn w t" "length args < n"
  shows "stream (rs_parser (snd (struct_tag_params tag st0))) = members \<and> gs_current_parms (rs_gen st) = []
    \<and> czet_get_type_template_params (rs_gen st) tag = names
    \<and> (\<exists>ps'. stream ps' = rest \<and> template_use n m G tn tag st
         = map_option (\<lambda>(ty, g). (ty, [], st\<lparr>rs_parser := ps', rs_gen := g\<rparr>)) (czet_instantiate_type m G tag (map snd args) (rs_gen st)))"
proof -
  obtain ps1 where s: "struct_tag_params tag st0 = ([], st0\<lparr>rs_parser := ps1, rs_gen := czet_set_generic_scope (rs_gen st0) names\<rparr>)" "stream ps1 = members"
    using struct_tag_params_read [OF assms(1,3,4,5)] by blast
  have g: "gs_current_parms (rs_gen st) = []" "gs_tparams (rs_gen st) tag = Some names" "gs_templates (rs_gen st) tag = Some tmpl"
    unfolding assms(8) using assms(2,6,7) s
    by (simp_all add: finish_template_def Let_def czet_set_generic_scope_def czet_set_type_template_def czet_instantiation_active_def czet_pop_generic_fn_def)
  then have "\<not> mentions_param (rs_gen st) (map snd args)"
    by (auto simp: mentions_param_def list_ex_iff split: gname.split)
  then show ?thesis
    using template_use_run [OF assms(9,10) _ _ assms(12,13) g(3), of m G] assms(11) s g by (auto simp: czet_get_type_template_params_def)
qed

text \<open>
  An argument list that ends in \<^verbatim>\<open>>>\<close> is not closed: the instance is made, but the sign stays in the input, so
  that a template as the last argument of a template cannot be written without a space.
\<close>

theorem nested_closers_left:
  assumes "stream (rs_parser st) = lt # commas (map fst (a # args)) @ c # rest" "tk_type lt = CPP_LESS" "tk_type c = CPP_RSHIFT"
    "\<forall>(w, t) \<in> set (a # args). reads tn w t" "length args + 1 < n" "gs_templates (rs_gen st) tag = Some tmpl" "gs_current_parms (rs_gen st) = []"
    "czet_instantiate_type m G tag (map snd (a # args)) (rs_gen st) = Some (Some ty, g)"
  shows "\<exists>ps'. stream ps' = c # rest \<and> template_use n m G tn tag st = Some (Some ty, [], st\<lparr>rs_parser := ps', rs_gen := g\<rparr>)"
proof -
  have "\<not> mentions_param (rs_gen st) (map snd (a # args))"
    using assms(7) by (auto simp: mentions_param_def list_ex_iff split: gname.split)
  then show ?thesis
    using template_use_run [OF assms(1,2) _ _ assms(4) _ assms(6), of n m G] assms(3,5,8) by auto
qed

subsection \<open>Scopes over a translation unit\<close>

text \<open>
  The declarations of a translation unit, as far as they touch the scope: a function definition with its
  parameter list (empty when there is none) and the structures its body defines, a structure with members, and a
  declaration that only has a list, such as a prototype.  Each is given by the text after its name, from which the
  parser reads the list: \<^verbatim>\<open><T, U> (\<close> for a function, \<^verbatim>\<open><T, U> {\<close> for a structure.
\<close>

datatype top_decl =
    Top_function nat "string list" "(string \<times> taddr) list"
  | Top_struct string "string list" taddr
  | Top_only_list "string list"

definition list_text :: "string list \<Rightarrow> cpp_ttype \<Rightarrow> tokens" where
  "list_text ps next =
     (if ps = [] then [] else mk_tok CPP_LESS [] # commas (map (\<lambda>x. [name_tok x]) ps) @ [mk_tok CPP_GREATER []]) @ [mk_tok next []]"

definition at_text :: "tokens \<Rightarrow> rstate \<Rightarrow> rstate" where
  "at_text toks st = st\<lparr>rs_parser := \<lparr>cp_tokens = [], cp_prelexed = False, cp_probing = False, cp_probe_committed = False, cp_probe = [],
     cp_inject = None, cp_inject_pos = 0, cp_inject_stack = [], cp_lexer = toks, cp_error = False\<rparr>\<rparr>"

text \<open>
  A structure is defined when a brace follows its tag or the list after it; a list that was not read, because the tag is
  a template already, leaves \<^verbatim>\<open><\<close> as the next token, and the tag is then a reference.
\<close>

definition struct_definition :: "string \<Rightarrow> taddr \<Rightarrow> rstate \<Rightarrow> rstate" where
  "struct_definition tag t st =
     (case struct_tag_params tag st of (es, st1) \<Rightarrow>
        if tk_type (fst (c_parser_peek_token (rs_parser st1))) = CPP_OPEN_BRACE
        then st1\<lparr>rs_gen := finish_template (Some tag) t (rs_gen st1)\<rparr> else st1)"

fun local_structs :: "(string \<times> taddr) list \<Rightarrow> rstate \<Rightarrow> rstate" where
  "local_structs [] st = st"
| "local_structs ((tag, t) # ls) st = local_structs ls (struct_definition tag t (at_text (list_text [] CPP_OPEN_BRACE) st))"

fun top_declaration :: "top_decl \<Rightarrow> rstate \<Rightarrow> nat list \<times> rstate" where
  "top_declaration (Top_function fn ps locals) st =
     (case start_function fn (snd (declarator_params True (at_text (list_text ps CPP_OPEN_PAREN) st))) of (template, name, st1) \<Rightarrow>
        (if genericized template then [fn] else [],
         finish_function (local_structs locals st1)))"
| "top_declaration (Top_struct tag ps t) st = ([], struct_definition tag t (at_text (list_text ps CPP_OPEN_BRACE) st))"
| "top_declaration (Top_only_list ps) st = ([], snd (declarator_params True (at_text (list_text ps CPP_OPEN_PAREN) st)))"

fun translation_unit :: "top_decl list \<Rightarrow> rstate \<Rightarrow> nat list \<times> rstate" where
  "translation_unit [] st = ([], st)"
| "translation_unit (d # ds) st =
     (case top_declaration d st of (fs, st1) \<Rightarrow> apfst ((@) fs) (translation_unit ds st1))"

subsection \<open>What the lists do to the scope\<close>

definition enter_scope :: "string list \<Rightarrow> rstate \<Rightarrow> rstate" where
  "enter_scope ps st = (if ps = [] then st else st\<lparr>rs_gen := czet_set_generic_scope (rs_gen st) ps\<rparr>)"

lemma at_text_simps [simp]: "stream (rs_parser (at_text toks st)) = toks" "rs_gen (at_text toks st) = rs_gen st"
  "(at_text toks st)\<lparr>rs_parser := q, rs_gen := g\<rparr> = st\<lparr>rs_parser := q, rs_gen := g\<rparr>" "(at_text toks st)\<lparr>rs_parser := q\<rparr> = st\<lparr>rs_parser := q\<rparr>"
  by (simp_all add: at_text_def stream_def inject_rest_def)

lemma no_list:
  assumes "stream (rs_parser st) = [mk_tok next []]" "next \<noteq> CPP_LESS"
  shows "\<exists>q. declarator_params True st = ([], st\<lparr>rs_parser := q\<rparr>) \<and> struct_tag_params tag st = ([], st\<lparr>rs_parser := q\<rparr>) \<and> stream q = [mk_tok next []]"
  using peek_stream [of "rs_parser st"] assms by (auto simp: declarator_params_def struct_tag_params_def)

lemma declarator_list:
  assumes "next \<noteq> CPP_LESS"
  shows "\<exists>q. snd (declarator_params True (at_text (list_text ps next) st)) = st\<lparr>rs_parser := q, rs_gen := rs_gen (enter_scope ps st)\<rparr>"
proof (cases "ps = []")
  case True
  then have "stream (rs_parser (at_text (list_text ps next) st)) = [mk_tok next []]" by (simp add: list_text_def)
  from no_list [OF this assms] obtain q where "declarator_params True (at_text (list_text ps next) st) = ([], st\<lparr>rs_parser := q\<rparr>)" by auto
  with True show ?thesis by (intro exI [of _ q]) (simp add: enter_scope_def)
next
  case False
  with declarator_params_read [of "at_text (list_text ps next) st" "mk_tok CPP_LESS []" ps "mk_tok CPP_GREATER []" "[mk_tok next []]"]
  show ?thesis by (auto simp: list_text_def enter_scope_def)
qed







definition idle_scope :: "rstate \<Rightarrow> bool" where
  "idle_scope st \<longleftrightarrow> gs_current_parms (rs_gen st) = [] \<and> gs_binding_template (rs_gen st) = None"

lemma finish_plain [simp]: "gs_current_parms g = [] \<Longrightarrow> finish_template ident t g = g"
  by (simp add: finish_template_def split: option.split)








text \<open>
  C34. A parameter list without a definition leaves its scope open: after a generic prototype the next ordinary function
  is taken for a template with the prototype's parameters, and no code is generated for it.
\<close>

theorem prototype_swallows_function:
  assumes "idle_scope st" "ps \<noteq> []"
  shows "\<exists>st'. translation_unit [Top_only_list ps, Top_function fn [] []] st = ([], st') \<and> czet_generic_params (rs_gen st') fn = ps"
proof -
  obtain q where q: "snd (declarator_params True (at_text (list_text ps CPP_OPEN_PAREN) st)) = st\<lparr>rs_parser := q, rs_gen := rs_gen (enter_scope ps st)\<rparr>"
    using declarator_list [of CPP_OPEN_PAREN ps st] by auto
  obtain r where "snd (declarator_params True (at_text (list_text [] CPP_OPEN_PAREN) (st\<lparr>rs_parser := q, rs_gen := rs_gen (enter_scope ps st)\<rparr>)))
      = st\<lparr>rs_parser := r, rs_gen := rs_gen (enter_scope ps st)\<rparr>"
    using declarator_list [of CPP_OPEN_PAREN "[]" "st\<lparr>rs_parser := q, rs_gen := rs_gen (enter_scope ps st)\<rparr>"]
    by (auto simp: enter_scope_def [of "[]"])
  with q assms show ?thesis
    by (simp add: idle_scope_def enter_scope_def start_function_def finish_function_def genericized_def Let_def czet_set_generic_scope_def
        czet_push_generic_fn_def czet_pop_generic_fn_def czet_generic_params_def czet_set_generic_params_def set_params_map_of split: option.split)
qed

text \<open>
  A structure defined inside a generic function ends the scope of the function: it becomes a template itself, and
  the parameters of the function are unknown in the rest of its body.
\<close>

theorem local_struct_ends_scope:
  assumes "idle_scope st" "p \<in> set ps" "gs_bindings (rs_gen st) p = None" "typedefs p = None"
    "start_function fn (enter_scope ps st) = (template, name, st1)" "g = finish_template (Some tag) t (rs_gen st1)"
  shows "template \<and> gs_templates g tag = Some t \<and> (\<exists>a. fst (grok_type_slot G typedefs p (rs_gen st1)) = Some a)
    \<and> grok_type_slot G typedefs p g = (None, g)"
  using assms
  by (auto simp: idle_scope_def enter_scope_def start_function_def finish_template_def grok_type_slot_def czet_param_placeholder_def
      Let_def czet_set_generic_scope_def czet_push_generic_fn_def czet_pop_generic_fn_def czet_set_generic_params_def
      czet_set_type_template_def czet_instantiation_active_def czet_make_type_parm_def alloc_def split: if_splits)

subsection \<open>Examples\<close>

definition int_tok :: c_token where "int_tok = mk_tok CPP_KEYWORD ''int''"

definition example_reader :: type_parser where
  "example_reader st =
     (case c_parser_peek_token (rs_parser st) of (t, ps) \<Rightarrow>
        Some (if tk_type t = CPP_KEYWORD then Some 4 else None, st\<lparr>rs_parser := c_parser_consume_token ps\<rparr>))"

lemma example_reads: "reads example_reader [int_tok] 4"
  unfolding reads_def
proof (intro conjI allI impI)
  fix st :: rstate and c rest
  assume "stream (rs_parser st) = [int_tok] @ c # rest"
  then obtain ps where "c_parser_peek_token (rs_parser st) = (int_tok, ps)" "stream (c_parser_consume_token ps) = c # rest"
    using peek_stream [of "rs_parser st" int_tok "c # rest"] by auto
  then show "\<exists>ps'. example_reader st = Some (Some 4, st\<lparr>rs_parser := ps'\<rparr>) \<and> stream ps' = c # rest"
    by (auto simp: example_reader_def int_tok_def)
qed (simp_all add: int_tok_def)

definition example_input :: "tokens \<Rightarrow> gstate \<Rightarrow> rstate" where
  "example_input toks g = (example_replay [])\<lparr>rs_parser := \<lparr>cp_tokens = [], cp_prelexed = False, cp_probing = False, cp_probe_committed = False,
     cp_probe = [], cp_inject = None, cp_inject_pos = 0, cp_inject_stack = [], cp_lexer = toks, cp_error = False\<rparr>, rs_gen := g\<rparr>"

lemma example_input_simps [simp]: "stream (rs_parser (example_input toks g)) = toks" "rs_gen (example_input toks g) = g"
  by (simp_all add: example_input_def stream_def inject_rest_def)

abbreviation less_tok :: c_token where "less_tok \<equiv> mk_tok CPP_LESS []"
abbreviation greater_tok :: c_token where "greater_tok \<equiv> mk_tok CPP_GREATER []"

theorem generic_call_requests_witness:
  "\<exists>ps'. stream ps' = [mk_tok CPP_OPEN_PAREN []]
    \<and> (let st = example_input [less_tok, int_tok, mk_tok CPP_COMMA [], int_tok, greater_tok, mk_tok CPP_OPEN_PAREN []] example_state in
       generic_call 2 1 example_params example_reader (Some example_function) (st\<lparr>rs_parser := snd (c_parser_peek_token (rs_parser st))\<rparr>)
       = map_option (\<lambda>(d, st'). (Some d, [], st')) (czet_instantiate 1 example_params example_function [4, 4] (st\<lparr>rs_parser := ps'\<rparr>)))"
  using generic_call_requests [where a = "([int_tok], 4)" and args = "[([int_tok], 4)]" and lt = less_tok and gt = greater_tok and n = 2 and m = 1
      and tn = example_reader and G = example_params and templ = example_function and rest = "[mk_tok CPP_OPEN_PAREN []]"
      and st = "example_input [less_tok, int_tok, mk_tok CPP_COMMA [], int_tok, greater_tok, mk_tok CPP_OPEN_PAREN []] example_state"]
    example_reads by (simp add: Let_def)

theorem generic_struct_use_witness:
  "\<exists>ps'. stream ps' = []
    \<and> (let g = finish_template (Some ''pair'') 3 (rs_gen (snd (struct_tag_params ''pair'' (example_input [less_tok, name_tok ''T'', greater_tok] example_state))));
           st = example_input [less_tok, int_tok, greater_tok] g in
       template_use 2 2 example_params example_reader ''pair'' st
       = map_option (\<lambda>(ty, g). (ty, [], st\<lparr>rs_parser := ps', rs_gen := g\<rparr>)) (czet_instantiate_type 2 example_params ''pair'' [4] g))"
proof -
  let ?S = "example_input [less_tok, name_tok ''T'', greater_tok] example_state"
  let ?H = "rs_gen (snd (struct_tag_params ''pair'' ?S))"
  have t: "gs_templates (rs_gen ?S) ''pair'' = None" by (simp add: example_state_def)
  obtain ps1 where "struct_tag_params ''pair'' ?S = ([], ?S\<lparr>rs_parser := ps1, rs_gen := czet_set_generic_scope (rs_gen ?S) [''T'']\<rparr>)"
    using struct_tag_params_read [of ?S less_tok "[''T'']" greater_tok "[]", OF _ _ _ t] by auto
  then have b: "gs_binding_template ?H = None" by (simp add: czet_set_generic_scope_def example_state_def)
  have "stream (rs_parser ?S) = less_tok # commas (map (\<lambda>x. [name_tok x]) [''T'']) @ greater_tok # []"
    "stream (rs_parser (example_input [less_tok, int_tok, greater_tok] (finish_template (Some ''pair'') 3 ?H)))
      = less_tok # commas (map fst [([int_tok], 4 :: taddr)]) @ greater_tok # []" by simp_all
  from generic_struct_use [OF this(1) _ _ _ t refl b _ this(2), of 3 example_reader 2 2 example_params] example_reads
  show ?thesis by (simp add: Let_def del: czet_instantiate_type.simps)
qed

lemma example_box: "map_option fst (czet_instantiate_type 2 example_params ''box'' [4] example_state) = Some (Some 9)"
  by code_simp

theorem nested_closers_left_witness:
  "\<exists>ps' st'. stream ps' = [mk_tok CPP_RSHIFT []]
    \<and> template_use 3 2 example_params example_reader ''box'' (example_input [less_tok, int_tok, mk_tok CPP_RSHIFT []] example_state)
      = Some (Some 9, [], st') \<and> rs_parser st' = ps'"
proof -
  obtain g where "czet_instantiate_type 2 example_params ''box'' [4] example_state = Some (Some 9, g)"
    using example_box by (auto simp del: czet_instantiate_type.simps)
  then show ?thesis
    using nested_closers_left [where a = "([int_tok], 4)" and args = "[]" and lt = less_tok and c = "mk_tok CPP_RSHIFT []" and rest = "[]" and n = 3 and m = 2
        and tn = example_reader and G = example_params and tag = "''box''" and tmpl = 3 and ty = 9 and g = g
        and st = "example_input [less_tok, int_tok, mk_tok CPP_RSHIFT []] example_state"]
      example_reads by (auto simp: example_state_def simp del: czet_instantiate_type.simps)
qed

lemma example_idle: "idle_scope (example_replay [])"
  by (simp add: idle_scope_def example_replay_def example_state_def)


theorem prototype_swallows_function_witness:
  "\<exists>st'. translation_unit [Top_only_list [''T''], Top_function 8 [] []] (example_replay []) = ([], st') \<and> czet_generic_params (rs_gen st') 8 = [''T'']"
  by (rule prototype_swallows_function [OF example_idle]) simp

theorem local_struct_ends_scope_witness:
  "\<exists>st1. start_function 8 (enter_scope [''T''] (example_replay [])) = (True, None, st1)
    \<and> fst (grok_type_slot example_params (\<lambda>_. None) ''T'' (finish_template (Some ''pt'') 3 (rs_gen st1))) = None"
proof -
  obtain template name st1 where s: "start_function 8 (enter_scope [''T''] (example_replay [])) = (template, name, st1)" by (metis prod_cases3)
  then have "name = None" using example_idle by (auto simp: start_function_def enter_scope_def idle_scope_def Let_def czet_set_generic_scope_def split: if_splits)
  moreover have "gs_bindings (rs_gen (example_replay [])) ''T'' = None" by (simp add: example_replay_def example_state_def)
  ultimately show ?thesis
    using local_struct_ends_scope [OF example_idle _ _ _ s refl, where p = "''T''" and typedefs = "\<lambda>_. None"] s by auto
qed

end
