(* ===== verification/Reflect.thy ===== *)
theory Reflect
  imports Save_Memory
begin

text \<open>
  The builtin \<^verbatim>\<open>_Reflect\<close> (c-parser.cc) that turns a type into constant metadata, and the generic
  shortcuts \<^verbatim>\<open>sm_save\<close> and \<^verbatim>\<open>sm_load\<close> of save_memory.h that use it.

  The types of the compiler are a table of nodes that refer to each other by index, so that recursive
  structures are finite.  A node has what the code reads: its code, the name of its main variant, its
  size and alignment in bytes (no size for an incomplete type), its \<^verbatim>\<open>TREE_TYPE\<close>, members with byte
  positions, the number of elements when it is constant, the number of enumerators and the
  argument types.  A missing index is \<^verbatim>\<open>NULL_TREE\<close> or \<^verbatim>\<open>error_mark_node\<close>.  The emitted constants never change, so
  a pointer to one is represented by its value; the state has the statics in the order of emission
  and the counter their names are made of.
\<close>

subsection \<open>Types and metadata\<close>

datatype tcode = VOID_TYPE | INTEGER_TYPE | BOOLEAN_TYPE | BITINT_TYPE | REAL_TYPE | COMPLEX_TYPE | FIXED_POINT_TYPE
  | POINTER_TYPE | REFERENCE_TYPE | NULLPTR_TYPE | OFFSET_TYPE | ARRAY_TYPE | RECORD_TYPE | UNION_TYPE | QUAL_UNION_TYPE
  | ENUMERAL_TYPE | FUNCTION_TYPE | METHOD_TYPE | OTHER_TYPE

datatype tname = TN_none | TN_decl "string option" | TN_ident string

record tnode =
  tn_code :: tcode
  tn_name :: tname
  tn_size :: "nat option"
  tn_align :: nat
  tn_target :: "nat option"
  tn_fields :: "(string option \<times> nat \<times> nat option) list"
  tn_nelts :: "nat option"
  tn_values :: nat
  tn_args :: "nat option list"

type_synonym types = "tnode list"

datatype robj = RObj (ro_kind: nat) (ro_size: nat) (ro_align: nat) (ro_name: string) (ro_count: nat)
  (ro_elem: "robj option") (ro_fields: "(string \<times> nat \<times> robj option) list option")

type_synonym rfields = "(string \<times> nat \<times> robj option) list"

datatype rstatic = RS_obj robj | RS_fields rfields

record reflect_state =
  rx_seq :: u32
  rx_statics :: "(string \<times> rstatic) list"

definition czet_reflect_kind :: "tcode \<Rightarrow> nat" where
  "czet_reflect_kind c =
     (case c of
        VOID_TYPE \<Rightarrow> 1
      | INTEGER_TYPE \<Rightarrow> 2 | BOOLEAN_TYPE \<Rightarrow> 2 | BITINT_TYPE \<Rightarrow> 2
      | REAL_TYPE \<Rightarrow> 3 | COMPLEX_TYPE \<Rightarrow> 3 | FIXED_POINT_TYPE \<Rightarrow> 3
      | POINTER_TYPE \<Rightarrow> 4 | REFERENCE_TYPE \<Rightarrow> 4 | NULLPTR_TYPE \<Rightarrow> 4 | OFFSET_TYPE \<Rightarrow> 4
      | ARRAY_TYPE \<Rightarrow> 5
      | RECORD_TYPE \<Rightarrow> 6
      | UNION_TYPE \<Rightarrow> 7 | QUAL_UNION_TYPE \<Rightarrow> 7
      | ENUMERAL_TYPE \<Rightarrow> 8
      | FUNCTION_TYPE \<Rightarrow> 9 | METHOD_TYPE \<Rightarrow> 9
      | OTHER_TYPE \<Rightarrow> 0)"

definition czet_reflect_name :: "tnode \<Rightarrow> string" where
  "czet_reflect_name n =
     (case tn_name n of TN_none \<Rightarrow> [] | TN_decl None \<Rightarrow> [] | TN_decl (Some s) \<Rightarrow> s | TN_ident s \<Rightarrow> s)"

definition is_record :: "tcode \<Rightarrow> bool" where
  "is_record c \<longleftrightarrow> c = RECORD_TYPE \<or> c = UNION_TYPE \<or> c = QUAL_UNION_TYPE"

definition is_function :: "tcode \<Rightarrow> bool" where
  "is_function c \<longleftrightarrow> c = FUNCTION_TYPE \<or> c = METHOD_TYPE"

definition has_elem :: "tcode \<Rightarrow> bool" where
  "has_elem c \<longleftrightarrow> c = ARRAY_TYPE \<or> c = POINTER_TYPE \<or> c = REFERENCE_TYPE \<or> c = OFFSET_TYPE"

text \<open>The parameters up to the end of the list or a \<^verbatim>\<open>void\<close>.\<close>

definition params :: "types \<Rightarrow> tnode \<Rightarrow> nat list" where
  "params tys n = map the (takeWhile (\<lambda>a. case a of None \<Rightarrow> False | Some t \<Rightarrow> tn_code (tys ! t) \<noteq> VOID_TYPE) (tn_args n))"

definition czet_reflect_count :: "types \<Rightarrow> tnode \<Rightarrow> nat" where
  "czet_reflect_count tys n =
     (if tn_code n = ARRAY_TYPE then
        (if tn_size n = None then 0 else case tn_nelts n of None \<Rightarrow> 0 | Some k \<Rightarrow> k)
      else if is_record (tn_code n) then length (tn_fields n)
      else if tn_code n = ENUMERAL_TYPE then tn_values n
      else if is_function (tn_code n) then length (params tys n)
      else 0)"

definition size_align :: "tnode \<Rightarrow> nat \<times> nat" where
  "size_align n =
     (if tn_code n = VOID_TYPE \<or> is_function (tn_code n) then (0, 1)
      else case tn_size n of None \<Rightarrow> (0, 1) | Some s \<Rightarrow> (s, tn_align n))"

subsection \<open>Emission\<close>

definition czet_reflect_emit_obj :: "robj \<Rightarrow> reflect_state \<Rightarrow> robj \<times> reflect_state" where
  "czet_reflect_emit_obj ob st =
     (ob, st\<lparr>rx_seq := rx_seq st + 1,
             rx_statics := rx_statics st @ [(''__czet_reflect_'' @ show_unsigned (unat (rx_seq st)), RS_obj ob)]\<rparr>)"

definition czet_reflect_emit_array :: "rfields \<Rightarrow> reflect_state \<Rightarrow> rfields \<times> reflect_state" where
  "czet_reflect_emit_array fs st =
     (fs, st\<lparr>rx_seq := rx_seq st + 1,
             rx_statics := rx_statics st @ [(''__czet_fields_'' @ show_unsigned (unat (rx_seq st)), RS_fields fs)]\<rparr>)"

text \<open>The end of \<^verbatim>\<open>czet_reflect_record_fields\<close>, and the object built at the end of \<^verbatim>\<open>czet_reflect_emit_chain\<close>.\<close>

definition emit_fields :: "rfields \<times> reflect_state \<Rightarrow> rfields option \<times> reflect_state" where
  "emit_fields r = (if fst r = [] then (None, snd r) else apfst Some (czet_reflect_emit_array (fst r) (snd r)))"

definition emit_node :: "types \<Rightarrow> tnode \<Rightarrow> robj option \<Rightarrow> rfields option \<times> reflect_state \<Rightarrow> robj option \<times> reflect_state" where
  "emit_node tys n el r =
     apfst Some (czet_reflect_emit_obj
       (RObj (czet_reflect_kind (tn_code n)) (fst (size_align n)) (snd (size_align n)) (czet_reflect_name n)
          (czet_reflect_count tys n) el (fst r)) (snd r))"

text \<open>
  \<^verbatim>\<open>czet_reflect_emit_chain\<close> and the loop of \<^verbatim>\<open>czet_reflect_record_fields\<close>, which call each other.  Chains of
  elements stop beyond depth 8, members are expanded below depth 2.
\<close>

function czet_reflect_emit_chain :: "types \<Rightarrow> nat option \<Rightarrow> nat \<Rightarrow> reflect_state \<Rightarrow> robj option \<times> reflect_state"
  and fields_loop :: "types \<Rightarrow> (string option \<times> nat \<times> nat option) list \<Rightarrow> nat \<Rightarrow> reflect_state \<Rightarrow> rfields \<times> reflect_state"
where
  "czet_reflect_emit_chain tys None depth st = (None, st)"
| "czet_reflect_emit_chain tys (Some t) depth st =
     (if depth > 8 then (None, st)
      else
        let n = tys ! t; code = tn_code n;
            r = (if has_elem code \<or> is_function code then czet_reflect_emit_chain tys (tn_target n) (depth + 1) st else (None, st))
        in emit_node tys n (fst r)
             (if is_record code \<and> depth < 2 \<and> tn_size n \<noteq> None
              then emit_fields (fields_loop tys (tn_fields n) (depth + 1) (snd r)) else (None, snd r)))"
| "fields_loop tys [] depth st = ([], st)"
| "fields_loop tys ((name, off, t) # fs) depth st =
     (let r = czet_reflect_emit_chain tys t depth st
      in apfst ((#) (case name of None \<Rightarrow> [] | Some s \<Rightarrow> s, off, fst r)) (fields_loop tys fs depth (snd r)))"
  by pat_completeness auto
termination
  by (relation "measures [\<lambda>x. case x of Inl (tys, t, d, st) \<Rightarrow> 10 - d | Inr (tys, fs, d, st) \<Rightarrow> 10 - d,
      \<lambda>x. case x of Inl _ \<Rightarrow> 0 | Inr (tys, fs, d, st) \<Rightarrow> Suc (length fs)]") auto

definition czet_reflect_record_fields :: "types \<Rightarrow> tnode \<Rightarrow> nat \<Rightarrow> reflect_state \<Rightarrow> rfields option \<times> reflect_state" where
  "czet_reflect_record_fields tys n depth st = emit_fields (fields_loop tys (tn_fields n) depth st)"

text \<open>The loop over the parameters of a function; the position stands for the offset.\<close>

fun params_loop :: "types \<Rightarrow> nat list \<Rightarrow> nat \<Rightarrow> reflect_state \<Rightarrow> rfields \<times> reflect_state" where
  "params_loop tys [] i st = ([], st)"
| "params_loop tys (a # as) i st =
     (let r = czet_reflect_emit_chain tys (Some a) 0 st
      in apfst ((#) ([], i, fst r)) (params_loop tys as (Suc i) (snd r)))"

subsection \<open>The expression\<close>

text \<open>What the parser finds between the parentheses.\<close>

datatype operand = Op_no_paren | Op_bad | Op_type "nat option" | Op_expr "nat option"

text \<open>The layout of the visible \<^verbatim>\<open>reflect_t\<close>: its own, an old one of three members, another one, or none.\<close>

datatype rlayout = L_full | L_legacy | L_broken | L_missing

datatype rdiag = D_not_initialized | D_broken | D_incomplete nat

datatype rresult = RR_error "rdiag option" | RR_legacy nat nat nat | RR_value robj

text \<open>The typedef that a direct spelling names, and the type that is reflected.\<close>

definition reflect_target :: "types \<Rightarrow> nat \<Rightarrow> (string \<times> nat) option \<Rightarrow> bool \<times> nat" where
  "reflect_target tys t sp =
     (case sp of None \<Rightarrow> (False, t)
      | Some (s, u) \<Rightarrow> if czet_reflect_name (tys ! u) = s then (False, t) else (True, u))"

definition reflectable :: "types \<Rightarrow> nat \<Rightarrow> bool" where
  "reflectable tys u \<longleftrightarrow> tn_code (tys ! u) = VOID_TYPE \<or> is_function (tn_code (tys ! u)) \<or> tn_size (tys ! u) \<noteq> None"

text \<open>The object for a complete type; \<open>td\<close> has the spelling of a typedef.\<close>

definition reflect_object :: "types \<Rightarrow> string option \<Rightarrow> nat \<Rightarrow> reflect_state \<Rightarrow> robj \<times> reflect_state" where
  "reflect_object tys td u st =
     (let n = tys ! u; code = tn_code n;
          r1 = czet_reflect_emit_chain tys
                 (if has_elem code then tn_target n else if td \<noteq> None then Some u
                  else if is_function code then tn_target n else None) 0 st;
          r2 = czet_reflect_record_fields tys n 0 (snd r1);
          r3 = (if is_function code \<and> params tys n \<noteq> [] then emit_fields (params_loop tys (params tys n) 0 (snd r2)) else r2)
      in (RObj (if td \<noteq> None then 10 else czet_reflect_kind code) (fst (size_align n)) (snd (size_align n))
            (case td of Some s \<Rightarrow> s | None \<Rightarrow> czet_reflect_name n)
            (if td \<noteq> None then 0 else czet_reflect_count tys n) (fst r1) (fst r3), snd r3))"

definition reflect_type :: "types \<Rightarrow> rlayout \<Rightarrow> nat \<Rightarrow> (string \<times> nat) option \<Rightarrow> reflect_state \<Rightarrow> rresult \<times> reflect_state" where
  "reflect_type tys lay t sp st =
     (case lay of
        L_missing \<Rightarrow> (RR_error (Some D_not_initialized), st)
      | L_legacy \<Rightarrow>
          (if reflectable tys t
           then RR_legacy (czet_reflect_kind (tn_code (tys ! t))) (fst (size_align (tys ! t))) (snd (size_align (tys ! t)))
           else RR_error (Some (D_incomplete t)), st)
      | L_broken \<Rightarrow> (RR_error (Some D_broken), st)
      | L_full \<Rightarrow>
          (case reflect_target tys t sp of (td, u) \<Rightarrow>
             if reflectable tys u then apfst RR_value (reflect_object tys (if td then map_option fst sp else None) u st)
             else (RR_error (Some (D_incomplete u)), st)))"

text \<open>The whole expression; a spelling counts only when the operand is a type name.\<close>

definition c_parser_czet_reflect_expression ::
  "types \<Rightarrow> rlayout \<Rightarrow> operand \<Rightarrow> (string \<times> nat) option \<Rightarrow> reflect_state \<Rightarrow> rresult \<times> reflect_state" where
  "c_parser_czet_reflect_expression tys lay opnd spelling st =
     (case opnd of
        Op_type (Some t) \<Rightarrow> reflect_type tys lay t spelling st
      | Op_expr (Some t) \<Rightarrow> reflect_type tys lay t None st
      | _ \<Rightarrow> (RR_error None, st))"

subsection \<open>The metadata as a function of the type\<close>

function describe :: "types \<Rightarrow> nat option \<Rightarrow> nat \<Rightarrow> robj option" where
  "describe tys None d = None"
| "describe tys (Some t) d =
     (if 8 < d then None
      else
        let n = tys ! t; code = tn_code n in
        Some (RObj (czet_reflect_kind code) (fst (size_align n)) (snd (size_align n)) (czet_reflect_name n) (czet_reflect_count tys n)
          (if has_elem code \<or> is_function code then describe tys (tn_target n) (d + 1) else None)
          (if is_record code \<and> d < 2 \<and> tn_size n \<noteq> None \<and> tn_fields n \<noteq> []
           then Some (map (\<lambda>(name, off, u). (case name of None \<Rightarrow> [] | Some s \<Rightarrow> s, off, describe tys u (d + 1))) (tn_fields n))
           else None)))"
  by pat_completeness auto
termination
  by (relation "measure (\<lambda>(tys, t, d). 10 - d)") auto

declare czet_reflect_emit_chain.simps(2) [simp del] describe.simps(2) [simp del]

definition describe_fields :: "types \<Rightarrow> (string option \<times> nat \<times> nat option) list \<Rightarrow> nat \<Rightarrow> rfields" where
  "describe_fields tys fs d = map (\<lambda>(name, off, u). (case name of None \<Rightarrow> [] | Some s \<Rightarrow> s, off, describe tys u d)) fs"

lemma describe_fields_simps [simp]:
  "describe_fields tys [] d = []"
  "describe_fields tys ((name, off, u) # fs) d = (case name of None \<Rightarrow> [] | Some s \<Rightarrow> s, off, describe tys u d) # describe_fields tys fs d"
  "describe_fields tys fs d = [] \<longleftrightarrow> fs = []"
  "length (describe_fields tys fs d) = length fs"
  by (simp_all add: describe_fields_def)

lemma emitted [simp]:
  "fst (czet_reflect_emit_obj ob st) = ob" "fst (czet_reflect_emit_array fs st) = fs"
  by (simp_all add: czet_reflect_emit_obj_def czet_reflect_emit_array_def)

text \<open>The emission does not influence the value.\<close>

lemma fst_emit [simp]:
  "fst (emit_fields r) = (if fst r = [] then None else Some (fst r))"
  "fst (emit_node tys n el q) = Some (RObj (czet_reflect_kind (tn_code n)) (fst (size_align n)) (snd (size_align n)) (czet_reflect_name n)
     (czet_reflect_count tys n) el (fst q))"
  by (simp_all add: emit_fields_def emit_node_def)

lemma emit_chain_describe:
  "fst (czet_reflect_emit_chain tys t d st) = describe tys t d"
  "fst (fields_loop tys fs d st) = describe_fields tys fs d"
proof (induction tys t d st and tys fs d st rule: czet_reflect_emit_chain_fields_loop.induct)
  case (2 tys t depth st)
  let ?n = "tys ! t"
  let ?r = "if has_elem (tn_code ?n) \<or> is_function (tn_code ?n) then czet_reflect_emit_chain tys (tn_target ?n) (depth + 1) st else (None, st)"
  show ?case
  proof (cases "8 < depth")
    case False
    from 2(1) [OF False refl refl] have "fst ?r = (if has_elem (tn_code ?n) \<or> is_function (tn_code ?n) then describe tys (tn_target ?n) (depth + 1) else None)"
      by simp
    with 2(2) [OF False refl refl refl] False show ?thesis
      by (simp add: czet_reflect_emit_chain.simps(2) describe.simps(2) Let_def describe_fields_def [symmetric])
  qed (simp add: czet_reflect_emit_chain.simps(2) describe.simps(2))
qed (simp_all add: Let_def czet_reflect_emit_chain.simps)

subsection \<open>The statics\<close>

definition points_at :: "reflect_state \<Rightarrow> robj option \<Rightarrow> bool" where
  "points_at st e \<longleftrightarrow> (case e of None \<Rightarrow> True | Some ob \<Rightarrow> RS_obj ob \<in> snd ` set (rx_statics st))"

definition fields_ok :: "reflect_state \<Rightarrow> rfields \<Rightarrow> bool" where
  "fields_ok st fs \<longleftrightarrow> list_all (\<lambda>(name, off, e). points_at st e) fs"

definition array_ok :: "reflect_state \<Rightarrow> rfields option \<Rightarrow> bool" where
  "array_ok st f \<longleftrightarrow> (case f of None \<Rightarrow> True | Some fs \<Rightarrow> RS_fields fs \<in> snd ` set (rx_statics st))"

definition object_ok :: "reflect_state \<Rightarrow> robj \<Rightarrow> bool" where
  "object_ok st ob \<longleftrightarrow> points_at st (ro_elem ob) \<and> array_ok st (ro_fields ob)"

definition static_label :: "nat \<Rightarrow> rstatic \<Rightarrow> string" where
  "static_label i s =
     (case s of RS_obj _ \<Rightarrow> ''__czet_reflect_'' | RS_fields _ \<Rightarrow> ''__czet_fields_'') @ show_unsigned (unat (of_nat i :: u32))"

text \<open>The statics are numbered in order, and what they point at is a static too.\<close>

definition statics_ok :: "reflect_state \<Rightarrow> bool" where
  "statics_ok st \<longleftrightarrow>
     rx_seq st = of_nat (length (rx_statics st))
     \<and> (\<forall>i < length (rx_statics st). fst (rx_statics st ! i) = static_label i (snd (rx_statics st ! i)))
     \<and> (\<forall>s \<in> snd ` set (rx_statics st). case s of RS_obj ob \<Rightarrow> object_ok st ob | RS_fields fs \<Rightarrow> fields_ok st fs)"

text \<open>\<open>st'\<close> comes from \<open>st\<close> by emitting well-formed statics.\<close>

definition emits :: "reflect_state \<Rightarrow> reflect_state \<Rightarrow> bool" where
  "emits st st' \<longleftrightarrow> (statics_ok st \<longrightarrow> statics_ok st') \<and> set (rx_statics st) \<subseteq> set (rx_statics st')"

lemma emits_refl [simp]: "emits st st"
  by (simp add: emits_def)

lemma emits_trans: "emits a b \<Longrightarrow> emits b c \<Longrightarrow> emits a c"
  by (auto simp: emits_def)

lemma emits_mono:
  assumes "emits st st'"
  shows "points_at st e \<Longrightarrow> points_at st' e" "fields_ok st fs \<Longrightarrow> fields_ok st' fs" "array_ok st f \<Longrightarrow> array_ok st' f"
    "object_ok st ob \<Longrightarrow> object_ok st' ob"
proof -
  have sub: "snd ` set (rx_statics st) \<subseteq> snd ` set (rx_statics st')" using assms by (auto simp: emits_def)
  then have p: "points_at st e \<Longrightarrow> points_at st' e" for e by (auto simp: points_at_def split: option.splits)
  then show "points_at st e \<Longrightarrow> points_at st' e" .
  from p show "fields_ok st fs \<Longrightarrow> fields_ok st' fs" by (auto simp: fields_ok_def list_all_iff)
  from sub have a: "array_ok st f \<Longrightarrow> array_ok st' f" for f by (auto simp: array_ok_def split: option.splits)
  then show "array_ok st f \<Longrightarrow> array_ok st' f" .
  from p a show "object_ok st ob \<Longrightarrow> object_ok st' ob" by (simp add: object_ok_def)
qed

lemma points_at_None [simp]: "points_at st None"
  by (simp add: points_at_def)

lemma array_ok_None [simp]: "array_ok st None"
  by (simp add: array_ok_def)

lemma emits_push:
  assumes "case s of RS_obj ob \<Rightarrow> object_ok st ob | RS_fields fs \<Rightarrow> fields_ok st fs"
  shows "emits st (st\<lparr>rx_seq := rx_seq st + 1,
    rx_statics := rx_statics st @ [((case s of RS_obj _ \<Rightarrow> ''__czet_reflect_'' | RS_fields _ \<Rightarrow> ''__czet_fields_'') @ show_unsigned (unat (rx_seq st)), s)]\<rparr>)"
    (is "emits st ?st'")
proof -
  have sub: "set (rx_statics st) \<subseteq> set (rx_statics ?st')" by auto
  have up: "object_ok st ob \<Longrightarrow> object_ok ?st' ob" "fields_ok st fs \<Longrightarrow> fields_ok ?st' fs" for ob fs
    by (auto simp: object_ok_def points_at_def array_ok_def fields_ok_def list_all_iff split: option.splits)
  have "statics_ok ?st'" if ok: "statics_ok st"
  proof -
    have "fst (rx_statics ?st' ! i) = static_label i (snd (rx_statics ?st' ! i))" if "i < length (rx_statics ?st')" for i
      using ok that by (cases "i = length (rx_statics st)") (auto simp: statics_ok_def nth_append static_label_def)
    moreover have "case t of RS_obj ob \<Rightarrow> object_ok ?st' ob | RS_fields fs \<Rightarrow> fields_ok ?st' fs"
      if "t \<in> snd ` set (rx_statics ?st')" for t
    proof -
      have "case t of RS_obj ob \<Rightarrow> object_ok st ob | RS_fields fs \<Rightarrow> fields_ok st fs"
        using ok that assms by (auto simp: statics_ok_def)
      then show ?thesis using up by (cases t) auto
    qed
    moreover have "rx_seq ?st' = of_nat (length (rx_statics ?st'))" using ok by (simp add: statics_ok_def)
    ultimately show ?thesis unfolding statics_ok_def by blast
  qed
  with sub show ?thesis by (simp add: emits_def)
qed

lemma emit_obj_ok:
  assumes "object_ok st ob"
  shows "emits st (snd (czet_reflect_emit_obj ob st))" "points_at (snd (czet_reflect_emit_obj ob st)) (Some ob)"
  using emits_push [of st "RS_obj ob"] assms by (auto simp: czet_reflect_emit_obj_def points_at_def)

lemma emit_fields_ok:
  assumes "fields_ok (snd r) (fst r)"
  shows "emits (snd r) (snd (emit_fields r))" "array_ok (snd (emit_fields r)) (fst (emit_fields r))"
  using emits_push [of "snd r" "RS_fields (fst r)"] assms
  by (auto simp: emit_fields_def czet_reflect_emit_array_def array_ok_def)

lemma emit_node_ok:
  assumes "points_at (snd r) el" "array_ok (snd r) (fst r)"
  shows "emits (snd r) (snd (emit_node tys n el r))" "points_at (snd (emit_node tys n el r)) (fst (emit_node tys n el r))"
proof -
  let ?ob = "RObj (czet_reflect_kind (tn_code n)) (fst (size_align n)) (snd (size_align n)) (czet_reflect_name n) (czet_reflect_count tys n) el (fst r)"
  have "object_ok (snd r) ?ob" using assms by (simp add: object_ok_def)
  from emit_obj_ok [OF this] show "emits (snd r) (snd (emit_node tys n el r))"
    "points_at (snd (emit_node tys n el r)) (fst (emit_node tys n el r))"
    by (simp_all only: fst_emit) (simp_all add: emit_node_def)
qed

lemma emit_chain_ok:
  "emits st (snd (czet_reflect_emit_chain tys t d st))
    \<and> points_at (snd (czet_reflect_emit_chain tys t d st)) (fst (czet_reflect_emit_chain tys t d st))"
  "emits st (snd (fields_loop tys fs d st)) \<and> fields_ok (snd (fields_loop tys fs d st)) (fst (fields_loop tys fs d st))"
proof (induction tys t d st and tys fs d st rule: czet_reflect_emit_chain_fields_loop.induct)
  case (2 tys t depth st)
  let ?n = "tys ! t"
  let ?r = "if has_elem (tn_code ?n) \<or> is_function (tn_code ?n) then czet_reflect_emit_chain tys (tn_target ?n) (depth + 1) st else (None, st)"
  let ?q = "if is_record (tn_code ?n) \<and> depth < 2 \<and> tn_size ?n \<noteq> None
    then emit_fields (fields_loop tys (tn_fields ?n) (depth + 1) (snd ?r)) else (None, snd ?r)"
  show ?case
  proof (cases "8 < depth")
    case False
    have r: "emits st (snd ?r)" "points_at (snd ?r) (fst ?r)"
      using 2(1) [OF False refl refl] by simp_all
    have q: "emits (snd ?r) (snd ?q) \<and> array_ok (snd ?q) (fst ?q)"
    proof (cases "is_record (tn_code ?n) \<and> depth < 2 \<and> tn_size ?n \<noteq> None")
      case True
      note l = 2(2) [OF False refl refl refl True]
      from emits_trans [OF conjunct1 [OF l] emit_fields_ok(1) [OF conjunct2 [OF l]]] emit_fields_ok(2) [OF conjunct2 [OF l]]
      show ?thesis unfolding if_P [OF True] by (rule conjI)
    next
      case cond: False
      show ?thesis unfolding if_not_P [OF cond] by simp
    qed
    note q1 = conjunct1 [OF q] and q2 = conjunct2 [OF q]
    have "czet_reflect_emit_chain tys (Some t) depth st = emit_node tys ?n (fst ?r) ?q"
      using False by (simp add: czet_reflect_emit_chain.simps(2) Let_def)
    with emit_node_ok [OF emits_mono(1) [OF q1 r(2)] q2, of tys ?n] show ?thesis
      using emits_trans [OF emits_trans [OF r(1) q1]] by (simp only:)
  qed (simp add: czet_reflect_emit_chain.simps(2) points_at_def)
next
  case (4 tys name off t fs depth st)
  let ?r = "czet_reflect_emit_chain tys t depth st"
  from 4(1) have r: "emits st (snd ?r)" "points_at (snd ?r) (fst ?r)" by simp_all
  from 4(2) [OF refl] have l: "emits (snd ?r) (snd (fields_loop tys fs depth (snd ?r)))"
    "fields_ok (snd (fields_loop tys fs depth (snd ?r))) (fst (fields_loop tys fs depth (snd ?r)))" by simp_all
  with emits_mono(1) [OF l(1) r(2)] emits_trans [OF r(1) l(1)] show ?case
    by (simp add: Let_def fields_ok_def)
qed (simp_all add: points_at_def fields_ok_def)

lemma params_loop_ok:
  "emits st (snd (params_loop tys as i st)) \<and> fields_ok (snd (params_loop tys as i st)) (fst (params_loop tys as i st))"
proof (induction as arbitrary: i st)
  case (Cons a as)
  let ?r = "czet_reflect_emit_chain tys (Some a) 0 st"
  let ?l = "params_loop tys as (Suc i) (snd ?r)"
  have r: "emits st (snd ?r)" "points_at (snd ?r) (fst ?r)" using emit_chain_ok(1) [of st tys "Some a" 0] by simp_all
  have l: "emits (snd ?r) (snd ?l)" "fields_ok (snd ?l) (fst ?l)" using Cons [of "snd ?r" "Suc i"] by simp_all
  show ?case
    using emits_trans [OF r(1) l(1)] emits_mono(1) [OF l(1) r(2)] l(2) by (simp add: Let_def fields_ok_def)
qed (simp add: fields_ok_def)

lemma distinct_labels:
  assumes "statics_ok st" "length (rx_statics st) \<le> 2 ^ 32"
  shows "distinct (map fst (rx_statics st))"
proof -
  have "i = j" if "i < length (rx_statics st)" "j < length (rx_statics st)" "static_label i s = static_label j t" for i j s t
  proof -
    have "unat (of_nat i :: u32) = unat (of_nat j :: u32)"
      using that(3) by (auto simp: static_label_def show_unsigned_inject split: rstatic.splits)
    moreover have "unat (of_nat k :: u32) = k" if "k < length (rx_statics st)" for k
      using that assms(2) by (simp add: unat_of_nat take_bit_nat_eq_self)
    ultimately show ?thesis using that by simp
  qed
  then show ?thesis using assms(1) by (auto simp: distinct_conv_nth statics_ok_def)
qed

subsection \<open>What the builtin returns\<close>

definition describe_params :: "types \<Rightarrow> nat list \<Rightarrow> nat \<Rightarrow> rfields" where
  "describe_params tys as i = map (\<lambda>(j, a). ([], j, describe tys (Some a) 0)) (enumerate i as)"

lemma params_loop_describe: "fst (params_loop tys as i st) = describe_params tys as i"
  by (induction as arbitrary: i st) (simp_all add: Let_def describe_params_def emit_chain_describe)

lemma describe_params_empty [simp]: "describe_params tys as i = [] \<longleftrightarrow> as = []"
  by (cases as) (simp_all add: describe_params_def)

text \<open>The object from the type alone.\<close>

definition describe_top :: "types \<Rightarrow> string option \<Rightarrow> nat \<Rightarrow> robj" where
  "describe_top tys td u =
     (let n = tys ! u; code = tn_code n in
      RObj (if td \<noteq> None then 10 else czet_reflect_kind code) (fst (size_align n)) (snd (size_align n))
        (case td of Some s \<Rightarrow> s | None \<Rightarrow> czet_reflect_name n) (if td \<noteq> None then 0 else czet_reflect_count tys n)
        (describe tys (if has_elem code then tn_target n else if td \<noteq> None then Some u
                       else if is_function code then tn_target n else None) 0)
        (if is_function code \<and> params tys n \<noteq> [] then Some (describe_params tys (params tys n) 0)
         else if tn_fields n = [] then None else Some (describe_fields tys (tn_fields n) 0)))"

lemma reflect_object_value: "fst (reflect_object tys td u st) = describe_top tys td u"
  by (simp add: reflect_object_def describe_top_def Let_def emit_chain_describe params_loop_describe czet_reflect_record_fields_def)

lemma record_fields_ok:
  "emits st (snd (czet_reflect_record_fields tys n d st))"
  "array_ok (snd (czet_reflect_record_fields tys n d st)) (fst (czet_reflect_record_fields tys n d st))"
  unfolding czet_reflect_record_fields_def
  using emit_chain_ok(2) [of st tys "tn_fields n" d] emit_fields_ok [of "fields_loop tys (tn_fields n) d st"] emits_trans
  by (simp_all del: fst_emit) blast

lemma reflect_object_ok:
  "emits st (snd (reflect_object tys td u st))"
  "object_ok (snd (reflect_object tys td u st)) (fst (reflect_object tys td u st))"
proof -
  let ?n = "tys ! u"
  let ?t = "if has_elem (tn_code ?n) then tn_target ?n else if td \<noteq> None then Some u else if is_function (tn_code ?n) then tn_target ?n else None"
  let ?r1 = "czet_reflect_emit_chain tys ?t 0 st"
  let ?r2 = "czet_reflect_record_fields tys ?n 0 (snd ?r1)"
  let ?l = "params_loop tys (params tys ?n) 0 (snd ?r2)"
  let ?r3 = "if is_function (tn_code ?n) \<and> params tys ?n \<noteq> [] then emit_fields ?l else ?r2"
  note r1 = emit_chain_ok(1) [of st tys ?t 0]
  note r2 = record_fields_ok [where st = "snd ?r1" and tys = tys and n = ?n and d = 0]
  note l = params_loop_ok [of "snd ?r2" tys "params tys ?n" 0]
  have "emits (snd ?r2) (snd (emit_fields ?l))"
    using emits_trans [OF conjunct1 [OF l] emit_fields_ok(1) [OF conjunct2 [OF l]]] .
  then have r3: "emits (snd ?r2) (snd ?r3)" "array_ok (snd ?r3) (fst ?r3)"
    using r2 emit_fields_ok(2) [OF conjunct2 [OF l]] by (simp_all del: fst_emit)
  have e: "emits (snd ?r1) (snd ?r3)" using emits_trans [OF r2(1) r3(1)] .
  have "snd (reflect_object tys td u st) = snd ?r3" "ro_elem (fst (reflect_object tys td u st)) = fst ?r1"
    "ro_fields (fst (reflect_object tys td u st)) = fst ?r3"
    by (simp_all add: reflect_object_def Let_def)
  then show "emits st (snd (reflect_object tys td u st))"
    "object_ok (snd (reflect_object tys td u st)) (fst (reflect_object tys td u st))"
    unfolding object_ok_def using emits_trans [OF conjunct1 [OF r1] e] emits_mono(1) [OF e conjunct2 [OF r1]] r3(2)
    by (simp_all only:)
qed

text \<open>The run of the builtin, with the value built by the emission and the statics it leaves.\<close>

lemma reflect_run:
  assumes "statics_ok st" "opnd = Op_type (Some t) \<and> sp = spelling \<or> opnd = Op_expr (Some t) \<and> sp = None"
    "reflect_target tys t sp = (td, u)"
  shows "\<exists>st'. c_parser_czet_reflect_expression tys L_full opnd spelling st
      = (if reflectable tys u then RR_value (describe_top tys (if td then map_option fst sp else None) u)
         else RR_error (Some (D_incomplete u)), st')
    \<and> statics_ok st' \<and> set (rx_statics st) \<subseteq> set (rx_statics st')
    \<and> (reflectable tys u \<longrightarrow> object_ok st' (describe_top tys (if td then map_option fst sp else None) u))
    \<and> (length (rx_statics st') \<le> 2 ^ 32 \<longrightarrow> distinct (map fst (rx_statics st')))"
proof -
  let ?td = "if td then map_option fst sp else None"
  let ?st = "if reflectable tys u then snd (reflect_object tys ?td u st) else st"
  have "c_parser_czet_reflect_expression tys L_full opnd spelling st = reflect_type tys L_full t sp st"
    using assms(2) by (auto simp: c_parser_czet_reflect_expression_def)
  also have "\<dots> = (if reflectable tys u then RR_value (describe_top tys ?td u) else RR_error (Some (D_incomplete u)), ?st)"
    using assms(3) reflect_object_value [of tys ?td u st]
    by (cases "reflect_object tys ?td u st") (simp add: reflect_type_def)
  finally have run: "c_parser_czet_reflect_expression tys L_full opnd spelling st
    = (if reflectable tys u then RR_value (describe_top tys ?td u) else RR_error (Some (D_incomplete u)), ?st)" .
  have "emits st ?st" using reflect_object_ok(1) by simp
  with assms(1) have "statics_ok ?st" "set (rx_statics st) \<subseteq> set (rx_statics ?st)" by (simp_all add: emits_def)
  moreover have "reflectable tys u \<longrightarrow> object_ok ?st (describe_top tys ?td u)"
    using reflect_object_ok(2) [where tys = tys and td = ?td and u = u and st = st] by (simp add: reflect_object_value)
  ultimately show ?thesis using run distinct_labels by blast
qed

subsection \<open>What a program finds in the metadata\<close>

text \<open>
  A program follows \<^verbatim>\<open>elem\<close> and \<^verbatim>\<open>fields[i].type\<close> from the value; the same steps lead from the type to the
  element, pointee or return type and to the type of a member, or at the top of a parameter.
\<close>

datatype sel = Elem | Member nat

fun obj_step :: "robj \<Rightarrow> sel \<Rightarrow> robj option" where
  "obj_step ob Elem = ro_elem ob"
| "obj_step ob (Member i) =
     (case ro_fields ob of None \<Rightarrow> None | Some fs \<Rightarrow> if i < length fs then snd (snd (fs ! i)) else None)"

fun obj_path :: "robj \<Rightarrow> sel list \<Rightarrow> robj option" where
  "obj_path ob [] = Some ob"
| "obj_path ob (s # p) = (case obj_step ob s of None \<Rightarrow> None | Some ob' \<Rightarrow> obj_path ob' p)"

fun type_step :: "types \<Rightarrow> bool \<Rightarrow> nat \<Rightarrow> sel \<Rightarrow> nat option" where
  "type_step tys root t Elem =
     (if tn_code (tys ! t) \<in> {ARRAY_TYPE, POINTER_TYPE, REFERENCE_TYPE, OFFSET_TYPE, FUNCTION_TYPE, METHOD_TYPE}
      then tn_target (tys ! t) else None)"
| "type_step tys root t (Member i) =
     (if tn_code (tys ! t) \<in> {RECORD_TYPE, UNION_TYPE, QUAL_UNION_TYPE} \<and> tn_size (tys ! t) \<noteq> None \<and> i < length (tn_fields (tys ! t))
      then snd (snd (tn_fields (tys ! t) ! i))
      else if root \<and> tn_code (tys ! t) \<in> {FUNCTION_TYPE, METHOD_TYPE} \<and> i < length (params tys (tys ! t))
      then Some (params tys (tys ! t) ! i) else None)"

fun type_path :: "types \<Rightarrow> bool \<Rightarrow> nat \<Rightarrow> sel list \<Rightarrow> nat option" where
  "type_path tys root t [] = Some t"
| "type_path tys root t (s # p) = (case type_step tys root t s of None \<Rightarrow> None | Some u \<Rightarrow> type_path tys False u p)"

text \<open>How far the metadata reaches: nine steps, members in the first three of them.\<close>

definition in_depth :: "sel list \<Rightarrow> bool" where
  "in_depth p \<longleftrightarrow> length p \<le> 9 \<and> (\<forall>i < length p. p ! i \<noteq> Elem \<longrightarrow> i \<le> 2)"

definition guide_kinds :: "(nat \<times> tcode list) list" where
  "guide_kinds = [(0, [OTHER_TYPE]), (1, [VOID_TYPE]), (2, [INTEGER_TYPE, BOOLEAN_TYPE, BITINT_TYPE]),
     (3, [REAL_TYPE, COMPLEX_TYPE, FIXED_POINT_TYPE]), (4, [POINTER_TYPE, REFERENCE_TYPE, NULLPTR_TYPE, OFFSET_TYPE]),
     (5, [ARRAY_TYPE]), (6, [RECORD_TYPE]), (7, [UNION_TYPE, QUAL_UNION_TYPE]), (8, [ENUMERAL_TYPE]), (9, [FUNCTION_TYPE, METHOD_TYPE])]"

text \<open>The members of \<^verbatim>\<open>reflect_t\<close> for a type, as the guide describes them.\<close>

definition documented :: "types \<Rightarrow> nat \<Rightarrow> robj \<Rightarrow> bool" where
  "documented tys u ob \<longleftrightarrow> (let n = tys ! u; c = tn_code n; no_object = (c \<in> {VOID_TYPE, FUNCTION_TYPE, METHOD_TYPE}) in
     (\<exists>cs. (ro_kind ob, cs) \<in> set guide_kinds \<and> c \<in> set cs)
     \<and> (no_object \<or> tn_size n = None \<longrightarrow> ro_size ob = 0 \<and> ro_align ob = 1)
     \<and> (\<forall>b. \<not> no_object \<and> tn_size n = Some b \<longrightarrow> ro_size ob = b \<and> ro_align ob = tn_align n)
     \<and> (\<forall>s. tn_name n \<in> {TN_ident s, TN_decl (Some s)} \<longrightarrow> ro_name ob = s)
     \<and> (tn_name n \<in> {TN_none, TN_decl None} \<longrightarrow> ro_name ob = [])
     \<and> (c = ARRAY_TYPE \<and> tn_size n \<noteq> None \<longrightarrow> (case tn_nelts n of None \<Rightarrow> ro_count ob = 0 | Some k \<Rightarrow> ro_count ob = k))
     \<and> (c \<in> {RECORD_TYPE, UNION_TYPE, QUAL_UNION_TYPE} \<longrightarrow> ro_count ob = length (tn_fields n))
     \<and> (c = ENUMERAL_TYPE \<longrightarrow> ro_count ob = tn_values n)
     \<and> (c \<in> {FUNCTION_TYPE, METHOD_TYPE} \<longrightarrow> ro_count ob = length (params tys n))
     \<and> (c \<notin> {ARRAY_TYPE, RECORD_TYPE, UNION_TYPE, QUAL_UNION_TYPE, ENUMERAL_TYPE, FUNCTION_TYPE, METHOD_TYPE} \<longrightarrow> ro_count ob = 0)
     \<and> (\<forall>fs. ro_fields ob = Some fs \<longrightarrow> length fs = ro_count ob \<and>
          (\<forall>i < length fs. if c \<in> {FUNCTION_TYPE, METHOD_TYPE} then fst (fs ! i) = [] \<and> fst (snd (fs ! i)) = i
             else (case fst (tn_fields n ! i) of None \<Rightarrow> fst (fs ! i) = [] | Some s \<Rightarrow> fst (fs ! i) = s)
               \<and> fst (snd (fs ! i)) = fst (snd (tn_fields n ! i)))))"

lemma documented_node:
  assumes "\<forall>fs. flds = Some fs \<longrightarrow>
      (if is_function (tn_code (tys ! u)) then map (\<lambda>f. (fst f, fst (snd f))) fs = map (Pair []) [0..<length (params tys (tys ! u))]
       else is_record (tn_code (tys ! u)) \<and> map (\<lambda>f. (fst f, fst (snd f))) fs
         = map (\<lambda>f. (case fst f of None \<Rightarrow> [] | Some s \<Rightarrow> s, fst (snd f))) (tn_fields (tys ! u)))"
  shows "documented tys u (RObj (czet_reflect_kind (tn_code (tys ! u))) (fst (size_align (tys ! u))) (snd (size_align (tys ! u)))
    (czet_reflect_name (tys ! u)) (czet_reflect_count tys (tys ! u)) el flds)"
proof -
  let ?n = "tys ! u"
  have kind: "\<exists>cs. (czet_reflect_kind (tn_code ?n), cs) \<in> set guide_kinds \<and> tn_code ?n \<in> set cs"
    by (cases "tn_code ?n") (auto simp: czet_reflect_kind_def guide_kinds_def)
  have flds: "length fs = czet_reflect_count tys ?n \<and>
      (\<forall>i < length fs. if tn_code ?n \<in> {FUNCTION_TYPE, METHOD_TYPE} then fst (fs ! i) = [] \<and> fst (snd (fs ! i)) = i
         else (case fst (tn_fields ?n ! i) of None \<Rightarrow> fst (fs ! i) = [] | Some s \<Rightarrow> fst (fs ! i) = s)
           \<and> fst (snd (fs ! i)) = fst (snd (tn_fields ?n ! i)))" if "flds = Some fs" for fs
  proof (cases "is_function (tn_code ?n)")
    case True
    with assms that have m: "map (\<lambda>f. (fst f, fst (snd f))) fs = map (Pair []) [0..<length (params tys ?n)]" by simp
    have l: "length fs = length (params tys ?n)" using arg_cong [OF m, of length] by simp
    have i: "fst (fs ! i) = [] \<and> fst (snd (fs ! i)) = i" if "i < length fs" for i
      using that l arg_cong [OF m, of "\<lambda>xs. xs ! i"] by simp
    have "tn_code ?n \<in> {FUNCTION_TYPE, METHOD_TYPE}" "czet_reflect_count tys ?n = length (params tys ?n)"
      using True by (auto simp: czet_reflect_count_def is_function_def is_record_def)
    with l i show ?thesis by simp
  next
    case False
    with assms that have r: "is_record (tn_code ?n)" and m: "map (\<lambda>f. (fst f, fst (snd f))) fs
      = map (\<lambda>f. (case fst f of None \<Rightarrow> [] | Some s \<Rightarrow> s, fst (snd f))) (tn_fields ?n)" by simp_all
    have l: "length fs = length (tn_fields ?n)" using arg_cong [OF m, of length] by simp
    with m have "\<forall>i < length fs. fst (fs ! i) = (case fst (tn_fields ?n ! i) of None \<Rightarrow> [] | Some s \<Rightarrow> s)
        \<and> fst (snd (fs ! i)) = fst (snd (tn_fields ?n ! i))"
      by (auto simp: list_eq_iff_nth_eq)
    with l r False show ?thesis
      by (auto simp: czet_reflect_count_def is_record_def is_function_def split: option.splits)
  qed
  show ?thesis
    unfolding documented_def Let_def robj.sel
  proof (intro conjI)
    show "\<forall>fs. flds = Some fs \<longrightarrow> length fs = czet_reflect_count tys ?n \<and>
      (\<forall>i < length fs. if tn_code ?n \<in> {FUNCTION_TYPE, METHOD_TYPE} then fst (fs ! i) = [] \<and> fst (snd (fs ! i)) = i
         else (case fst (tn_fields ?n ! i) of None \<Rightarrow> fst (fs ! i) = [] | Some s \<Rightarrow> fst (fs ! i) = s)
           \<and> fst (snd (fs ! i)) = fst (snd (tn_fields ?n ! i)))"
      using flds by blast
  qed (use kind in \<open>auto simp: size_align_def czet_reflect_name_def czet_reflect_count_def is_record_def is_function_def split: option.splits\<close>)
qed

lemma describe_some:
  "d \<le> 8 \<Longrightarrow> \<exists>ob. describe tys (Some u) d = Some ob \<and> ro_size ob = fst (size_align (tys ! u))"
  by (simp add: describe.simps(2) Let_def)

lemma describe_documented: "describe tys (Some u) d = Some ob \<Longrightarrow> documented tys u ob"
  by (auto simp: describe.simps(2) Let_def is_record_def is_function_def intro!: documented_node split: if_splits)

lemma describe_step:
  assumes "describe tys (Some t) d = Some ob"
  shows "obj_step ob s = (if s = Elem \<or> d < 2 then (case type_step tys False t s of None \<Rightarrow> None | Some u \<Rightarrow> describe tys (Some u) (d + 1)) else None)"
proof (cases s)
  case Elem
  have "tn_code (tys ! t) \<in> {ARRAY_TYPE, POINTER_TYPE, REFERENCE_TYPE, OFFSET_TYPE, FUNCTION_TYPE, METHOD_TYPE}
      \<longleftrightarrow> has_elem (tn_code (tys ! t)) \<or> is_function (tn_code (tys ! t))"
    by (auto simp: has_elem_def is_function_def)
  then show ?thesis
    using assms Elem by (auto simp: describe.simps(2) [of tys t d] Let_def split: if_splits option.split)
next
  case (Member i)
  have "tn_code (tys ! t) \<in> {RECORD_TYPE, UNION_TYPE, QUAL_UNION_TYPE} \<longleftrightarrow> is_record (tn_code (tys ! t))"
    by (auto simp: is_record_def)
  then show ?thesis
    using assms Member by (auto simp: describe.simps(2) [of tys t d] Let_def case_prod_unfold split: if_splits option.split)
qed

text \<open>The objects below a nested one are those of the types the path leads to.\<close>

fun reach :: "nat \<Rightarrow> sel list \<Rightarrow> bool" where
  "reach d [] \<longleftrightarrow> d \<le> 8"
| "reach d (s # p) \<longleftrightarrow> (s = Elem \<or> d < 2) \<and> reach (Suc d) p"

lemma reach_iff: "reach d p \<longleftrightarrow> d + length p \<le> 8 \<and> (\<forall>i < length p. p ! i \<noteq> Elem \<longrightarrow> d + i < 2)"
proof (induction p arbitrary: d)
  case (Cons s p)
  show ?case
    unfolding reach.simps Cons.IH by (auto simp: less_Suc_eq_0_disj)
qed simp

lemma in_depth_Cons: "in_depth (s # p) \<longleftrightarrow> reach 0 p"
  unfolding reach_iff in_depth_def by (auto simp: less_Suc_eq_0_disj)

lemma describe_path:
  assumes "describe tys (Some t) d = Some ob"
  shows "obj_path ob p =
    (if reach d p then (case type_path tys False t p of None \<Rightarrow> None | Some u \<Rightarrow> describe tys (Some u) (d + length p)) else None)"
  using assms
proof (induction p arbitrary: t d ob)
  case Nil
  then have "d \<le> 8" by (simp add: describe.simps(2) split: if_splits)
  with Nil show ?case by simp
next
  case (Cons s p)
  show ?case
  proof (cases "obj_step ob s")
    case None
    have "describe tys (Some u) (d + 1) = None \<Longrightarrow> \<not> reach (Suc d) p" for u
      by (auto simp: describe.simps(2) Let_def reach_iff split: if_splits)
    with None describe_step [OF Cons.prems, of s] show ?thesis by (auto split: option.splits if_splits)
  next
    case (Some ob')
    then obtain u where u: "s = Elem \<or> d < 2" "type_step tys False t s = Some u" "describe tys (Some u) (Suc d) = Some ob'"
      using describe_step [OF Cons.prems, of s] by (auto split: if_splits option.splits)
    from Cons.IH [OF u(3)] Some u(1,2) show ?thesis by (simp split: option.split)
  qed
qed

lemma describe_top_step:
  assumes "is_record (tn_code (tys ! t)) \<or> tn_fields (tys ! t) = []" "reflectable tys t"
  shows "obj_step (describe_top tys None t) s = (case type_step tys True t s of None \<Rightarrow> None | Some u \<Rightarrow> describe tys (Some u) 0)"
proof (cases s)
  case Elem
  show ?thesis
    using Elem by (auto simp: describe_top_def Let_def has_elem_def is_function_def split: option.split)
next
  case (Member i)
  show ?thesis
    using Member assms
    by (auto simp: describe_top_def Let_def describe_fields_def describe_params_def is_record_def is_function_def reflectable_def
        case_prod_unfold nth_enumerate_eq split: option.split)
qed

lemma describe_top_path:
  assumes "is_record (tn_code (tys ! t)) \<or> tn_fields (tys ! t) = []" "reflectable tys t"
  shows "obj_path (describe_top tys None t) p \<noteq> None \<longleftrightarrow> type_path tys True t p \<noteq> None \<and> in_depth p"
    and "obj_path (describe_top tys None t) p = Some ob' \<Longrightarrow> type_path tys True t p = Some u \<Longrightarrow> documented tys u ob'"
proof -
  have at_root: "documented tys t (describe_top tys None t)"
  proof -
    let ?n = "tys ! t"
    let ?f = "if is_function (tn_code ?n) \<and> params tys ?n \<noteq> [] then Some (describe_params tys (params tys ?n) 0)
      else if tn_fields ?n = [] then None else Some (describe_fields tys (tn_fields ?n) 0)"
    have pm: "map (\<lambda>f. (fst f, fst (snd f))) (describe_params tys as 0) = map (Pair []) [0..<length as]" for as
      by (rule nth_equalityI) (simp_all add: describe_params_def nth_enumerate_eq case_prod_unfold)
    have fm: "map (\<lambda>f. (fst f, fst (snd f))) (describe_fields tys fs 0) = map (\<lambda>f. (case fst f of None \<Rightarrow> [] | Some s \<Rightarrow> s, fst (snd f))) fs" for fs
      by (simp add: describe_fields_def case_prod_unfold)
    have fr: "\<not> (is_function c \<and> is_record c)" for c by (cases c) (auto simp: is_function_def is_record_def)
    have "documented tys t (RObj (czet_reflect_kind (tn_code ?n)) (fst (size_align ?n)) (snd (size_align ?n))
      (czet_reflect_name ?n) (czet_reflect_count tys ?n) (ro_elem (describe_top tys None t)) ?f)"
      using assms(1) pm fm fr by (intro documented_node) (auto split: if_splits)
    then show ?thesis by (simp add: describe_top_def Let_def)
  qed
  have nested: "obj_path (describe_top tys None t) (s # q) =
    (if in_depth (s # q) then (case type_path tys True t (s # q) of None \<Rightarrow> None | Some u \<Rightarrow> describe tys (Some u) (length q)) else None)" for s q
  proof (cases "type_step tys True t s")
    case None
    then show ?thesis using describe_top_step [OF assms, of s] by simp
  next
    case (Some v)
    obtain ob where ob: "describe tys (Some v) 0 = Some ob" using describe_some [of 0 tys v] by auto
    from describe_path [OF ob, of q] Some ob describe_top_step [OF assms, of s] show ?thesis by (simp add: in_depth_Cons split: option.split)
  qed
  show "obj_path (describe_top tys None t) p \<noteq> None \<longleftrightarrow> type_path tys True t p \<noteq> None \<and> in_depth p"
  proof (cases p)
    case (Cons s q)
    have "describe tys (Some u) (length q) \<noteq> None" if "in_depth p" for u
      using that describe_some [of "length q" tys u] Cons by (auto simp: in_depth_def)
    then show ?thesis unfolding Cons nested by (auto split: option.splits)
  qed (simp add: in_depth_def)
  show "documented tys u ob'" if "obj_path (describe_top tys None t) p = Some ob'" "type_path tys True t p = Some u"
  proof (cases p)
    case Nil
    with that at_root show ?thesis by simp
  next
    case (Cons s q)
    with that nested [of s q] show ?thesis by (auto split: if_splits option.splits intro: describe_documented)
  qed
qed

text \<open>
  C7. On a complete type that is not spelled by a typedef the builtin returns metadata in which \<^verbatim>\<open>elem\<close> and \<^verbatim>\<open>fields[i].type\<close>
  can be followed exactly as far as the type goes, for at most nine steps and through members in the first three (the limits of
  \<^verbatim>\<open>czet_reflect_emit_chain\<close>), and every object reached has the kind, size, alignment, name, count and member list that the guide
  gives for the type at that place.  An incomplete type is an error.  Every pointer of the value and of the emitted constants leads to
  an emitted constant, no earlier one is lost, and their names are different while there are at most \<open>2 ^ 32\<close>.
\<close>

theorem reflect_documented:
  assumes "is_record (tn_code (tys ! t)) \<or> tn_fields (tys ! t) = []" "statics_ok st" "reflect_target tys t sp = (False, t)"
    and "opnd = Op_type (Some t) \<and> sp = spelling \<or> opnd = Op_expr (Some t) \<and> sp = None"
  shows "if reflectable tys t
    then \<exists>ob st'. c_parser_czet_reflect_expression tys L_full opnd spelling st = (RR_value ob, st')
      \<and> (\<forall>p. obj_path ob p \<noteq> None \<longleftrightarrow> type_path tys True t p \<noteq> None \<and> in_depth p)
      \<and> (\<forall>p ob' u. obj_path ob p = Some ob' \<longrightarrow> type_path tys True t p = Some u \<longrightarrow> documented tys u ob')
      \<and> statics_ok st' \<and> object_ok st' ob \<and> set (rx_statics st) \<subseteq> set (rx_statics st')
      \<and> (length (rx_statics st') \<le> 2 ^ 32 \<longrightarrow> distinct (map fst (rx_statics st')))
    else c_parser_czet_reflect_expression tys L_full opnd spelling st = (RR_error (Some (D_incomplete t)), st)"
proof (cases "reflectable tys t")
  case True
  from reflect_run [OF assms(2,4,3)] True obtain st' where
    "c_parser_czet_reflect_expression tys L_full opnd spelling st = (RR_value (describe_top tys None t), st')"
    "statics_ok st'" "object_ok st' (describe_top tys None t)" "set (rx_statics st) \<subseteq> set (rx_statics st')"
    "length (rx_statics st') \<le> 2 ^ 32 \<longrightarrow> distinct (map fst (rx_statics st'))" by auto
  with True describe_top_path [OF assms(1) True] show ?thesis by auto
next
  case False
  then show ?thesis
    using assms(3,4) by (auto simp: c_parser_czet_reflect_expression_def reflect_type_def)
qed

subsection \<open>Saving and loading with reflection\<close>

text \<open>The members of the metadata that \<^verbatim>\<open>save_memory.h\<close> reads.\<close>

fun sm_of :: "robj \<Rightarrow> reflect_t" where
  "sm_of (RObj k sz al nm c el fs) =
     Reflect k sz c (map_option sm_of el) (map_option (map (\<lambda>(n, off, t). (map_option sm_of t, off))) fs)"

text \<open>\<^verbatim>\<open>sm_save<T> (f, v)\<close> and \<^verbatim>\<open>sm_load<T> (f, v)\<close> for the type \<open>t\<close>; \<open>None\<close> is a program that does not compile.\<close>

definition sm_save :: "types \<Rightarrow> nat \<Rightarrow> bool \<Rightarrow> (nat \<Rightarrow> bool) \<Rightarrow> u8 list \<Rightarrow> wfile option \<Rightarrow> nat option \<Rightarrow> (int \<times> wfile option) option" where
  "sm_save tys t le malloc mem f v =
     (case fst (c_parser_czet_reflect_expression tys L_full (Op_expr (Some t)) None \<lparr>rx_seq = 0, rx_statics = []\<rparr>) of
        RR_value r \<Rightarrow>
          Some (case (f, v) of
                  (Some w, Some p) \<Rightarrow> apsnd Some (sm_write_value le malloc mem p (sm_of r) w)
                | _ \<Rightarrow> (-1, f))
      | _ \<Rightarrow> None)"

definition sm_load :: "types \<Rightarrow> nat \<Rightarrow> bool \<Rightarrow> u8 list \<Rightarrow> u8 list option \<Rightarrow> nat option \<Rightarrow> (int \<times> u8 list \<times> u8 list option) option" where
  "sm_load tys t le mem f v =
     (case fst (c_parser_czet_reflect_expression tys L_full (Op_expr (Some t)) None \<lparr>rx_seq = 0, rx_statics = []\<rparr>) of
        RR_value r \<Rightarrow>
          Some (case (f, v) of
                  (Some s, Some p) \<Rightarrow> (case sm_read_value le p (sm_of r) (mem, s) of (rc, mem', s') \<Rightarrow> (rc, mem', Some s'))
                | _ \<Rightarrow> (-1, mem, f))
      | _ \<Rightarrow> None)"

text \<open>
  Plain data within the depth the metadata has: no pointers, functions or \<^verbatim>\<open>void\<close>; of a union the first
  member of the largest size counts.
\<close>

fun largest_member :: "types \<Rightarrow> (string option \<times> nat \<times> nat option) list \<Rightarrow> nat \<Rightarrow> nat option \<Rightarrow> nat option" where
  "largest_member tys [] best cur = cur"
| "largest_member tys ((_, _, None) # fs) best cur = largest_member tys fs best cur"
| "largest_member tys ((_, _, Some u) # fs) best cur =
     (if best < fst (size_align (tys ! u)) then largest_member tys fs (fst (size_align (tys ! u))) (Some u)
      else largest_member tys fs best cur)"

definition plain_node :: "types \<Rightarrow> tnode \<Rightarrow> bool \<Rightarrow> bool \<Rightarrow> (nat option \<Rightarrow> bool) \<Rightarrow> bool" where
  "plain_node tys n elems members sub \<longleftrightarrow>
     (if czet_reflect_kind (tn_code n) \<in> {2, 3, 8} then True
      else if tn_code n = ARRAY_TYPE
      then elems \<and> (case tn_target n of None \<Rightarrow> False | Some e \<Rightarrow> fst (size_align (tys ! e)) \<noteq> 0)
           \<and> (czet_reflect_count tys n = 0 \<or> sub (tn_target n))
      else if tn_code n = RECORD_TYPE then tn_fields n = [] \<or> members \<and> list_all (\<lambda>(_, _, u). sub u) (tn_fields n)
      else if is_record (tn_code n)
      then tn_fields n = [] \<or> members \<and> (case largest_member tys (tn_fields n) 0 None of None \<Rightarrow> True | Some u \<Rightarrow> sub (Some u))
      else False)"

function plain :: "types \<Rightarrow> nat \<Rightarrow> nat option \<Rightarrow> bool" where
  "plain tys d None = False"
| "plain tys d (Some t) =
     (if d \<le> 8 then plain_node tys (tys ! t) (d < 8) (d < 2 \<and> tn_size (tys ! t) \<noteq> None) (\<lambda>u. plain tys (d + 1) u) else False)"
  by pat_completeness auto
termination
  by (relation "measure (\<lambda>(tys, d, t). 10 - d)") auto

declare plain.simps(2) [simp del]

definition plain_type :: "types \<Rightarrow> nat \<Rightarrow> bool" where
  "plain_type tys t \<longleftrightarrow> tn_size (tys ! t) \<noteq> None \<and> plain_node tys (tys ! t) True True (plain tys 0)"

lemma rf_size_sm_of [simp]: "rf_size (sm_of ob) = ro_size ob"
  by (cases ob) simp

lemma largest_describe:
  assumes "\<And>u. \<exists>ob. D (Some u) = Some ob \<and> ro_size ob = fst (size_align (tys ! u))" "D None = None"
    "case cur of None \<Rightarrow> cur' = None | Some (r, off) \<Rightarrow> \<exists>u ob. cur' = Some u \<and> D (Some u) = Some ob \<and> r = sm_of ob"
  shows "case largest (map (\<lambda>(nm, off, u). (map_option sm_of (D u), off)) fs) best cur of
      None \<Rightarrow> largest_member tys fs best cur' = None
    | Some (r, off) \<Rightarrow> \<exists>u ob. largest_member tys fs best cur' = Some u \<and> D (Some u) = Some ob \<and> r = sm_of ob"
  using assms(3)
proof (induction fs arbitrary: best cur cur')
  case Nil
  then show ?case by (auto split: option.splits)
next
  case (Cons f fs)
  obtain nm off u where f: "f = (nm, off, u)" by (cases f)
  show ?case
  proof (cases u)
    case None
    from Cons.IH [OF Cons.prems, of best] show ?thesis unfolding f None largest_member.simps using assms(2) by simp
  next
    case (Some t)
    obtain ob where ob: "D (Some t) = Some ob" "ro_size ob = fst (size_align (tys ! t))" using assms(1) by blast
    then have new: "case Some (sm_of ob, off) of None \<Rightarrow> Some t = None
      | Some (r, off) \<Rightarrow> \<exists>u ob. Some t = Some u \<and> D (Some u) = Some ob \<and> r = sm_of ob" by simp
    show ?thesis
      unfolding f Some largest_member.simps using Cons.IH [OF new, of "fst (size_align (tys ! t))"] Cons.IH [OF Cons.prems, of best] ob by simp
  qed
qed

text \<open>A node is storable exactly when its parts are.\<close>

lemma storable_node:
  assumes D: "\<And>u. \<exists>ob. D (Some u) = Some ob \<and> ro_size ob = fst (size_align (tys ! u))" "D None = None"
    and el: "tn_code n = ARRAY_TYPE \<Longrightarrow> el = (if elems then D (tn_target n) else None)"
    and fs: "is_record (tn_code n) \<Longrightarrow> fs = (if members \<and> tn_fields n \<noteq> [] then Some (map (\<lambda>(nm, off, u). (f nm, off, D u)) (tn_fields n)) else None)"
  shows "storable (sm_of (RObj (czet_reflect_kind (tn_code n)) sz al nm (czet_reflect_count tys n) el fs))
    \<longleftrightarrow> plain_node tys n elems members (\<lambda>u. \<exists>ob. D u = Some ob \<and> storable (sm_of ob))"
proof (cases "is_record (tn_code n)")
  case True
  let ?fs = "map (\<lambda>(nm, off, u). (map_option sm_of (D u), off)) (tn_fields n)"
  have sm: "map_option (map (\<lambda>(nm, off, t). (map_option sm_of t, off))) fs = (if members \<and> tn_fields n \<noteq> [] then Some ?fs else None)"
    using fs [OF True] by (auto simp: case_prod_unfold)
  have cnt: "czet_reflect_count tys n = length (tn_fields n)"
    using True by (auto simp: czet_reflect_count_def is_record_def)
  have all: "(\<forall>x \<in> set ?fs. case fst x of None \<Rightarrow> False | Some r \<Rightarrow> storable r)
      \<longleftrightarrow> list_all (\<lambda>(_, _, u). \<exists>ob. D u = Some ob \<and> storable (sm_of ob)) (tn_fields n)"
  proof -
    have "(case fst (case x of (nm, off, u) \<Rightarrow> (map_option sm_of (D u), off)) of None \<Rightarrow> False | Some r \<Rightarrow> storable r)
      \<longleftrightarrow> (case x of (_, _, u) \<Rightarrow> \<exists>ob. D u = Some ob \<and> storable (sm_of ob))" for x :: "string option \<times> nat \<times> nat option"
      by (cases x) (auto split: option.splits)
    then show ?thesis by (simp add: list_all_iff)
  qed
  have big: "(case largest ?fs 0 None of None \<Rightarrow> True | Some (t, off) \<Rightarrow> storable t)
      \<longleftrightarrow> (case largest_member tys (tn_fields n) 0 None of None \<Rightarrow> True | Some u \<Rightarrow> \<exists>ob. D (Some u) = Some ob \<and> storable (sm_of ob))"
    using largest_describe [of D tys None None "tn_fields n" 0] D by (auto split: option.splits)
  from True consider "tn_code n = RECORD_TYPE" | "tn_code n \<in> {UNION_TYPE, QUAL_UNION_TYPE}" by (auto simp: is_record_def)
  then show ?thesis
  proof cases
    case 1
    then show ?thesis
      using all by (auto simp: sm cnt storable.simps plain_node_def czet_reflect_kind_def)
  next
    case 2
    then show ?thesis
      using big by (auto simp: sm cnt storable.simps plain_node_def czet_reflect_kind_def is_record_def)
  qed
next
  case False
  show ?thesis
  proof (cases "tn_code n = ARRAY_TYPE")
    case True
    have "(case map_option sm_of el of None \<Rightarrow> False | Some e \<Rightarrow> rf_size e \<noteq> 0 \<and> (czet_reflect_count tys n = 0 \<or> storable e))
      \<longleftrightarrow> elems \<and> (case tn_target n of None \<Rightarrow> False | Some e \<Rightarrow> fst (size_align (tys ! e)) \<noteq> 0)
        \<and> (czet_reflect_count tys n = 0 \<or> (\<exists>ob. D (tn_target n) = Some ob \<and> storable (sm_of ob)))"
      using D(1) [of "the (tn_target n)"] D(2) by (cases "tn_target n") (auto simp: el [OF True])
    then show ?thesis using True by (simp add: storable.simps plain_node_def czet_reflect_kind_def)
  next
    case arr: False
    with False show ?thesis
      by (cases "tn_code n") (simp_all add: storable.simps plain_node_def czet_reflect_kind_def is_record_def)
  qed
qed

lemma plain_node_leaf: "plain_node tys n False False s = plain_node tys n False False s'"
  by (simp add: plain_node_def)

lemma storable_describe:
  "(\<exists>ob. describe tys t d = Some ob \<and> storable (sm_of ob)) \<longleftrightarrow> plain tys d t"
proof (induction tys d t rule: plain.induct)
  case (2 tys d t)
  show ?case
  proof (cases "d \<le> 8")
    case True
    let ?n = "tys ! t"
    let ?k = "min (d + 1) 8"
    let ?D = "\<lambda>u. describe tys u ?k"
    let ?el = "if has_elem (tn_code ?n) \<or> is_function (tn_code ?n) then describe tys (tn_target ?n) (d + 1) else None"
    let ?m = "d < 2 \<and> tn_size ?n \<noteq> None"
    let ?fs = "if is_record (tn_code ?n) \<and> ?m \<and> tn_fields ?n \<noteq> []
      then Some (map (\<lambda>(nm, off, u). (case nm of None \<Rightarrow> [] | Some s \<Rightarrow> s, off, describe tys u (d + 1))) (tn_fields ?n)) else None"
    have deep: "describe tys u (Suc d) = None" if "\<not> d < 8" for u
      using that by (cases u) (simp_all add: describe.simps(2))
    have near: "min (Suc d) 8 = Suc d" if "d < 8" using that by simp
    have near2: "d < 2 \<Longrightarrow> min (Suc d) 8 = Suc d" by simp
    have node: "storable (sm_of (RObj (czet_reflect_kind (tn_code ?n)) sz al nm (czet_reflect_count tys ?n) ?el ?fs))
      \<longleftrightarrow> plain_node tys ?n (d < 8) ?m (\<lambda>u. \<exists>ob. ?D u = Some ob \<and> storable (sm_of ob))" for sz al nm
      by (rule storable_node [where f = "\<lambda>nm. case nm of None \<Rightarrow> [] | Some s \<Rightarrow> s"])
        (simp_all add: describe_some has_elem_def deep near near2 del: min_Suc_numeral)
    have sub: "plain_node tys ?n (d < 8) ?m (\<lambda>u. \<exists>ob. ?D u = Some ob \<and> storable (sm_of ob))
      = plain_node tys ?n (d < 8) ?m (plain tys (d + 1))"
    proof (cases "d < 8")
      case lt: True
      then show ?thesis using 2 [OF True] by simp
    next
      case False
      then show ?thesis using plain_node_leaf by simp
    qed
    have "describe tys (Some t) d = Some (RObj (czet_reflect_kind (tn_code ?n)) (fst (size_align ?n)) (snd (size_align ?n))
        (czet_reflect_name ?n) (czet_reflect_count tys ?n) ?el ?fs)"
      using True by (simp add: describe.simps(2) Let_def)
    then show ?thesis using node sub True by (simp only: plain.simps(2) if_True option.inject ex_simps) simp
  qed (simp add: describe.simps(2) plain.simps(2))
qed simp

definition value_meta :: "types \<Rightarrow> nat \<Rightarrow> reflect_t" where
  "value_meta tys t = sm_of (describe_top tys None t)"

lemma storable_meta:
  assumes "tn_size (tys ! t) \<noteq> None"
  shows "storable (value_meta tys t) \<longleftrightarrow> plain_type tys t"
proof -
  let ?n = "tys ! t"
  let ?el = "describe tys (if has_elem (tn_code ?n) then tn_target ?n else if is_function (tn_code ?n) then tn_target ?n else None) 0"
  let ?fs = "if is_function (tn_code ?n) \<and> params tys ?n \<noteq> [] then Some (describe_params tys (params tys ?n) 0)
    else if tn_fields ?n = [] then None else Some (describe_fields tys (tn_fields ?n) 0)"
  have "storable (sm_of (RObj (czet_reflect_kind (tn_code ?n)) sz al nm (czet_reflect_count tys ?n) ?el ?fs))
      \<longleftrightarrow> plain_node tys ?n True True (\<lambda>u. \<exists>ob. describe tys u 0 = Some ob \<and> storable (sm_of ob))" for sz al nm
    by (rule storable_node [where f = "\<lambda>nm. case nm of None \<Rightarrow> [] | Some s \<Rightarrow> s"])
      (auto simp: describe_some has_elem_def is_function_def is_record_def describe_fields_def)
  moreover have "value_meta tys t = sm_of (RObj (czet_reflect_kind (tn_code ?n)) (fst (size_align ?n)) (snd (size_align ?n))
      (czet_reflect_name ?n) (czet_reflect_count tys ?n) ?el ?fs)"
    by (simp add: value_meta_def describe_top_def Let_def)
  ultimately show ?thesis
    using assms unfolding storable_describe plain_type_def by (simp del: sm_of.simps)
qed

lemma reflect_value_of:
  assumes "tn_size (tys ! t) \<noteq> None"
  shows "fst (c_parser_czet_reflect_expression tys L_full (Op_expr (Some t)) None st) = RR_value (describe_top tys None t)"
  using assms reflect_object_value [of tys None t st]
  by (cases "reflect_object tys None t st")
    (simp add: c_parser_czet_reflect_expression_def reflect_type_def reflect_target_def reflectable_def)

lemma sm_save_write:
  assumes "tn_size (tys ! t) \<noteq> None"
  shows "sm_save tys t le malloc mem (Some w) (Some p) = Some (apsnd Some (sm_write_value le malloc mem p (value_meta tys t) w))"
  by (simp add: sm_save_def reflect_value_of [OF assms] value_meta_def)

lemma save_load_generic:
  assumes "plain_type tys t" "\<forall>n. malloc n" "cover p (value_meta tys t) \<subseteq> {..<length mem}"
    "nbytes (value_meta tys t) \<le> wf_room w"
  shows "\<exists>w' bs. sm_save tys t le malloc mem (Some w) (Some p) = Some (0, Some w') \<and> wf_data w' = wf_data w @ bs
    \<and> (\<forall>mem0 rest. length mem0 = length mem \<longrightarrow>
         sm_load tys t le mem0 (Some (bs @ rest)) (Some p) = Some (0, merge (cover p (value_meta tys t)) mem mem0, Some rest))"
proof -
  have size: "tn_size (tys ! t) \<noteq> None" using assms(1) by (simp add: plain_type_def)
  then have "storable (value_meta tys t)" using storable_meta assms(1) by blast
  from write_storable [OF this _ assms(3,4), of malloc le] assms(2)
  obtain w' where w: "sm_write_value le malloc mem p (value_meta tys t) w = (0, w')" by blast
  from inverse_stepsE [OF inverse_value [OF assms(3)] w]
  obtain bs where "wf_data w' = wf_data w @ bs"
    "\<And>mem0 rest. length mem0 = length mem \<Longrightarrow> sm_read_value le p (value_meta tys t) (mem0, bs @ rest)
       = (0, merge (cover p (value_meta tys t)) mem mem0, rest)" by metis
  with w show ?thesis
    by (intro exI [of _ w'] exI [of _ bs]) (simp add: sm_save_write [OF size] sm_load_def reflect_value_of [OF size] value_meta_def)
qed

text \<open>
  A value of a type without pointers, nested no deeper than the metadata reaches, is saved by
  \<^verbatim>\<open>sm_save<T>\<close> when there is room, and \<^verbatim>\<open>sm_load<T>\<close> restores exactly its bytes.
\<close>

theorem sm_generic_roundtrip:
  assumes "plain_type tys t" "\<forall>n. malloc n" "cover p (value_meta tys t) \<subseteq> {..<length mem}"
    "nbytes (value_meta tys t) \<le> wf_room w"
  shows "\<exists>w' bs. sm_save tys t le malloc mem (Some w) (Some p) = Some (0, Some w') \<and> wf_data w' = wf_data w @ bs
    \<and> (\<forall>mem0 rest. length mem0 = length mem \<longrightarrow>
         sm_load tys t le mem0 (Some (bs @ rest)) (Some p) = Some (0, merge (cover p (value_meta tys t)) mem mem0, Some rest))"
  using assms by (rule save_load_generic)

text \<open>
  Any other complete type is refused: \<^verbatim>\<open>sm_save<T>\<close> returns -1 for pointers, functions, members of these types and
  structures nested deeper than the metadata.
\<close>

theorem sm_save_rejects:
  assumes "tn_size (tys ! t) \<noteq> None" "\<not> plain_type tys t"
  shows "\<exists>w'. sm_save tys t le malloc mem (Some w) (Some p) = Some (-1, w')"
proof -
  have "fst (sm_write_value le malloc mem p (value_meta tys t) w) = -1"
    using storable_meta [OF assms(1)] assms(2) by (intro write_not_storable) simp
  then show ?thesis
    by (cases "sm_write_value le malloc mem p (value_meta tys t) w") (simp add: sm_save_write [OF assms(1)])
qed

text \<open>
  The metadata of a typedef that names an array type has the type of the elements in the place of
  the array: saving a value through it writes one element.
\<close>

theorem typedef_array_elem:
  assumes "reflect_target tys t (Some (s, u)) = (True, u)" "tn_code (tys ! u) = ARRAY_TYPE" "tn_size (tys ! u) \<noteq> None"
    "tn_target (tys ! u) = Some e"
  shows "\<exists>r ob. fst (c_parser_czet_reflect_expression tys L_full (Op_type (Some t)) (Some (s, u)) st) = RR_value r
    \<and> ro_kind r = 10 \<and> ro_elem r = Some ob \<and> ro_kind ob = czet_reflect_kind (tn_code (tys ! e))
    \<and> ro_size ob = fst (size_align (tys ! e))
    \<and> (\<forall>le malloc mem p f. sm_write_value le malloc mem p (sm_of r) f = sm_write_value le malloc mem p (sm_of ob) f)"
proof -
  let ?r = "describe_top tys (Some s) u"
  have "fst (c_parser_czet_reflect_expression tys L_full (Op_type (Some t)) (Some (s, u)) st) = RR_value ?r"
    using assms(1,3) reflect_object_value [of tys "Some s" u st]
    by (cases "reflect_object tys (Some s) u st")
      (simp add: c_parser_czet_reflect_expression_def reflect_type_def reflectable_def)
  moreover obtain ob where ob: "describe tys (Some e) 0 = Some ob" "ro_size ob = fst (size_align (tys ! e))"
    "ro_kind ob = czet_reflect_kind (tn_code (tys ! e))"
    by (simp add: describe.simps(2) Let_def)
  moreover have r: "ro_kind ?r = 10" "ro_elem ?r = Some ob"
    using assms(2,4) ob(1) by (simp_all add: describe_top_def Let_def has_elem_def)
  moreover have "sm_write_value le malloc mem p (sm_of ?r) f = sm_write_value le malloc mem p (sm_of ob) f" for le malloc mem p f
    using r by (cases ?r) (simp add: sm_write_value.simps)
  ultimately show ?thesis by blast
qed

subsection \<open>Concrete types\<close>

text \<open>\<^verbatim>\<open>char\<close>, \<^verbatim>\<open>char[2]\<close>, \<^verbatim>\<open>struct P { char x; char a[2]; }\<close>, \<^verbatim>\<open>char *\<close> and \<^verbatim>\<open>struct Q { char *s; }\<close>.\<close>

definition example_type :: "tcode \<Rightarrow> tname \<Rightarrow> nat \<Rightarrow> nat \<Rightarrow> tnode" where
  "example_type c nm sz al = \<lparr>tn_code = c, tn_name = nm, tn_size = Some sz, tn_align = al, tn_target = None, tn_fields = [],
     tn_nelts = None, tn_values = 0, tn_args = []\<rparr>"

definition example_types :: types where
  "example_types =
     [example_type INTEGER_TYPE (TN_decl (Some ''char'')) 1 1,
      (example_type ARRAY_TYPE TN_none 2 1)\<lparr>tn_target := Some 0, tn_nelts := Some 2\<rparr>,
      (example_type RECORD_TYPE (TN_ident ''P'') 3 1)\<lparr>tn_fields := [(Some ''x'', 0, Some 0), (Some ''a'', 1, Some 1)]\<rparr>,
      (example_type POINTER_TYPE TN_none 8 8)\<lparr>tn_target := Some 0\<rparr>,
      (example_type RECORD_TYPE (TN_ident ''Q'') 8 8)\<lparr>tn_fields := [(Some ''s'', 0, Some 3)]\<rparr>]"

lemmas example_simps = example_types_def example_type_def describe.simps(2) plain.simps(2) describe_top_def describe_fields_def
  has_elem_def is_function_def is_record_def size_align_def czet_reflect_kind_def czet_reflect_count_def czet_reflect_name_def
  plain_type_def plain_node_def reflect_target_def reflectable_def

lemma example_meta:
  "value_meta example_types 2 = Reflect 6 3 2 None (Some [(Some (Reflect 2 1 0 None None), 0),
     (Some (Reflect 5 2 2 (Some (Reflect 2 1 0 None None)) None), 1)])"
  by (simp add: value_meta_def example_simps Let_def)

theorem sm_generic_roundtrip_witness:
  "\<exists>w' bs. sm_save example_types 2 True (\<lambda>n. True) [5, 6, 7] (Some \<lparr>wf_data = [], wf_room = 9\<rparr>) (Some 0) = Some (0, Some w')
    \<and> wf_data w' = bs
    \<and> sm_load example_types 2 True [0, 0, 0] (Some bs) (Some 0) = Some (0, [5, 6, 7], Some [])"
proof -
  let ?m = "value_meta example_types 2"
  have c: "cover 0 ?m = {0, 1, 2}"
    unfolding example_meta by (auto simp: cover.simps numeral_2_eq_2 less_Suc_eq lessThan_Suc)
  have n: "nbytes ?m \<le> wf_room \<lparr>wf_data = [] :: u8 list, wf_room = 9\<rparr>" unfolding example_meta by (simp add: nbytes.simps)
  have p: "plain_type example_types 2" by (simp add: example_simps)
  have m: "merge (cover 0 ?m) [5, 6, 7] [0, 0, 0] = [5, 6, 7 :: u8]"
    unfolding c by (simp add: merge_def upt_rec numeral_3_eq_3)
  have "cover 0 ?m \<subseteq> {..<length [5, 6, 7 :: u8]}" unfolding c by simp
  from sm_generic_roundtrip [OF p _ this n, of "\<lambda>n. True" True]
  obtain w' bs where "sm_save example_types 2 True (\<lambda>n. True) [5, 6, 7] (Some \<lparr>wf_data = [], wf_room = 9\<rparr>) (Some 0) = Some (0, Some w')"
      "wf_data w' = bs" "\<forall>mem0 rest. length mem0 = length [5, 6, 7 :: u8] \<longrightarrow>
         sm_load example_types 2 True mem0 (Some (bs @ rest)) (Some 0) = Some (0, merge (cover 0 ?m) [5, 6, 7] mem0, Some rest)"
    by auto
  then show ?thesis using m by (metis append_Nil2 length_Cons list.size(3))
qed

theorem sm_save_rejects_witness:
  "\<exists>w'. sm_save example_types 4 True (\<lambda>n. True) [5, 6, 7] (Some \<lparr>wf_data = [], wf_room = 9\<rparr>) (Some 0) = Some (-1, w')"
  by (rule sm_save_rejects) (simp_all add: example_simps)

theorem typedef_array_elem_witness:
  "\<exists>r ob. fst (c_parser_czet_reflect_expression example_types L_full (Op_type (Some 1)) (Some (''word'', 1)) \<lparr>rx_seq = 0, rx_statics = []\<rparr>) = RR_value r
    \<and> ro_kind r = 10 \<and> ro_elem r = Some ob \<and> ro_kind ob = 2 \<and> ro_size ob = 1"
  using typedef_array_elem [of example_types 1 "''word''" 1 0 "\<lparr>rx_seq = 0, rx_statics = []\<rparr>"]
  by (auto simp: example_simps)

theorem reflect_documented_witness:
  "\<exists>ob st'. c_parser_czet_reflect_expression example_types L_full (Op_type (Some 2)) None \<lparr>rx_seq = 0, rx_statics = []\<rparr> = (RR_value ob, st')
    \<and> (\<exists>e. obj_path ob [Member 1, Elem] = Some e \<and> documented example_types 0 e)"
proof -
  have ok: "is_record (tn_code (example_types ! 2)) \<or> tn_fields (example_types ! 2) = []" "statics_ok \<lparr>rx_seq = 0, rx_statics = []\<rparr>"
    "reflect_target example_types 2 None = (False, 2)" "reflectable example_types 2"
    by (auto simp: statics_ok_def example_simps)
  have path: "type_path example_types True 2 [Member 1, Elem] = Some 0" "in_depth [Member 1, Elem]"
    by (simp_all add: example_simps in_depth_def less_Suc_eq)
  from reflect_documented [OF ok(1-3), of "Op_type (Some 2)" None] ok(4)
  obtain ob st' where run: "c_parser_czet_reflect_expression example_types L_full (Op_type (Some 2)) None \<lparr>rx_seq = 0, rx_statics = []\<rparr> = (RR_value ob, st')"
    and all: "\<And>p. obj_path ob p \<noteq> None \<longleftrightarrow> type_path example_types True 2 p \<noteq> None \<and> in_depth p"
      "\<And>p ob' u. obj_path ob p = Some ob' \<Longrightarrow> type_path example_types True 2 p = Some u \<Longrightarrow> documented example_types u ob'"
    by auto
  from all(1) [of "[Member 1, Elem]"] path obtain e where "obj_path ob [Member 1, Elem] = Some e" by auto
  with run all(2) path(1) show ?thesis by blast
qed

end
