(* ===== verification/Defer.thy ===== *)
theory Defer
  imports Czet_Prelude
begin

text \<open>
  Deferred statements (c-parser.cc): \<^verbatim>\<open>defer { ... }\<close> collects a cleanup for the enclosing block, \<^verbatim>\<open>defer;\<close> runs
  the collected ones at once.  The model starts from statements whose tokens have been recognised and
  gives the trees that the parser adds, with the vector \<^verbatim>\<open>parser->defers\<close> as state (\<open>None\<close> is \<^verbatim>\<open>NULL\<close>).  Simple
  statements and conditions are a parameter; jumps with \<^verbatim>\<open>goto\<close> and syntax errors inside a block are not
  modelled.  Trees and statements are run with fuel that only loops use up: with equal fuel, a tree does
  what the statement it came from means.
\<close>

subsection \<open>Statements and trees\<close>

datatype jump = J_return | J_break | J_continue

text \<open>A block says whether it declares something; a group is a statement expression.\<close>

datatype 'a stmt =
    S_simple 'a
  | S_jump jump
  | S_if 'a "'a stmt" "'a stmt"
  | S_while 'a "'a stmt"
  | S_block bool "'a stmt list"
  | S_group "'a stmt list"
  | S_defer bool "'a stmt list"
  | S_now

datatype 'a tree =
    T_simple 'a
  | T_jump jump
  | T_if 'a "'a tree" "'a tree"
  | T_while 'a "'a tree"
  | T_list "'a tree list"
  | T_bind "'a tree option"
  | T_try "'a tree" "'a tree"
  | T_empty
  | T_error

datatype diag = D_defer_outside

subsection \<open>The parser\<close>

definition c_parser_flush_defers :: "'a tree list \<Rightarrow> 'a tree list \<times> 'a tree list" where
  "c_parser_flush_defers ds = (if ds = [] then ([], ds) else (rev ds, []))"

definition c_parser_take_defers :: "'a tree list option \<Rightarrow> 'a tree option \<times> 'a tree list option" where
  "c_parser_take_defers ds =
     (case ds of
        None \<Rightarrow> (None, None)
      | Some l \<Rightarrow> (if l = [] then None else Some (T_list (rev l)), Some []))"

text \<open>A block is \<^verbatim>\<open>NULL\<close>, an error, a \<^verbatim>\<open>BIND_EXPR\<close> (its body may be missing) or another tree.\<close>

definition c_czet_wrap_cleanup :: "'a tree option \<Rightarrow> 'a tree \<Rightarrow> 'a tree" where
  "c_czet_wrap_cleanup bind cleanup =
     (case bind of
        None \<Rightarrow> cleanup
      | Some T_error \<Rightarrow> T_error
      | Some (T_bind body) \<Rightarrow> T_bind (Some (T_try (case body of None \<Rightarrow> T_empty | Some b \<Rightarrow> b) cleanup))
      | Some t \<Rightarrow> T_try t cleanup)"

text \<open>The end of \<^verbatim>\<open>c_parser_compound_statement\<close>: the statements of a block and the collected cleanups.\<close>

definition finish_block :: "bool \<Rightarrow> 'a tree list \<Rightarrow> 'a tree list option \<Rightarrow> 'a tree" where
  "finish_block decls ts ds =
     (let bind = (if decls then T_bind (Some (T_list ts)) else T_list ts) in
      case fst (c_parser_take_defers ds) of None \<Rightarrow> bind | Some c \<Rightarrow> c_czet_wrap_cleanup (Some bind) c)"

definition finish_group :: "'a tree list \<Rightarrow> 'a tree list option \<Rightarrow> 'a tree" where
  "finish_group ts ds =
     T_list (ts @ (case fst (c_parser_take_defers ds) of None \<Rightarrow> [] | Some c \<Rightarrow> [c]))"

text \<open>
  A deferred body is pushed, once it is parsed; outside of every block nothing is consumed.
\<close>

definition c_parser_defer_statement :: "'a tree \<Rightarrow> 'a tree list option \<Rightarrow> 'a tree list option \<times> diag list" where
  "c_parser_defer_statement body ds = (case ds of None \<Rightarrow> (None, [D_defer_outside]) | Some l \<Rightarrow> (Some (l @ [body]), []))"

lemma defer_statement_simps [simp]:
  "c_parser_defer_statement body None = (None, [D_defer_outside])"
  "c_parser_defer_statement body (Some l) = (Some (l @ [body]), [])"
  by (simp_all add: c_parser_defer_statement_def)

text \<open>
  What a statement adds to the current list, the vector afterwards and the diagnostics.  Outside of every block
  the braces after \<^verbatim>\<open>defer\<close> are left to be parsed as a block.
\<close>

fun c_parser_statement_after_labels :: "'a stmt \<Rightarrow> 'a tree list option \<Rightarrow> 'a tree list \<times> 'a tree list option \<times> diag list"
  and c_parser_compound_statement_nostart :: "'a stmt list \<Rightarrow> 'a tree list option \<Rightarrow> 'a tree list \<times> 'a tree list option \<times> diag list"
where
  "c_parser_statement_after_labels (S_simple a) ds = ([T_simple a], ds, [])"
| "c_parser_statement_after_labels (S_jump j) ds = ([T_jump j], ds, [])"
| "c_parser_statement_after_labels (S_if c a b) ds =
     (case c_parser_statement_after_labels a ds of (ta, ds1, ea) \<Rightarrow>
      case c_parser_statement_after_labels b ds1 of (tb, ds2, eb) \<Rightarrow> ([T_if c (T_list ta) (T_list tb)], ds2, ea @ eb))"
| "c_parser_statement_after_labels (S_while c b) ds =
     (case c_parser_statement_after_labels b ds of (tb, ds1, eb) \<Rightarrow> ([T_while c (T_list tb)], ds1, eb))"
| "c_parser_statement_after_labels (S_block d items) ds =
     (case c_parser_compound_statement_nostart items (Some []) of (ts, ds1, es) \<Rightarrow> ([finish_block d ts ds1], ds, es))"
| "c_parser_statement_after_labels (S_group items) ds =
     (case c_parser_compound_statement_nostart items (Some []) of (ts, ds1, es) \<Rightarrow> ([finish_group ts ds1], ds, es))"
| "c_parser_statement_after_labels (S_defer d items) ds =
     (case c_parser_compound_statement_nostart items (Some []) of (ts, ds1, es) \<Rightarrow>
      case c_parser_defer_statement (finish_block d ts ds1) ds of (ds2, e) \<Rightarrow>
        (if ds2 = None then [finish_block d ts ds1] else [], ds2, e @ es))"
| "c_parser_statement_after_labels S_now ds =
     (case ds of
        None \<Rightarrow> ([], None, [D_defer_outside])
      | Some l \<Rightarrow> (case c_parser_flush_defers l of (ts, l') \<Rightarrow> (ts, Some l', [])))"
| "c_parser_compound_statement_nostart [] ds = ([], ds, [])"
| "c_parser_compound_statement_nostart (x # xs) ds =
     (case c_parser_statement_after_labels x ds of (tx, ds1, ex) \<Rightarrow>
      case c_parser_compound_statement_nostart xs ds1 of (ts, ds2, es) \<Rightarrow> (tx @ ts, ds2, ex @ es))"

definition c_parser_compound_statement :: "bool \<Rightarrow> 'a stmt list \<Rightarrow> 'a tree \<times> diag list" where
  "c_parser_compound_statement d items =
     (case c_parser_compound_statement_nostart items (Some []) of (ts, ds, es) \<Rightarrow> (finish_block d ts ds, es))"

subsection \<open>Running trees\<close>

datatype outcome = O_normal | O_jump jump

record ('a, 's) actions =
  ac_do :: "'a \<Rightarrow> 's \<Rightarrow> 's"
  ac_test :: "'a \<Rightarrow> 's \<Rightarrow> bool"

text \<open>The outcome of a cleanup that jumps replaces the one of the body.\<close>

definition after :: "(outcome \<times> 's) option \<Rightarrow> ('s \<Rightarrow> (outcome \<times> 's) option) \<Rightarrow> (outcome \<times> 's) option" where
  "after r f = (case r of None \<Rightarrow> None | Some (o1, s1) \<Rightarrow>
     (case f s1 of None \<Rightarrow> None | Some (o2, s2) \<Rightarrow> Some (if o2 = O_normal then o1 else o2, s2)))"

text \<open>What a loop does after an iteration.\<close>

definition iterate :: "(outcome \<times> 's) option \<Rightarrow> ('s \<Rightarrow> (outcome \<times> 's) option) \<Rightarrow> (outcome \<times> 's) option" where
  "iterate r loop = (case r of None \<Rightarrow> None | Some (oc, s1) \<Rightarrow>
     (case oc of O_normal \<Rightarrow> loop s1 | O_jump J_continue \<Rightarrow> loop s1 | O_jump J_break \<Rightarrow> Some (O_normal, s1)
      | O_jump J_return \<Rightarrow> Some (O_jump J_return, s1)))"

function exec :: "nat \<Rightarrow> ('a, 's) actions \<Rightarrow> 'a tree \<Rightarrow> 's \<Rightarrow> (outcome \<times> 's) option"
  and execs :: "nat \<Rightarrow> ('a, 's) actions \<Rightarrow> 'a tree list \<Rightarrow> 's \<Rightarrow> (outcome \<times> 's) option"
where
  "exec n A (T_simple a) s = Some (O_normal, ac_do A a s)"
| "exec n A (T_jump j) s = Some (O_jump j, s)"
| "exec n A (T_if c a b) s = (if ac_test A c s then exec n A a s else exec n A b s)"
| "exec n A (T_while c b) s =
     (if ac_test A c s
      then (case n of 0 \<Rightarrow> None | Suc m \<Rightarrow> iterate (exec m A b s) (\<lambda>s1. exec m A (T_while c b) s1))
      else Some (O_normal, s))"
| "exec n A (T_list ts) s = execs n A ts s"
| "exec n A (T_bind t) s = (case t of None \<Rightarrow> Some (O_normal, s) | Some b \<Rightarrow> exec n A b s)"
| "exec n A (T_try b c) s = after (exec n A b s) (\<lambda>s1. exec n A c s1)"
| "exec n A T_empty s = Some (O_normal, s)"
| "exec n A T_error s = None"
| "execs n A [] s = Some (O_normal, s)"
| "execs n A (t # ts) s =
     (case exec n A t s of None \<Rightarrow> None
      | Some (oc, s1) \<Rightarrow> if oc = O_normal then execs n A ts s1 else Some (oc, s1))"
  by pat_completeness auto
termination
  by (relation "measures [\<lambda>x. case x of Inl (n, A, t, s) \<Rightarrow> n | Inr (n, A, ts, s) \<Rightarrow> n,
      \<lambda>x. case x of Inl (n, A, t, s) \<Rightarrow> size t | Inr (n, A, ts, s) \<Rightarrow> size_list size ts]") auto

subsection \<open>What the statements mean\<close>

text \<open>
  Reaching a \<open>defer\<close> pushes its block; leaving a block, or \<open>defer;\<close>, runs the pushed ones, the last one
  first, until one of them jumps.  A substatement counts as a block.  A statement expression runs them
  at its normal end.
\<close>

type_synonym 's pending = "('s \<Rightarrow> (outcome \<times> 's) option) list"

fun drain :: "'s pending \<Rightarrow> 's \<Rightarrow> (outcome \<times> 's) option" where
  "drain [] s = Some (O_normal, s)"
| "drain (f # fs) s =
     (case f s of None \<Rightarrow> None | Some (oc, s1) \<Rightarrow> if oc = O_normal then drain fs s1 else Some (oc, s1))"

text \<open>The end of a block and of a statement expression, from the outcome of its statements.\<close>

definition leave_block :: "(outcome \<times> 's pending \<times> 's) option \<Rightarrow> (outcome \<times> 's) option" where
  "leave_block r = (case r of None \<Rightarrow> None | Some (oc, Q, s1) \<Rightarrow> after (Some (oc, s1)) (drain Q))"

definition leave_group :: "(outcome \<times> 's pending \<times> 's) option \<Rightarrow> (outcome \<times> 's) option" where
  "leave_group r = (case r of None \<Rightarrow> None | Some (oc, Q, s1) \<Rightarrow> if oc = O_normal then drain Q s1 else Some (oc, s1))"

definition keep :: "'s pending \<Rightarrow> (outcome \<times> 's) option \<Rightarrow> (outcome \<times> 's pending \<times> 's) option" where
  "keep P r = map_option (\<lambda>(oc, s). (oc, P, s)) r"

definition forget :: "(outcome \<times> 's pending \<times> 's) option \<Rightarrow> (outcome \<times> 's) option" where
  "forget r = map_option (\<lambda>(oc, P, s). (oc, s)) r"

function run :: "nat \<Rightarrow> ('a, 's) actions \<Rightarrow> 'a stmt \<Rightarrow> 's pending \<Rightarrow> 's \<Rightarrow> (outcome \<times> 's pending \<times> 's) option"
  and runs :: "nat \<Rightarrow> ('a, 's) actions \<Rightarrow> 'a stmt list \<Rightarrow> 's pending \<Rightarrow> 's \<Rightarrow> (outcome \<times> 's pending \<times> 's) option"
where
  "run n A (S_simple a) P s = Some (O_normal, P, ac_do A a s)"
| "run n A (S_jump j) P s = Some (O_jump j, P, s)"
| "run n A (S_if c a b) P s =
     keep P (if ac_test A c s then leave_block (run n A a [] s) else leave_block (run n A b [] s))"
| "run n A (S_while c b) P s =
     (if ac_test A c s
      then (case n of 0 \<Rightarrow> None
            | Suc m \<Rightarrow> keep P (iterate (leave_block (run m A b [] s)) (\<lambda>s1. forget (run m A (S_while c b) [] s1))))
      else Some (O_normal, P, s))"
| "run n A (S_block d items) P s = keep P (leave_block (runs n A items [] s))"
| "run n A (S_group items) P s = keep P (leave_group (runs n A items [] s))"
| "run n A (S_defer d items) P s = Some (O_normal, (\<lambda>s1. leave_block (runs n A items [] s1)) # P, s)"
| "run n A S_now P s = keep [] (drain P s)"
| "runs n A [] P s = Some (O_normal, P, s)"
| "runs n A (x # xs) P s =
     (case run n A x P s of None \<Rightarrow> None
      | Some (oc, Q, s1) \<Rightarrow> if oc = O_normal then runs n A xs Q s1 else Some (oc, Q, s1))"
  by pat_completeness auto
termination
  by (relation "measures [\<lambda>x. case x of Inl (n, A, t, P, s) \<Rightarrow> n | Inr (n, A, ts, P, s) \<Rightarrow> n,
      \<lambda>x. case x of Inl (n, A, t, P, s) \<Rightarrow> size t | Inr (n, A, ts, P, s) \<Rightarrow> size_list size ts]") auto

subsection \<open>Well placed\<close>

fun plain_stmt :: "'a stmt \<Rightarrow> bool" where
  "plain_stmt (S_defer d items) \<longleftrightarrow> False"
| "plain_stmt S_now \<longleftrightarrow> False"
| "plain_stmt _ \<longleftrightarrow> True"

text \<open>The jumps that can leave a statement; those of a cleanup belong to its block.\<close>

fun may :: "jump \<Rightarrow> 'a stmt \<Rightarrow> bool" where
  "may j (S_simple a) \<longleftrightarrow> False"
| "may j (S_jump k) \<longleftrightarrow> j = k"
| "may j (S_if c a b) \<longleftrightarrow> may j a \<or> may j b"
| "may j (S_while c b) \<longleftrightarrow> j = J_return \<and> may j b"
| "may j (S_block d items) \<longleftrightarrow> list_ex (may j) items"
| "may j (S_group items) \<longleftrightarrow> list_ex (may j) items"
| "may j (S_defer d items) \<longleftrightarrow> list_ex (may j) items"
| "may j S_now \<longleftrightarrow> False"

definition jumps_now :: "'a stmt \<Rightarrow> bool" where
  "jumps_now x \<longleftrightarrow> x = S_now \<or> plain_stmt x \<and> (may J_return x \<or> may J_break x \<or> may J_continue x)"

text \<open>
  \<open>defer\<close> stands directly in a block, and nothing that can jump comes before a \<open>defer\<close> in its block.
\<close>

fun well_placed :: "'a stmt \<Rightarrow> bool"
  and well_placed_list :: "'a stmt list \<Rightarrow> bool"
where
  "well_placed (S_simple a) \<longleftrightarrow> True"
| "well_placed (S_jump j) \<longleftrightarrow> True"
| "well_placed (S_if c a b) \<longleftrightarrow> plain_stmt a \<and> plain_stmt b \<and> well_placed a \<and> well_placed b"
| "well_placed (S_while c b) \<longleftrightarrow> plain_stmt b \<and> well_placed b"
| "well_placed (S_block d items) \<longleftrightarrow> well_placed_list items"
| "well_placed (S_group items) \<longleftrightarrow> well_placed_list items"
| "well_placed (S_defer d items) \<longleftrightarrow> well_placed_list items"
| "well_placed S_now \<longleftrightarrow> True"
| "well_placed_list [] \<longleftrightarrow> True"
| "well_placed_list (x # xs) \<longleftrightarrow>
     well_placed x \<and> well_placed_list xs \<and> (jumps_now x \<longrightarrow> list_all plain_stmt xs)"

subsection \<open>Parsing\<close>

text \<open>A plain statement leaves the vector alone, and inside a block there are no diagnostics.\<close>

lemma parse_some:
  fixes x :: "'a stmt" and xs :: "'a stmt list"
  shows "well_placed x \<Longrightarrow> (\<forall>ds. \<exists>ts l. c_parser_statement_after_labels x (Some ds) = (ts, Some l, []))
      \<and> (plain_stmt x \<longrightarrow> (\<exists>ts. \<forall>ds. c_parser_statement_after_labels x (Some ds) = (ts, Some ds, [])))"
    and "well_placed_list xs \<Longrightarrow> (\<forall>ds. \<exists>ts l. c_parser_compound_statement_nostart xs (Some ds) = (ts, Some l, []))"
proof (induction x and xs rule: well_placed_well_placed_list.induct)
  case (3 c a b)
  then obtain ta tb where "\<forall>ds. c_parser_statement_after_labels a (Some ds) = (ta, Some ds, [])"
    "\<forall>ds. c_parser_statement_after_labels b (Some ds) = (tb, Some ds, [])" by auto
  then show ?case by simp
next
  case (4 c b)
  then obtain tb where "\<forall>ds. c_parser_statement_after_labels b (Some ds) = (tb, Some ds, [])" by auto
  then show ?case by simp
next
  case (5 d items)
  then obtain ts l where "c_parser_compound_statement_nostart items (Some []) = (ts, Some l, [])" by fastforce
  then show ?case by simp
next
  case (6 items)
  then obtain ts l where "c_parser_compound_statement_nostart items (Some []) = (ts, Some l, [])" by fastforce
  then show ?case by simp
next
  case (7 d items)
  then obtain ts l where "c_parser_compound_statement_nostart items (Some []) = (ts, Some l, [])" by fastforce
  then show ?case by simp
next
  case (10 x xs)
  show ?case
  proof
    fix ds
    from 10 obtain tx l where x: "c_parser_statement_after_labels x (Some ds) = (tx, Some l, [])" by fastforce
    from 10 obtain ts l' where "c_parser_compound_statement_nostart xs (Some l) = (ts, Some l', [])" by fastforce
    with x show "\<exists>ts l. c_parser_compound_statement_nostart (x # xs) (Some ds) = (ts, Some l, [])" by simp
  qed
qed (simp_all add: c_parser_flush_defers_def)

lemmas parse_plain = parse_some(1) [THEN conjunct2, rule_format]

lemma parse_plain_list:
  "list_all plain_stmt xs \<Longrightarrow> well_placed_list xs \<Longrightarrow> \<exists>ts. \<forall>ds. c_parser_compound_statement_nostart xs (Some ds) = (ts, Some ds, [])"
proof (induction xs)
  case (Cons x xs)
  with parse_plain [of x] obtain tx where "\<forall>ds. c_parser_statement_after_labels x (Some ds) = (tx, Some ds, [])" by auto
  moreover from Cons obtain ts where "\<forall>ds. c_parser_compound_statement_nostart xs (Some ds) = (ts, Some ds, [])" by auto
  ultimately show ?case by simp
qed simp

subsection \<open>Running what was parsed\<close>

lemma execs_single: "execs n A [t] s = exec n A t s"
  by (simp split: option.split)

lemma execs_append: "execs n A (ts @ us) s =
  (case execs n A ts s of None \<Rightarrow> None | Some (oc, s1) \<Rightarrow> if oc = O_normal then execs n A us s1 else Some (oc, s1))"
  by (induction ts arbitrary: s) (auto split: option.splits)

text \<open>The jumps of the pending cleanups and of what runs.\<close>

definition pend :: "(jump \<Rightarrow> bool) \<Rightarrow> 's pending \<Rightarrow> bool" where
  "pend J P \<longleftrightarrow> (\<forall>f \<in> set P. \<forall>s j s'. f s = Some (O_jump j, s') \<longrightarrow> J j)"

lemma pend_Nil [simp]: "pend J []"
  by (simp add: pend_def)

lemma pend_Cons: "pend J (f # P) \<longleftrightarrow> (\<forall>s j s'. f s = Some (O_jump j, s') \<longrightarrow> J j) \<and> pend J P"
  by (simp add: pend_def)

lemma drain_may: "pend J P \<Longrightarrow> drain P s = Some (O_jump j, s') \<Longrightarrow> J j"
proof (induction P arbitrary: s)
  case (Cons f P)
  from Cons.prems(2) consider "f s = Some (O_jump j, s')" | s1 where "drain P s1 = Some (O_jump j, s')"
    by (auto split: option.splits if_splits)
  then show ?case
  proof cases
    case 1
    with Cons.prems(1) show ?thesis unfolding pend_def by fastforce
  next
    case 2
    with Cons.IH Cons.prems(1) show ?thesis by (simp add: pend_def)
  qed
qed simp

lemma leave_may:
  assumes "leave_block r = Some (O_jump j, s') \<or> leave_group r = Some (O_jump j, s')"
    "\<And>oc Q s1 j. r = Some (oc, Q, s1) \<Longrightarrow> pend J Q \<and> (oc = O_jump j \<longrightarrow> J j)"
  shows "J j"
proof -
  from assms(1) obtain oc Q s1 where r: "r = Some (oc, Q, s1)" by (auto simp: leave_block_def leave_group_def split: option.splits)
  with assms(1) have "oc = O_jump j \<or> drain Q s1 = Some (O_jump j, s')"
    by (auto simp: leave_block_def leave_group_def after_def split: option.splits if_splits)
  then show ?thesis
  proof
    assume "oc = O_jump j"
    with assms(2) [OF r, of j] show ?thesis by simp
  next
    assume "drain Q s1 = Some (O_jump j, s')"
    with assms(2) [OF r] drain_may [of J Q s1 j s'] show ?thesis by simp
  qed
qed

lemma keep_some: "keep P r = Some (oc, Q, s) \<longleftrightarrow> Q = P \<and> r = Some (oc, s)"
  by (auto simp: keep_def)

lemma iterate_jump:
  "iterate r loop = Some (O_jump j, s') \<Longrightarrow> j = J_return \<and> r = Some (O_jump J_return, s') \<or> (\<exists>s1. loop s1 = Some (O_jump j, s'))"
  by (auto simp: iterate_def split: option.splits outcome.splits jump.splits)

text \<open>The trees in the vector do what the pending cleanups do.\<close>

definition does :: "nat \<Rightarrow> ('a, 's) actions \<Rightarrow> 'a tree list \<Rightarrow> 's pending \<Rightarrow> bool" where
  "does n A ds P \<longleftrightarrow> map (exec n A) ds = rev P"

lemma does_empty [simp]: "does n A [] []" "does n A [] P \<longleftrightarrow> P = []"
  by (auto simp: does_def)

lemma execs_drain: "execs n A ts s = drain (map (exec n A) ts) s"
  by (induction ts arbitrary: s) (auto split: option.splits)

lemma does_drain: "does n A ds P \<Longrightarrow> execs n A (rev ds) s = drain P s"
  by (simp add: execs_drain does_def rev_map [symmetric])

lemma exec_block:
  assumes "does n A l Q"
  shows "exec n A (finish_block d ts (Some l)) s = after (execs n A ts s) (drain Q)"
proof (cases "l = []")
  case True
  with assms show ?thesis
    by (auto simp: finish_block_def c_parser_take_defers_def Let_def after_def split: option.split)
next
  case False
  have "exec n A (T_list (rev l)) = drain Q" using does_drain [OF assms] by (simp add: fun_eq_iff)
  with False show ?thesis
    by (simp add: finish_block_def c_parser_take_defers_def Let_def c_czet_wrap_cleanup_def)
qed

lemma exec_group:
  assumes "does n A l Q"
  shows "exec n A (finish_group ts (Some l)) s =
    (case execs n A ts s of None \<Rightarrow> None | Some (oc, s1) \<Rightarrow> if oc = O_normal then drain Q s1 else Some (oc, s1))"
proof (cases "l = []")
  case True
  with assms show ?thesis
    by (auto simp: finish_group_def c_parser_take_defers_def split: option.split)
next
  case False
  with does_drain [OF assms] show ?thesis
    by (auto simp: finish_group_def c_parser_take_defers_def execs_append split: option.split)
qed

lemma run_may:
  fixes A :: "('a, 's) actions"
  shows "well_placed x \<Longrightarrow> (\<And>j. may j x \<Longrightarrow> J j) \<Longrightarrow> pend J P \<Longrightarrow> run n A x P s = Some (oc, Q, s') \<Longrightarrow>
      pend J Q \<and> (\<forall>j. oc = O_jump j \<longrightarrow> J j) \<and> (plain_stmt x \<longrightarrow> Q = P \<and> (\<forall>j. oc = O_jump j \<longrightarrow> may j x))"
    and "well_placed_list xs \<Longrightarrow> (\<And>x j. x \<in> set xs \<Longrightarrow> may j x \<Longrightarrow> J j) \<Longrightarrow> pend J P \<Longrightarrow> runs n A xs P s = Some (oc, Q, s') \<Longrightarrow>
      pend J Q \<and> (\<forall>j. oc = O_jump j \<longrightarrow> J j)"
proof (induction n A x P s and n A xs P s arbitrary: J oc Q s' and J oc Q s' rule: run_runs.induct)
  case (3 n A c a b P s)
  have "may j a \<or> may j b" if "oc = O_jump j" for j
  proof (cases "ac_test A c s")
    case True
    with 3(6) that have "leave_block (run n A a [] s) = Some (O_jump j, s')" by (simp add: keep_some)
    then have "may j a"
      by (rule leave_may [of "run n A a [] s" j s' "\<lambda>j. may j a", OF disjI1]) (use 3(1) [OF True] 3(3) in auto)
    then show ?thesis ..
  next
    case False
    with 3(6) that have "leave_block (run n A b [] s) = Some (O_jump j, s')" by (simp add: keep_some)
    then have "may j b"
      by (rule leave_may [of "run n A b [] s" j s' "\<lambda>j. may j b", OF disjI1]) (use 3(2) [OF False] 3(3) in auto)
    then show ?thesis ..
  qed
  with 3(4-6) show ?case by (auto simp: keep_some)
next
  case (4 n A c b P s)
  show ?case
  proof (cases "ac_test A c s")
    case True
    with 4(6) obtain m where m: "n = Suc m" by (cases n) auto
    let ?r = "leave_block (run m A b [] s)" and ?loop = "\<lambda>s1. forget (run m A (S_while c b) [] s1)"
    from 4(6) True m have it: "Q = P" "iterate ?r ?loop = Some (oc, s')" by (auto simp: keep_some)
    have "j = J_return \<and> may j b" if "oc = O_jump j" for j
    proof -
      from iterate_jump [of ?r ?loop j s'] it(2) that
      consider "j = J_return" "?r = Some (O_jump J_return, s')" | s1 where "?loop s1 = Some (O_jump j, s')" by auto
      then show ?thesis
      proof cases
        case 1
        have "may J_return b"
          by (rule leave_may [of "run m A b [] s" J_return s' "\<lambda>j. may j b"]) (use 1 4(1) [OF True m] 4(3) in auto)
        with 1 show ?thesis by simp
      next
        case 2
        then obtain Q' where "run m A (S_while c b) [] s1 = Some (O_jump j, Q', s')" by (auto simp: forget_def)
        from 4(2) [OF True m 4(3) TrueI _ this] show ?thesis by (auto simp: pend_def)
      qed
    qed
    with it(1) 4(4,5) show ?thesis by auto
  next
    case False
    with 4(5,6) show ?thesis by auto
  qed
next
  case (5 n A d items P s)
  let ?J = "\<lambda>j. list_ex (may j) items"
  have "pend ?J Q' \<and> (oc' = O_jump j \<longrightarrow> ?J j)" if "runs n A items [] s = Some (oc', Q', s1)" for oc' Q' s1 j
    using 5(1) [of ?J oc' Q' s1] 5(2) that by (auto simp: list_ex_iff)
  with leave_may [of "runs n A items [] s"] 5(3-) show ?case by (auto simp: keep_some)
next
  case (6 n A items P s)
  let ?J = "\<lambda>j. list_ex (may j) items"
  have "pend ?J Q' \<and> (oc' = O_jump j \<longrightarrow> ?J j)" if "runs n A items [] s = Some (oc', Q', s1)" for oc' Q' s1 j
    using 6(1) [of ?J oc' Q' s1] 6(2) that by (auto simp: list_ex_iff)
  with leave_may [of "runs n A items [] s"] 6(3-) show ?case by (auto simp: keep_some)
next
  case (7 n A d items P s)
  have "J j" if "leave_block (runs n A items [] s1) = Some (O_jump j, s2)" for s1 j s2
  proof (rule leave_may [OF disjI1 [OF that]])
    fix oc Q s3 j
    assume "runs n A items [] s1 = Some (oc, Q, s3)"
    from 7(1) [OF _ _ _ this, of J] 7(2,3) show "pend J Q \<and> (oc = O_jump j \<longrightarrow> J j)" by (auto simp: list_ex_iff)
  qed
  with 7(4,5) show ?case by (auto simp: pend_Cons)
next
  case (8 n A P s)
  with drain_may show ?case by (fastforce simp: keep_some)
next
  case (10 n A x xs P s)
  from 10(6) obtain oc1 Q1 s1 where x: "run n A x P s = Some (oc1, Q1, s1)" by (auto split: option.splits)
  with 10(1) [of J oc1 Q1 s1] 10(3-5) have q: "pend J Q1" "\<forall>j. oc1 = O_jump j \<longrightarrow> J j" by auto
  show ?case
  proof (cases "oc1 = O_normal")
    case True
    with 10(2) [OF x refl refl True, of J oc Q s'] 10(3,4,6) x q show ?thesis by auto
  next
    case False
    with x q 10(6) show ?thesis by auto
  qed
qed auto

lemma block_step:
  assumes "execs n A ts s = forget r" "\<And>oc Q s'. r = Some (oc, Q, s') \<Longrightarrow> does n A l Q"
  shows "exec n A (finish_block d ts (Some l)) s = leave_block r" "exec n A (finish_group ts (Some l)) s = leave_group r"
proof -
  have d: "does n A l (rev (map (exec n A) l))" by (simp add: does_def)
  show "exec n A (finish_block d ts (Some l)) s = leave_block r"
  proof (cases r)
    case None
    with assms(1) exec_block [OF d] show ?thesis by (simp add: leave_block_def forget_def after_def)
  next
    case (Some q)
    obtain oc Q s' where q: "q = (oc, Q, s')" by (cases q)
    from exec_block [OF assms(2) [OF Some [unfolded q]]] assms(1) Some q show ?thesis by (simp add: leave_block_def forget_def)
  qed
  show "exec n A (finish_group ts (Some l)) s = leave_group r"
  proof (cases r)
    case None
    with assms(1) exec_group [OF d] show ?thesis by (simp add: leave_group_def forget_def)
  next
    case (Some q)
    obtain oc Q s' where q: "q = (oc, Q, s')" by (cases q)
    from exec_group [OF assms(2) [OF Some [unfolded q]]] assms(1) Some q show ?thesis by (simp add: leave_group_def forget_def)
  qed
qed

lemma forget_keep [simp]: "forget (keep P r) = r"
  by (cases r) (auto simp: forget_def keep_def)

text \<open>A plain substatement leaves nothing pending.\<close>

lemma leave_plain:
  assumes "well_placed x" "plain_stmt x"
  shows "leave_block (run n A x [] s) = forget (run n A x [] s)"
proof (cases "run n A x [] s")
  case (Some q)
  obtain oc Q s' where q: "q = (oc, Q, s')" by (cases q)
  from run_may(1) [OF assms(1), of "\<lambda>j. True" "[]" n A s oc Q s'] assms(2) Some q have "Q = []" by simp
  with Some q show ?thesis by (simp add: leave_block_def forget_def after_def)
qed (simp add: leave_block_def forget_def)

lemma run_parse:
  fixes A :: "('a, 's) actions"
  shows "well_placed x \<Longrightarrow> does n A ds P \<Longrightarrow> c_parser_statement_after_labels x (Some ds) = (ts, Some l, es) \<Longrightarrow>
      execs n A ts s = forget (run n A x P s) \<and> (\<forall>oc Q s'. run n A x P s = Some (oc, Q, s') \<longrightarrow> does n A l Q)"
    and "well_placed_list xs \<Longrightarrow> does n A ds P \<Longrightarrow> c_parser_compound_statement_nostart xs (Some ds) = (ts, Some l, es) \<Longrightarrow>
      execs n A ts s = forget (runs n A xs P s) \<and> (\<forall>oc Q s'. runs n A xs P s = Some (oc, Q, s') \<longrightarrow> does n A l Q)"
proof (induction n A x P s and n A xs P s arbitrary: ds ts l es and ds ts l es rule: run_runs.induct)
  case (3 n A c a b P s)
  from 3(3) parse_plain [of a] parse_plain [of b] obtain ta tb where
    p: "\<forall>ds. c_parser_statement_after_labels a (Some ds) = (ta, Some ds, [])"
      "\<forall>ds. c_parser_statement_after_labels b (Some ds) = (tb, Some ds, [])" by auto
  have "exec n A (T_if c (T_list ta) (T_list tb)) s = (if ac_test A c s then leave_block (run n A a [] s) else leave_block (run n A b [] s))"
    using 3(1) [of "[]" ta "[]" "[]"] 3(2) [of "[]" tb "[]" "[]"] 3(3) p by (simp add: leave_plain)
  then show ?case using 3(4,5) p by (auto simp: keep_some split: option.splits)
next
  case (4 n A c b P s)
  from 4(3) parse_plain [of b] obtain tb where p: "\<forall>ds. c_parser_statement_after_labels b (Some ds) = (tb, Some ds, [])" by auto
  then have parse: "c_parser_statement_after_labels (S_while c b) (Some ds) = ([T_while c (T_list tb)], Some ds, [])" for ds by simp
  have "exec n A (T_while c (T_list tb)) s = forget (run n A (S_while c b) P s)"
  proof (cases "ac_test A c s")
    case True
    show ?thesis
    proof (cases n)
      case (Suc m)
      have body: "exec m A (T_list tb) s = leave_block (run m A b [] s)"
        using 4(1) [OF True Suc, of "[]" tb "[]" "[]"] 4(3) p by (simp add: leave_plain)
      have "exec m A (T_while c (T_list tb)) s1 = forget (run m A (S_while c b) [] s1)" for s1
        by (rule conjunct1 [OF 4(2) [OF True Suc 4(3) does_empty(1) parse], unfolded execs_single])
      then have "exec m A (T_while c (T_list tb)) = (\<lambda>s1. forget (run m A (S_while c b) [] s1))" by (rule ext)
      with body True Suc show ?thesis by simp
    qed (use True in \<open>simp add: forget_def\<close>)
  qed (simp add: forget_def)
  moreover have "Q = P" if "run n A (S_while c b) P s = Some (oc, Q, s')" for oc Q s'
    using that by (auto simp: keep_some split: nat.splits if_splits)
  moreover have "ts = [T_while c (T_list tb)]" "l = ds" using 4(5) parse [of ds] by simp_all
  ultimately show ?case using 4(4) execs_single by metis
next
  case (5 n A d items P s)
  obtain us k where u: "c_parser_compound_statement_nostart items (Some []) = (us, Some k, [])"
    using parse_some(2) 5(2) by fastforce
  with 5(1) [of "[]" us k "[]"] 5(2) have "exec n A (finish_block d us (Some k)) s = leave_block (runs n A items [] s)"
    by (intro block_step) auto
  with u 5(3,4) show ?case by (auto simp: keep_some split: option.splits)
next
  case (6 n A items P s)
  obtain us k where u: "c_parser_compound_statement_nostart items (Some []) = (us, Some k, [])"
    using parse_some(2) 6(2) by fastforce
  with 6(1) [of "[]" us k "[]"] 6(2) have "exec n A (finish_group us (Some k)) s = leave_group (runs n A items [] s)"
    by (intro block_step) auto
  with u 6(3,4) show ?case by (auto simp: keep_some split: option.splits)
next
  case (7 n A d items P s)
  obtain us k where u: "c_parser_compound_statement_nostart items (Some []) = (us, Some k, [])"
    using parse_some(2) 7(2) by fastforce
  have "exec n A (finish_block d us (Some k)) s1 = leave_block (runs n A items [] s1)" for s1
    using 7(1) [OF _ _ u] 7(2) by (intro block_step) auto
  then have "exec n A (finish_block d us (Some k)) = (\<lambda>s1. leave_block (runs n A items [] s1))" by (rule ext)
  with u 7(3,4) show ?case by (auto simp: does_def forget_def)
next
  case (8 n A P s)
  then show ?case using does_drain [OF 8(2)] by (auto simp: c_parser_flush_defers_def keep_some split: if_splits)
next
  case (10 n A x xs P s)
  from 10(3) parse_some(1) [of x] obtain tx k where x: "c_parser_statement_after_labels x (Some ds) = (tx, Some k, [])" by fastforce
  from 10(3) parse_some(2) [of xs] obtain us k' where xs: "c_parser_compound_statement_nostart xs (Some k) = (us, Some k', [])" by fastforce
  from x xs 10(5) have ts: "ts = tx @ us" "l = k'" by auto
  from 10(1) [OF _ 10(4) x] 10(3) have rx: "execs n A tx s = forget (run n A x P s)"
    "\<And>oc Q s'. run n A x P s = Some (oc, Q, s') \<Longrightarrow> does n A k Q" by auto
  show ?case
  proof (cases "run n A x P s")
    case None
    with rx ts show ?thesis by (simp add: execs_append forget_def)
  next
    case (Some q)
    obtain oc1 Q1 s1 where q: "q = (oc1, Q1, s1)" by (cases q)
    note r1 = Some [unfolded q]
    show ?thesis
    proof (cases "oc1 = O_normal")
      case True
      from 10(2) [OF r1 refl refl True _ rx(2) [OF r1] xs] 10(3) True r1 rx(1) ts show ?thesis
        by (auto simp: execs_append forget_def)
    next
      case False
      then obtain j where j: "oc1 = O_jump j" by (cases oc1) auto
      have "jumps_now x"
      proof (cases "plain_stmt x")
        case True
        with run_may(1) [of x "\<lambda>j. True" P n A s oc1 Q1 s1] 10(3) r1 j have "may j x" by (simp add: pend_def)
        with True show ?thesis by (cases j) (auto simp: jumps_now_def)
      next
        case False
        then show ?thesis using r1 j by (cases x) (auto simp: jumps_now_def)
      qed
      with 10(3) have "list_all plain_stmt xs" by simp
      with parse_plain_list [of xs] 10(3) xs have "k' = k" by fastforce
      with False r1 rx ts show ?thesis by (auto simp: execs_append forget_def)
    qed
  qed
qed (auto simp: forget_def)

text \<open>
  C8. A function body in which \<open>defer\<close> is well placed does what it means: on every way out of a block the
  cleanups reached so far run, the last one first, and \<open>defer;\<close> runs them early; parsing reports nothing.
\<close>

theorem defer_block_refines:
  assumes "well_placed_list items"
  shows "snd (c_parser_compound_statement d items) = []
    \<and> exec n A (fst (c_parser_compound_statement d items)) s = leave_block (runs n A items [] s)"
proof -
  obtain ts l where p: "c_parser_compound_statement_nostart items (Some []) = (ts, Some l, [])"
    using parse_some(2) [OF assms] by blast
  from run_parse(2) [where n = n and A = A and s = s, OF assms does_empty(1) p] have "exec n A (finish_block d ts (Some l)) s = leave_block (runs n A items [] s)"
    by (intro block_step) auto
  with p show ?thesis by (simp add: c_parser_compound_statement_def)
qed

text \<open>
  A jump between \<open>defer\<close> and \<open>defer;\<close> skips the cleanup for good: it is not run at the early exit, since
  \<open>defer;\<close> has taken it out of the block's cleanup.
\<close>

theorem defer_now_loses_cleanup:
  assumes "ac_test A c s"
  shows "exec n A (fst (c_parser_compound_statement d [S_defer d' body, S_if c (S_jump J_return) (S_block False []), S_now])) s
      = Some (O_jump J_return, s)
    \<and> leave_block (runs n A [S_defer d' body, S_if c (S_jump J_return) (S_block False []), S_now] [] s)
      = after (Some (O_jump J_return, s)) (\<lambda>s1. leave_block (runs n A body [] s1))"
proof
  let ?items = "[S_defer d' body, S_if c (S_jump J_return) (S_block False []), S_now]"
  obtain ts ds es where b: "c_parser_compound_statement_nostart body (Some []) = (ts, ds, es)"
    by (cases "c_parser_compound_statement_nostart body (Some [])") auto
  have "fst (c_parser_compound_statement d ?items) = finish_block d
      [T_if c (T_list [T_jump J_return]) (T_list [finish_block False [] (Some [])]), finish_block d' ts ds] (Some [])"
    by (simp add: c_parser_compound_statement_def b c_parser_flush_defers_def)
  then show "exec n A (fst (c_parser_compound_statement d ?items)) s = Some (O_jump J_return, s)"
    using assms by (simp add: exec_block after_def)
  show "leave_block (runs n A ?items [] s) = after (Some (O_jump J_return, s)) (\<lambda>s1. leave_block (runs n A body [] s1))"
    using assms by (simp add: leave_block_def after_def keep_def split: option.split)
qed

text \<open>
  A cleanup that stands after an early exit of its block runs at that exit all the same, although control never
  came to its \<open>defer\<close>; by the meaning of the statements nothing is pending there.
\<close>

theorem defer_runs_before_reached:
  assumes "ac_test A c s" "well_placed_list body"
  shows "exec n A (fst (c_parser_compound_statement d [S_if c (S_jump J_return) (S_block False []), S_defer d' body])) s
    = after (Some (O_jump J_return, s)) (\<lambda>s1. leave_block (runs n A body [] s1))
    \<and> leave_block (runs n A [S_if c (S_jump J_return) (S_block False []), S_defer d' body] [] s) = Some (O_jump J_return, s)"
proof -
  obtain ts l where p: "c_parser_compound_statement_nostart body (Some []) = (ts, Some l, [])"
    using parse_some(2) [OF assms(2)] by blast
  have "exec n A (finish_block d' ts (Some l)) s1 = leave_block (runs n A body [] s1)" for s1
    using run_parse(2) [where n = n and A = A and s = s1, OF assms(2) does_empty(1) p] by (intro block_step) auto
  then have "does n A [finish_block d' ts (Some l)] [\<lambda>s1. leave_block (runs n A body [] s1)]" by (auto simp: does_def)
  from exec_block [OF this] p assms(1) show ?thesis
    by (simp add: c_parser_compound_statement_def after_def leave_block_def keep_def split: option.split)
qed

subsection \<open>A concrete block\<close>

definition example_log :: "(char, string) actions" where
  "example_log = \<lparr>ac_do = (\<lambda>a s. s @ [a]), ac_test = (\<lambda>a s. True)\<rparr>"

theorem defer_block_refines_witness:
  "exec 1 example_log (fst (c_parser_compound_statement True
     [S_defer False [S_simple CHR ''A''], S_defer False [S_simple CHR ''B''], S_if CHR ''c'' (S_jump J_return) (S_simple CHR ''M'')])) []
   = Some (O_jump J_return, ''BA'')"
  using defer_block_refines [of "[S_defer False [S_simple CHR ''A''], S_defer False [S_simple CHR ''B''], S_if CHR ''c'' (S_jump J_return) (S_simple CHR ''M'')]"
      True 1 example_log "[]"]
  by (simp add: example_log_def leave_block_def after_def keep_def jumps_now_def)

theorem defer_now_loses_cleanup_witness:
  "exec 1 example_log (fst (c_parser_compound_statement True
     [S_defer False [S_simple CHR ''A''], S_if CHR ''c'' (S_jump J_return) (S_block False []), S_now])) [] = Some (O_jump J_return, [])
   \<and> leave_block (runs 1 example_log [S_defer False [S_simple CHR ''A''], S_if CHR ''c'' (S_jump J_return) (S_block False []), S_now] [] [])
     = Some (O_jump J_return, ''A'')"
  using defer_now_loses_cleanup [of example_log "CHR ''c''" "[]" 1 True False "[S_simple CHR ''A'']"]
  by (simp add: example_log_def leave_block_def after_def)

theorem defer_runs_before_reached_witness:
  "exec 1 example_log (fst (c_parser_compound_statement True
     [S_if CHR ''c'' (S_jump J_return) (S_block False []), S_defer False [S_simple CHR ''A'']])) [] = Some (O_jump J_return, ''A'')"
  using defer_runs_before_reached [of example_log "CHR ''c''" "[]" "[S_simple CHR ''A'']" 1 True False]
  by (simp add: example_log_def leave_block_def after_def)

end
