(* ===== verification/Posix.thy ===== *)
theory Posix
  imports Czet_Prelude
begin

text \<open>
  What the library headers and the driver use of the operating system.  The kernel is a parameter of every routine:
  a record of functions on a state that is left abstract, one for the calls that change the state and one for
  each kind of question.
\<close>

datatype errno = EINTR | EPIPE | ECONNRESET | ECONNREFUSED | EINVAL | ENAMETOOLONG | EIO | EEXIST | ENOENT | E_other nat | E_none

datatype sysop =
    Sys_mkdir string
  | Sys_rmdir string
  | Sys_unlink string
  | Sys_symlink string string
  | Sys_rename string string
  | Sys_open string
  | Sys_write string "u8 list"
  | Sys_close string

text \<open>\<open>Sys_open\<close> creates or truncates; an open file is known by its path.  A result is a count or an error.\<close>

datatype sysres = S_ok nat | S_err errno

record 'k kernel =
  k_call :: "sysop \<Rightarrow> 'k \<Rightarrow> sysres \<times> 'k"
  k_lstat :: "string \<Rightarrow> 'k \<Rightarrow> bool option"
  k_list :: "string \<Rightarrow> 'k \<Rightarrow> string list option"
  k_read :: "string \<Rightarrow> 'k \<Rightarrow> u8 list option"
  k_mkdtemp :: "string \<Rightarrow> 'k \<Rightarrow> string option \<times> 'k"

text \<open>Bytes up to the first zero, as a C string.\<close>

definition cstr :: "u8 list \<Rightarrow> string" where
  "cstr bs = map (\<lambda>b. char_of (unat b)) (takeWhile (\<lambda>b. b \<noteq> 0) bs)"

definition byte_of :: "char \<Rightarrow> u8" where
  "byte_of c = of_nat (of_char c)"

lemma unat_byte_of [simp]: "unat (byte_of c) = of_char c"
proof -
  have "(of_char c :: nat) < 256" by simp
  then show ?thesis unfolding byte_of_def by (simp add: unat_of_nat take_bit_eq_mod)
qed

lemma byte_of_zero [simp]: "byte_of c = 0 \<longleftrightarrow> c = CHR 0x00"
proof
  assume "byte_of c = 0"
  then have "(of_char c :: nat) = of_char (CHR 0x00)" using unat_byte_of [of c] by simp
  then show "c = CHR 0x00" by (simp only: of_char_eq_iff)
qed (simp add: byte_of_def)

lemma byte_of_inject [simp]: "byte_of c = byte_of d \<longleftrightarrow> c = d"
  by (metis of_char_eq_iff unat_byte_of)

text \<open>A string in a field padded with zeros.\<close>

lemma cstr_field:
  assumes "CHR 0x00 \<notin> set s"
  shows "cstr (map byte_of s @ replicate n 0) = s"
proof -
  have "takeWhile (\<lambda>b. b \<noteq> 0) (map byte_of s @ replicate n 0) = map byte_of s"
    using assms by (subst takeWhile_append2) auto
  then show ?thesis by (simp add: cstr_def map_idI)
qed

end
