(* ===== verification/Sockets.thy ===== *)
theory Sockets
  imports Posix
begin

text \<open>
  Stream sockets, stdlib/utils/ipc.h and stdlib/utils/server.h.  The kernel is a parameter: the results of
  its calls, in order.  The sending and receiving loops have no bound in the source, since they retry
  interrupted calls; they run over the list of results and give \<open>None\<close> when it ends, which is a call that
  has not returned.  Opening and closing leave a trace of the descriptors and of the path.  A C string
  or pointer that may be \<^verbatim>\<open>NULL\<close> is an option.
\<close>

subsection \<open>Kernel results and traces\<close>

text \<open>A call fails with an error or moves some bytes.\<close>

datatype io_result = IO_error errno | IO_bytes nat

datatype fd_event = Ev_open int | Ev_close int | Ev_bind string | Ev_unlink string

text \<open>The descriptors open after a trace, and that none is closed that is not open.\<close>

fun open_fds :: "fd_event list \<Rightarrow> int set \<Rightarrow> int set" where
  "open_fds [] S = S"
| "open_fds (Ev_open fd # es) S = open_fds es (insert fd S)"
| "open_fds (Ev_close fd # es) S = open_fds es (S - {fd})"
| "open_fds (_ # es) S = open_fds es S"

fun closes_ok :: "fd_event list \<Rightarrow> int set \<Rightarrow> bool" where
  "closes_ok [] S \<longleftrightarrow> True"
| "closes_ok (Ev_open fd # es) S \<longleftrightarrow> fd \<notin> S \<and> closes_ok es (insert fd S)"
| "closes_ok (Ev_close fd # es) S \<longleftrightarrow> fd \<in> S \<and> closes_ok es (S - {fd})"
| "closes_ok (_ # es) S \<longleftrightarrow> closes_ok es S"

subsection \<open>Sending and receiving\<close>

text \<open>
  The loop of \<^verbatim>\<open>ipc_send_all\<close> and \<^verbatim>\<open>tcp_send_all\<close>: return code, error number, bytes handed to the kernel.  The
  kernel takes at most what it is given.
\<close>

fun send_all :: "io_result list \<Rightarrow> u8 list \<Rightarrow> (int \<times> errno \<times> u8 list) option" where
  "send_all rs [] = Some (0, E_none, [])"
| "send_all [] (b # bs) = None"
| "send_all (IO_error e # rs) (b # bs) = (if e = EINTR then send_all rs (b # bs) else Some (-1, e, []))"
| "send_all (IO_bytes w # rs) (b # bs) =
     (if w = 0 then Some (-1, EPIPE, [])
      else map_option (\<lambda>(rc, e, out). (rc, e, take w (b # bs) @ out)) (send_all rs (drop w (b # bs))))"

text \<open>
  The loop of \<^verbatim>\<open>ipc_recv_all\<close> and \<^verbatim>\<open>tcp_recv_all\<close> for \<open>len\<close> bytes from the stream: return code, error number, the
  bytes stored and the stream left.  A result of no bytes is the end of the stream.
\<close>

fun recv_all :: "io_result list \<Rightarrow> nat \<Rightarrow> u8 list \<Rightarrow> (int \<times> errno \<times> u8 list \<times> u8 list) option" where
  "recv_all rs 0 stream = Some (0, E_none, [], stream)"
| "recv_all [] (Suc n) stream = None"
| "recv_all (IO_error e # rs) (Suc n) stream =
     (if e = EINTR then recv_all rs (Suc n) stream else Some (-1, e, [], stream))"
| "recv_all (IO_bytes r # rs) (Suc n) stream =
     (let k = min r (min (Suc n) (length stream)) in
      if k = 0 then Some (-1, ECONNRESET, [], stream)
      else map_option (\<lambda>(rc, e, got, left). (rc, e, take k stream @ got, left)) (recv_all rs (Suc n - k) (drop k stream)))"

subsection \<open>Unix sockets\<close>

record ipc_kernel =
  ik_socket :: "errno + int"
  ik_bind :: "errno option"
  ik_listen :: "errno option"
  ik_accept :: "errno + int"

text \<open>Return code, error number, what is stored in the two descriptor variables, trace.\<close>

record ipc_result =
  ir_rc :: int
  ir_errno :: errno
  ir_server :: "int option"
  ir_client :: "int option"
  ir_trace :: "fd_event list"

definition ipc_fail :: "errno \<Rightarrow> int option \<Rightarrow> int option \<Rightarrow> fd_event list \<Rightarrow> ipc_result" where
  "ipc_fail e s c tr = \<lparr>ir_rc = -1, ir_errno = e, ir_server = s, ir_client = c, ir_trace = tr\<rparr>"

text \<open>\<open>cap\<close> is the size of \<^verbatim>\<open>sun_path\<close>.\<close>

definition ipc_server_open :: "nat \<Rightarrow> ipc_kernel \<Rightarrow> string option \<Rightarrow> bool \<Rightarrow> bool \<Rightarrow> ipc_result" where
  "ipc_server_open cap K path has_server has_client =
     (case path of
        None \<Rightarrow> ipc_fail EINVAL None None []
      | Some p \<Rightarrow>
          if \<not> has_server \<or> \<not> has_client then ipc_fail EINVAL None None []
          else if length p = 0 \<or> cap \<le> length p then ipc_fail ENAMETOOLONG None None []
          else
            (case ik_socket K of
               Inl e \<Rightarrow> ipc_fail e (Some (-1)) None []
             | Inr fd \<Rightarrow>
                 let tr = [Ev_open fd, Ev_unlink p] in
                 (case ik_bind K of
                    Some e \<Rightarrow> ipc_fail e (Some fd) None (tr @ [Ev_close fd])
                  | None \<Rightarrow>
                      (case ik_listen K of
                         Some e \<Rightarrow> ipc_fail e (Some fd) None (tr @ [Ev_bind p, Ev_close fd, Ev_unlink p])
                       | None \<Rightarrow>
                           (case ik_accept K of
                              Inl e \<Rightarrow> ipc_fail e (Some fd) (Some (-1)) (tr @ [Ev_bind p, Ev_close fd, Ev_unlink p])
                            | Inr c \<Rightarrow> \<lparr>ir_rc = 0, ir_errno = E_none, ir_server = Some fd, ir_client = Some c,
                                        ir_trace = tr @ [Ev_bind p, Ev_open c]\<rparr>)))))"

definition close_one :: "int option \<Rightarrow> int option \<times> fd_event list" where
  "close_one v = (case v of None \<Rightarrow> (None, []) | Some fd \<Rightarrow> if 0 \<le> fd then (Some (-1), [Ev_close fd]) else (Some fd, []))"

text \<open>The client is closed first; the new values of server and client, and the trace.\<close>

definition ipc_server_close :: "string option \<Rightarrow> int option \<Rightarrow> int option \<Rightarrow> int \<times> int option \<times> int option \<times> fd_event list" where
  "ipc_server_close path server client =
     (case close_one client of (c, tr1) \<Rightarrow> case close_one server of (s, tr2) \<Rightarrow>
        (0, s, c, tr1 @ tr2 @ (case path of None \<Rightarrow> [] | Some p \<Rightarrow> [Ev_unlink p])))"

definition ipc_client_open :: "nat \<Rightarrow> (errno + int) \<Rightarrow> errno option \<Rightarrow> string option \<Rightarrow> bool \<Rightarrow> ipc_result" where
  "ipc_client_open cap sock conn path has_fd =
     (case path of
        None \<Rightarrow> ipc_fail EINVAL None None []
      | Some p \<Rightarrow>
          if \<not> has_fd then ipc_fail EINVAL None None []
          else if length p = 0 \<or> cap \<le> length p then ipc_fail ENAMETOOLONG None None []
          else
            (case sock of
               Inl e \<Rightarrow> ipc_fail e None (Some (-1)) []
             | Inr fd \<Rightarrow>
                 (case conn of
                    Some e \<Rightarrow> ipc_fail e None (Some fd) [Ev_open fd, Ev_close fd]
                  | None \<Rightarrow> \<lparr>ir_rc = 0, ir_errno = E_none, ir_server = None, ir_client = Some fd, ir_trace = [Ev_open fd]\<rparr>)))"

definition ipc_client_close :: "int option \<Rightarrow> int \<times> int option \<times> fd_event list" where
  "ipc_client_close fd = (case close_one fd of (v, tr) \<Rightarrow> (0, v, tr))"

subsection \<open>TCP\<close>

text \<open>
  For each address of \<^verbatim>\<open>getaddrinfo\<close>: the socket, and whether it could be bound and put to listen, or connected.
  The value of \<^verbatim>\<open>errno\<close> after the loop is a parameter, since \<^verbatim>\<open>close\<close> and \<^verbatim>\<open>freeaddrinfo\<close> may change it.
\<close>

fun addr_loop :: "((errno + int) \<times> bool) list \<Rightarrow> int \<times> fd_event list" where
  "addr_loop [] = (-1, [])"
| "addr_loop ((Inl e, ok) # as) = addr_loop as"
| "addr_loop ((Inr fd, ok) # as) =
     (if ok then (fd, [Ev_open fd])
      else (case addr_loop as of (r, tr) \<Rightarrow> (r, Ev_open fd # Ev_close fd # tr)))"

definition tcp_listen :: "((errno + int) \<times> bool) list option \<Rightarrow> errno \<Rightarrow> string option \<Rightarrow> int \<times> errno \<times> fd_event list" where
  "tcp_listen addrs err port =
     (case port of
        None \<Rightarrow> (-1, EINVAL, [])
      | Some _ \<Rightarrow>
          (case addrs of
             None \<Rightarrow> (-1, EIO, [])
           | Some as \<Rightarrow> (case addr_loop as of (fd, tr) \<Rightarrow> (fd, if fd < 0 \<and> err = E_none then EIO else err, tr))))"

definition tcp_connect :: "((errno + int) \<times> bool) list option \<Rightarrow> errno \<Rightarrow> string option \<Rightarrow> string option \<Rightarrow> int \<times> errno \<times> fd_event list" where
  "tcp_connect addrs err host port =
     (if host = None \<or> port = None then (-1, EINVAL, [])
      else
        (case addrs of
           None \<Rightarrow> (-1, EIO, [])
         | Some as \<Rightarrow> (case addr_loop as of (fd, tr) \<Rightarrow> (fd, if fd < 0 \<and> err = E_none then ECONNREFUSED else err, tr))))"

text \<open>The loop retries interrupted calls.\<close>

fun tcp_accept :: "(errno + int) list \<Rightarrow> (int \<times> errno \<times> fd_event list) option" where
  "tcp_accept [] = None"
| "tcp_accept (Inr fd # rs) = Some (fd, E_none, [Ev_open fd])"
| "tcp_accept (Inl e # rs) = (if e = EINTR then tcp_accept rs else Some (-1, e, []))"

definition tcp_close :: "int \<Rightarrow> int \<times> fd_event list" where
  "tcp_close fd = (0, if 0 \<le> fd then [Ev_close fd] else [])"

text \<open>The four routines of the two headers are these loops.\<close>

definition ipc_send_all :: "io_result list \<Rightarrow> u8 list \<Rightarrow> (int \<times> errno \<times> u8 list) option" where
  "ipc_send_all = send_all"

definition ipc_recv_all :: "io_result list \<Rightarrow> nat \<Rightarrow> u8 list \<Rightarrow> (int \<times> errno \<times> u8 list \<times> u8 list) option" where
  "ipc_recv_all = recv_all"

definition tcp_send_all :: "io_result list \<Rightarrow> u8 list \<Rightarrow> (int \<times> errno \<times> u8 list) option" where
  "tcp_send_all = send_all"

definition tcp_recv_all :: "io_result list \<Rightarrow> nat \<Rightarrow> u8 list \<Rightarrow> (int \<times> errno \<times> u8 list \<times> u8 list) option" where
  "tcp_recv_all = recv_all"

text \<open>
  The port of a bound socket; \<open>name\<close> is the numeric service name, absent when \<^verbatim>\<open>getsockname\<close> or \<^verbatim>\<open>getnameinfo\<close>
  fails.  Of \<^verbatim>\<open>sscanf\<close> the model reads the leading digits, which is all a numeric name has.
\<close>

definition scan_digits :: "string \<Rightarrow> int option" where
  "scan_digits s =
     (let ds = takeWhile is_digit s in
      if ds = [] then None else Some (foldl (\<lambda>n c. 10 * n + (int (of_char c) - 48)) 0 ds))"

definition tcp_port :: "string option \<Rightarrow> int" where
  "tcp_port name = (case name of None \<Rightarrow> -1 | Some s \<Rightarrow> (case scan_digits s of None \<Rightarrow> -1 | Some p \<Rightarrow> p))"

subsection \<open>Transfers\<close>

text \<open>Results that retry or make progress, with at least \<open>n\<close> of the latter.\<close>

fun moving :: "nat \<Rightarrow> io_result list \<Rightarrow> bool" where
  "moving n [] \<longleftrightarrow> n = 0"
| "moving n (IO_error e # rs) \<longleftrightarrow> e = EINTR \<and> moving n rs"
| "moving n (IO_bytes w # rs) \<longleftrightarrow> 0 < w \<and> moving (n - 1) rs"

lemma moving_mono: "moving n rs \<Longrightarrow> m \<le> n \<Longrightarrow> moving m rs"
proof (induction n rs arbitrary: m rule: moving.induct)
  case (3 n w rs)
  then show ?case by (auto simp: diff_le_mono)
qed auto

lemma send_all_complete: "moving (length buf) rs \<Longrightarrow> send_all rs buf = Some (0, E_none, buf)"
proof (induction rs buf rule: send_all.induct)
  case (4 w rs b bs)
  then have "moving (length (drop w (b # bs))) rs" by (auto elim!: moving_mono)
  with 4 show ?case by (simp add: append_take_drop_id del: drop_Cons' take_Cons')
qed auto

lemma recv_all_complete:
  "moving n rs \<Longrightarrow> n \<le> length stream \<Longrightarrow> recv_all rs n stream = Some (0, E_none, take n stream, drop n stream)"
proof (induction rs n stream rule: recv_all.induct)
  case (4 r rs n stream)
  let ?k = "min r (min (Suc n) (length stream))"
  from 4(2,3) have k: "0 < ?k" "?k \<le> Suc n" by auto
  have "Suc n - ?k \<le> n" using k(1) by linarith
  then have p: "moving (Suc n - ?k) rs" using 4(2) moving_mono [of n rs "Suc n - ?k"] by simp
  have "recv_all rs (Suc n - ?k) (drop ?k stream)
      = Some (0, E_none, take (Suc n - ?k) (drop ?k stream), drop (Suc n - ?k) (drop ?k stream))"
    using 4(1) [OF refl _ p] 4(3) k by simp
  moreover have "take ?k stream @ take (Suc n - ?k) (drop ?k stream) = take (Suc n) stream"
    using k(2) by (metis le_add_diff_inverse take_add)
  moreover have "drop (Suc n - ?k) (drop ?k stream) = drop (Suc n) stream" using k(2) by simp
  ultimately show ?case using k(1) by (simp add: Let_def del: min_less_iff_conj)
qed auto

text \<open>
  Both headers offer the same byte stream.  A client that sends messages of known sizes one after the other and
  receives them in that order relies on two laws only.
\<close>

locale byte_stream =
  fixes send :: "io_result list \<Rightarrow> u8 list \<Rightarrow> (int \<times> errno \<times> u8 list) option"
    and recv :: "io_result list \<Rightarrow> nat \<Rightarrow> u8 list \<Rightarrow> (int \<times> errno \<times> u8 list \<times> u8 list) option"
  assumes send_complete: "moving (length buf) rs \<Longrightarrow> send rs buf = Some (0, E_none, buf)"
    and recv_complete: "moving n rs \<Longrightarrow> n \<le> length stream \<Longrightarrow> recv rs n stream = Some (0, E_none, take n stream, drop n stream)"
begin

lemma transfer:
  assumes "moving (length buf) rs" "moving (length buf) rs'"
  shows "\<exists>out. send rs buf = Some (0, E_none, out) \<and> recv rs' (length buf) (out @ later) = Some (0, E_none, buf, later)"
  using send_complete [OF assms(1)] recv_complete [OF assms(2), of "buf @ later"] by simp

end

text \<open>The stream after sending messages, and the messages of given sizes received from a stream; \<open>None\<close> when a call fails.\<close>

fun send_each :: "(io_result list \<Rightarrow> u8 list \<Rightarrow> (int \<times> errno \<times> u8 list) option) \<Rightarrow> (io_result list \<times> u8 list) list \<Rightarrow> u8 list option" where
  "send_each send [] = Some []"
| "send_each send ((rs, buf) # ms) =
     (case send rs buf of
        None \<Rightarrow> None
      | Some (rc, e, out) \<Rightarrow> if rc = 0 then map_option ((@) out) (send_each send ms) else None)"

fun recv_each :: "(io_result list \<Rightarrow> nat \<Rightarrow> u8 list \<Rightarrow> (int \<times> errno \<times> u8 list \<times> u8 list) option) \<Rightarrow> (io_result list \<times> nat) list
    \<Rightarrow> u8 list \<Rightarrow> (u8 list list \<times> u8 list) option" where
  "recv_each recv [] stream = Some ([], stream)"
| "recv_each recv ((rs, n) # ns) stream =
     (case recv rs n stream of
        None \<Rightarrow> None
      | Some (rc, e, got, left) \<Rightarrow> if rc = 0 then map_option (apfst ((#) got)) (recv_each recv ns left) else None)"

context byte_stream
begin

lemma send_each_complete:
  "list_all (\<lambda>(rs, buf). moving (length buf) rs) ms \<Longrightarrow> send_each send ms = Some (concat (map snd ms))"
proof (induction ms)
  case (Cons m ms)
  then show ?case by (cases m) (simp add: send_complete)
qed simp

lemma recv_each_complete:
  "list_all2 (\<lambda>(rs, n) buf. n = length buf \<and> moving n rs) ns bufs
    \<Longrightarrow> recv_each recv ns (concat bufs @ later) = Some (bufs, later)"
proof (induction ns bufs rule: list_all2_induct)
  case (Cons a as b bs)
  then show ?case by (cases a) (simp add: recv_complete)
qed simp

lemma messages:
  assumes "list_all (\<lambda>(rs, buf). moving (length buf) rs) ms"
    "list_all2 (\<lambda>(rs, n) buf. n = length buf \<and> moving n rs) ns (map snd ms)"
  shows "\<exists>out. send_each send ms = Some out \<and> recv_each recv ns (out @ later) = Some (map snd ms, later)"
  using send_each_complete [OF assms(1)] recv_each_complete [OF assms(2)] by simp

end

interpretation ipc_stream: byte_stream ipc_send_all ipc_recv_all
  by unfold_locales (simp_all add: ipc_send_all_def ipc_recv_all_def send_all_complete recv_all_complete)

interpretation tcp_stream: byte_stream tcp_send_all tcp_recv_all
  by unfold_locales (simp_all add: tcp_send_all_def tcp_recv_all_def send_all_complete recv_all_complete)

text \<open>
  Messages cross both kinds of stream: when the calls of both sides are interrupted or make progress, then however
  the bytes are cut into pieces, every send returns 0 and every receive returns 0 with exactly the next
  message, and what was sent after them stays in the stream.
\<close>

theorem stream_transfer:
  assumes "list_all (\<lambda>(rs, buf). moving (length buf) rs) ms"
    "list_all2 (\<lambda>(rs, n) buf. n = length buf \<and> moving n rs) ns (map snd ms)"
  shows "(\<exists>out. send_each ipc_send_all ms = Some out \<and> recv_each ipc_recv_all ns (out @ later) = Some (map snd ms, later))
    \<and> (\<exists>out. send_each tcp_send_all ms = Some out \<and> recv_each tcp_recv_all ns (out @ later) = Some (map snd ms, later))"
  using ipc_stream.messages [OF assms] tcp_stream.messages [OF assms] by blast

theorem stream_transfer_witness:
  "\<exists>out. send_each ipc_send_all [([IO_bytes 2, IO_error EINTR, IO_bytes 1, IO_bytes 1], [1, 2, 3]), ([IO_bytes 1], [4])] = Some out
    \<and> recv_each ipc_recv_all [([IO_error EINTR, IO_bytes 1, IO_bytes 5, IO_bytes 1], 3), ([IO_bytes 7], 1)] (out @ [9]) = Some ([[1, 2, 3], [4]], [9])"
  using stream_transfer [of "[([IO_bytes 2, IO_error EINTR, IO_bytes 1, IO_bytes 1], [1, 2, 3]), ([IO_bytes 1], [4])]"
      "[([IO_error EINTR, IO_bytes 1, IO_bytes 5, IO_bytes 1], 3), ([IO_bytes 7], 1)]" "[9]"] by simp

text \<open>Whatever the kernel does, a prefix has been sent, the whole message exactly when the result is 0.\<close>

lemma send_all_prefix:
  "send_all rs buf = Some (rc, e, out) \<Longrightarrow> \<exists>rest. buf = out @ rest \<and> (rc = 0 \<longleftrightarrow> rest = []) \<and> (rc \<noteq> 0 \<longrightarrow> rc = -1 \<and> e \<noteq> EINTR)"
proof (induction rs buf arbitrary: out rule: send_all.induct)
  case (4 w rs b bs)
  show ?case
  proof (cases "w = 0")
    case True
    with 4(2) show ?thesis by auto
  next
    case False
    with 4(2) obtain out' where o: "send_all rs (drop w (b # bs)) = Some (rc, e, out')" "out = take w (b # bs) @ out'" by auto
    from 4(1) [OF False o(1)] obtain rest where "drop w (b # bs) = out' @ rest"
      "rc = 0 \<longleftrightarrow> rest = []" "rc \<noteq> 0 \<longrightarrow> rc = -1 \<and> e \<noteq> EINTR" by blast
    then show ?thesis using o(2) by (metis append.assoc append_take_drop_id)
  qed
qed (auto split: if_splits)

lemma recv_all_prefix:
  "recv_all rs n stream = Some (rc, e, got, left) \<Longrightarrow> stream = got @ left \<and> length got \<le> n \<and> (rc = 0 \<longleftrightarrow> length got = n)
     \<and> (rc \<noteq> 0 \<longrightarrow> rc = -1 \<and> e \<noteq> EINTR)"
proof (induction rs n stream arbitrary: got rule: recv_all.induct)
  case (4 r rs n stream)
  let ?k = "min r (min (Suc n) (length stream))"
  show ?case
  proof (cases "?k = 0")
    case True
    with 4(2) show ?thesis by (auto simp: Let_def)
  next
    case False
    with 4(2) obtain got' where o: "recv_all rs (Suc n - ?k) (drop ?k stream) = Some (rc, e, got', left)" "got = take ?k stream @ got'"
      by (auto simp: Let_def)
    from 4(1) [OF refl False o(1)] have "drop ?k stream = got' @ left" "length got' \<le> Suc n - ?k" "rc = 0 \<longleftrightarrow> length got' = Suc n - ?k"
      "rc \<noteq> 0 \<longrightarrow> rc = -1 \<and> e \<noteq> EINTR" by blast+
    moreover from this(1) have "stream = got @ left" using o(2) by (metis append.assoc append_take_drop_id)
    moreover have "length got = ?k + length got'" "?k \<le> Suc n" using o(2) by simp_all
    ultimately show ?thesis by (metis add_diff_cancel_left' add_le_cancel_left le_add_diff_inverse)
  qed
qed (auto split: if_splits)

subsection \<open>Descriptors\<close>

lemma open_fds_append: "open_fds (es @ fs) S = open_fds fs (open_fds es S)"
  by (induction es S rule: open_fds.induct) auto

lemma closes_ok_append: "closes_ok (es @ fs) S \<longleftrightarrow> closes_ok es S \<and> closes_ok fs (open_fds es S)"
  by (induction es S rule: closes_ok.induct) auto

text \<open>What the kernel promises of the descriptors it returns.\<close>

definition ipc_kernel_ok :: "ipc_kernel \<Rightarrow> bool" where
  "ipc_kernel_ok K \<longleftrightarrow>
     (case ik_socket K of Inl _ \<Rightarrow> True | Inr fd \<Rightarrow> 0 \<le> fd \<and> (case ik_accept K of Inl _ \<Rightarrow> True | Inr c \<Rightarrow> 0 \<le> c \<and> c \<noteq> fd))"

text \<open>
  C10. Opening a server either succeeds with exactly the two descriptors open that it stores, which
  closing then closes once each, or returns -1 with nothing left open and no path bound.
\<close>

theorem ipc_server_resources:
  fixes cap K path hs hc
  defines "r \<equiv> ipc_server_open cap K path hs hc"
  assumes "ipc_kernel_ok K"
  shows "closes_ok (ir_trace r) {}
    \<and> (ir_rc r = 0 \<longrightarrow> (\<exists>s c. ir_server r = Some s \<and> ir_client r = Some c \<and> s \<noteq> c \<and> open_fds (ir_trace r) {} = {s, c}
         \<and> (\<exists>tr. ipc_server_close path (Some s) (Some c) = (0, Some (-1), Some (-1), tr)
              \<and> closes_ok (ir_trace r @ tr) {} \<and> open_fds (ir_trace r @ tr) {} = {})))
    \<and> (ir_rc r \<noteq> 0 \<longrightarrow> ir_rc r = -1 \<and> open_fds (ir_trace r) {} = {}
         \<and> (\<forall>p. Ev_bind p \<in> set (ir_trace r) \<longrightarrow> last (ir_trace r) = Ev_unlink p))"
proof -
  have fail: "?thesis" if "r = ipc_fail e s c tr" "closes_ok tr {}" "open_fds tr {} = {}"
    "\<And>p. Ev_bind p \<in> set tr \<Longrightarrow> last tr = Ev_unlink p" for e s c tr
    using that by (simp add: ipc_fail_def)
  show ?thesis
  proof (cases "path = None \<or> \<not> hs \<or> \<not> hc \<or> length (the path) = 0 \<or> cap \<le> length (the path)")
    case True
    have "r = ipc_fail (if path = None \<or> \<not> hs \<or> \<not> hc then EINVAL else ENAMETOOLONG) None None []"
    proof (cases path)
      case None
      then show ?thesis by (simp add: r_def ipc_server_open_def)
    next
      case (Some p)
      with True show ?thesis by (simp add: r_def ipc_server_open_def)
    qed
    then show ?thesis by (rule fail) simp_all
  next
    case False
    then obtain p where path: "path = Some p" by auto
    show ?thesis
    proof (cases "ik_socket K")
      case (Inl e)
      with False path have "r = ipc_fail e (Some (-1)) None []" by (simp add: r_def ipc_server_open_def)
      then show ?thesis by (rule fail) simp_all
    next
      case (Inr fd)
      let ?tr = "[Ev_open fd, Ev_unlink p]"
      have r: "r = (case ik_bind K of
          Some e \<Rightarrow> ipc_fail e (Some fd) None (?tr @ [Ev_close fd])
        | None \<Rightarrow> (case ik_listen K of
            Some e \<Rightarrow> ipc_fail e (Some fd) None (?tr @ [Ev_bind p, Ev_close fd, Ev_unlink p])
          | None \<Rightarrow> (case ik_accept K of
              Inl e \<Rightarrow> ipc_fail e (Some fd) (Some (-1)) (?tr @ [Ev_bind p, Ev_close fd, Ev_unlink p])
            | Inr c \<Rightarrow> \<lparr>ir_rc = 0, ir_errno = E_none, ir_server = Some fd, ir_client = Some c, ir_trace = ?tr @ [Ev_bind p, Ev_open c]\<rparr>)))"
        using False path Inr by (simp add: r_def ipc_server_open_def Let_def)
      show ?thesis
      proof (cases "ik_bind K = None \<and> ik_listen K = None \<and> (\<exists>c. ik_accept K = Inr c)")
        case True
        then obtain c where c: "ik_accept K = Inr c" by blast
        with assms(2) Inr have "0 \<le> fd" "0 \<le> c" "c \<noteq> fd" by (simp_all add: ipc_kernel_ok_def)
        with True c r path show ?thesis by (auto simp: ipc_server_close_def close_one_def)
      next
        case err: False
        show ?thesis
        proof (cases "ik_bind K")
          case None
          have "\<exists>e cl. r = ipc_fail e (Some fd) cl (?tr @ [Ev_bind p, Ev_close fd, Ev_unlink p])"
          proof (cases "ik_listen K")
            case (Some e)
            with r None show ?thesis by simp blast
          next
            case nl: None
            with err None obtain e where "ik_accept K = Inl e" by (cases "ik_accept K") auto
            with r None nl show ?thesis by simp blast
          qed
          then obtain e cl where "r = ipc_fail e (Some fd) cl (?tr @ [Ev_bind p, Ev_close fd, Ev_unlink p])" by blast
          then show ?thesis by (rule fail) simp_all
        next
          case (Some e)
          with r have "r = ipc_fail e (Some fd) None (?tr @ [Ev_close fd])" by simp
          then show ?thesis by (rule fail) simp_all
        qed
      qed
    qed
  qed
qed

theorem ipc_server_resources_witness:
  "\<exists>s c. ir_server (ipc_server_open 108 \<lparr>ik_socket = Inr 3, ik_bind = None, ik_listen = None, ik_accept = Inr 4\<rparr> (Some ''s'') True True) = Some s
      \<and> ir_client (ipc_server_open 108 \<lparr>ik_socket = Inr 3, ik_bind = None, ik_listen = None, ik_accept = Inr 4\<rparr> (Some ''s'') True True) = Some c
      \<and> open_fds (ir_trace (ipc_server_open 108 \<lparr>ik_socket = Inr 3, ik_bind = None, ik_listen = None, ik_accept = Inr 4\<rparr> (Some ''s'') True True)) {} = {s, c}"
proof -
  have "ipc_kernel_ok \<lparr>ik_socket = Inr 3, ik_bind = None, ik_listen = None, ik_accept = Inr 4\<rparr>" by (simp add: ipc_kernel_ok_def)
  note r = ipc_server_resources [OF this, of 108 "Some ''s''" True True]
  have "ir_rc (ipc_server_open 108 \<lparr>ik_socket = Inr 3, ik_bind = None, ik_listen = None, ik_accept = Inr 4\<rparr> (Some ''s'') True True) = 0" by (simp add: ipc_server_open_def)
  with r show ?thesis by blast
qed

text \<open>
  A failed open leaves the number of the closed descriptor in the caller's variable, so closing the server
  afterwards closes it a second time.
\<close>

theorem ipc_close_after_failure:
  assumes "0 < length p" "length p < cap" "ik_socket K = Inr fd" "0 \<le> fd" "ik_bind K = Some e"
  shows "\<exists>tr. ipc_server_close (Some p) (ir_server (ipc_server_open cap K (Some p) True True)) None = (0, Some (-1), None, tr)
    \<and> ir_rc (ipc_server_open cap K (Some p) True True) = -1
    \<and> \<not> closes_ok (ir_trace (ipc_server_open cap K (Some p) True True) @ tr) {}"
  using assms by (simp add: ipc_server_open_def ipc_fail_def ipc_server_close_def close_one_def)

theorem ipc_close_after_failure_witness:
  "\<exists>tr. ipc_server_close (Some ''s'') (ir_server (ipc_server_open 108 \<lparr>ik_socket = Inr 3, ik_bind = Some EIO, ik_listen = None, ik_accept = Inr 4\<rparr> (Some ''s'') True True)) None
      = (0, Some (-1), None, tr)
    \<and> ir_rc (ipc_server_open 108 \<lparr>ik_socket = Inr 3, ik_bind = Some EIO, ik_listen = None, ik_accept = Inr 4\<rparr> (Some ''s'') True True) = -1
    \<and> \<not> closes_ok (ir_trace (ipc_server_open 108 \<lparr>ik_socket = Inr 3, ik_bind = Some EIO, ik_listen = None, ik_accept = Inr 4\<rparr> (Some ''s'') True True) @ tr) {}"
  by (rule ipc_close_after_failure [where fd = 3 and e = EIO]) simp_all

lemma ipc_client_resources:
  assumes "\<And>fd. sock = Inr fd \<Longrightarrow> 0 \<le> fd"
  shows "closes_ok (ir_trace (ipc_client_open cap sock conn path h)) {}
    \<and> open_fds (ir_trace (ipc_client_open cap sock conn path h)) {}
      = (if ir_rc (ipc_client_open cap sock conn path h) = 0 then set_option (ir_client (ipc_client_open cap sock conn path h)) else {})"
  using assms
  by (cases path; cases sock; cases conn) (simp_all add: ipc_client_open_def ipc_fail_def)

text \<open>Only the descriptor that a TCP routine returns stays open.\<close>

lemma addr_loop_resources:
  assumes "\<forall>(r, ok) \<in> set as. case r of Inl _ \<Rightarrow> True | Inr fd \<Rightarrow> 0 \<le> fd" "addr_loop as = (fd, tr)"
  shows "closes_ok tr {} \<and> open_fds tr {} = (if 0 \<le> fd then {fd} else {}) \<and> (fd < 0 \<longrightarrow> fd = -1)"
  using assms
proof (induction as arbitrary: fd tr rule: addr_loop.induct)
  case (3 f ok as)
  then show ?case by (cases "addr_loop as") (auto split: if_splits)
qed auto

lemma tcp_resources:
  assumes "\<forall>(r, ok) \<in> set as. case r of Inl _ \<Rightarrow> True | Inr fd \<Rightarrow> 0 \<le> fd"
    "tcp_listen (Some as) err port = (fd, e, tr) \<or> tcp_connect (Some as) err host port = (fd, e, tr)"
  shows "closes_ok (tr @ snd (tcp_close fd)) {} \<and> open_fds (tr @ snd (tcp_close fd)) {} = {}"
proof -
  obtain f t where a: "addr_loop as = (f, t)" by (cases "addr_loop as")
  have "tr = [] \<and> fd = -1 \<or> f = fd \<and> t = tr"
    using assms(2)
  proof
    assume "tcp_listen (Some as) err port = (fd, e, tr)"
    with a show ?thesis by (cases port) (simp_all add: tcp_listen_def)
  next
    assume "tcp_connect (Some as) err host port = (fd, e, tr)"
    with a show ?thesis by (cases port; cases host) (simp_all add: tcp_connect_def)
  qed
  then show ?thesis
  proof
    assume "tr = [] \<and> fd = -1"
    then show ?thesis by (simp add: tcp_close_def)
  next
    assume "f = fd \<and> t = tr"
    with addr_loop_resources [OF assms(1) a] show ?thesis
      by (cases "0 \<le> fd") (simp_all add: tcp_close_def closes_ok_append open_fds_append)
  qed
qed

end
