(* ===== verification/Archive.thy ===== *)
theory Archive
  imports Posix
begin

text \<open>
  The driver's archive: the trailer of the executable, the hash and the extraction of a ustar archive
  (src/src/czet.c).  A file that is read is the list of its bytes from the current offset; \<^verbatim>\<open>fread\<close> gives what is
  asked for or what is left.  Memory allocation is taken to succeed.
\<close>

subsection \<open>The trailer and the hash\<close>

definition CHUNK :: nat where "CHUNK = 65536"
definition HDR_LEN :: nat where "HDR_LEN = 512"
definition TRAILER_LEN :: nat where "TRAILER_LEN = 32"
definition PATH_MAX :: nat where "PATH_MAX = 4096"

definition le64u :: "u8 list \<Rightarrow> u64" where
  "le64u p = foldr (\<lambda>b v. push_bit 8 v OR ucast b) (take 8 p) 0"

record trailer =
  tr_off :: u64
  tr_size :: u64
  tr_hash :: u64

definition CZET_MAGIC :: "u8 list" where
  "CZET_MAGIC = map byte_of ''CZETAR'' @ [0]"

definition read_trailer :: "u8 list \<Rightarrow> trailer option" where
  "read_trailer f =
     (if length f < TRAILER_LEN then None
      else
        let h = drop (length f - TRAILER_LEN) f in
        if take 7 h \<noteq> CZET_MAGIC then None
        else Some \<lparr>tr_off = le64u (drop 8 h), tr_size = le64u (drop 16 h), tr_hash = le64u (drop 24 h)\<rparr>)"

text \<open>\<^verbatim>\<open>fseek\<close> takes a signed offset and may go beyond the end.\<close>

definition seek :: "u8 list \<Rightarrow> u64 \<Rightarrow> u8 list option" where
  "seek f off = (if 2 ^ 63 \<le> unat off then None else Some (drop (unat off) f))"

definition fnv_step :: "u64 \<Rightarrow> u8 \<Rightarrow> u64" where
  "fnv_step h b = (h XOR ucast b) * 0x100000001b3"

function fnv_loop :: "nat \<Rightarrow> u8 list \<Rightarrow> u64 \<Rightarrow> u64" where
  "fnv_loop left f h =
     (if left = 0 then h
      else
        let buf = take (min CHUNK left) f in
        if buf = [] then h else fnv_loop (left - length buf) (drop (length buf) f) (foldl fnv_step h buf))"
  by pat_completeness auto
termination
  by (relation "measure (\<lambda>(left, f, h). left)") (auto simp: CHUNK_def)

declare fnv_loop.simps [simp del]

definition fnv1a64 :: "u8 list \<Rightarrow> u64 \<Rightarrow> u64 \<Rightarrow> u64" where
  "fnv1a64 f off sz =
     (case seek f off of None \<Rightarrow> 0 | Some g \<Rightarrow> fnv_loop (unat sz) g 0xcbf29ce484222325)"

subsection \<open>Directories and names\<close>

definition is_made :: "sysres \<Rightarrow> bool" where
  "is_made r \<longleftrightarrow> (case r of S_ok _ \<Rightarrow> True | S_err e \<Rightarrow> e = EEXIST)"

definition is_ok :: "sysres \<Rightarrow> bool" where
  "is_ok r \<longleftrightarrow> (case r of S_ok _ \<Rightarrow> True | S_err _ \<Rightarrow> False)"

definition trim_slashes :: "string \<Rightarrow> string" where
  "trim_slashes s = rev (dropWhile (\<lambda>c. c = CHR ''/'') (rev s))"

text \<open>What stands before each slash but a first one, in order.\<close>

definition slash_prefixes :: "string \<Rightarrow> string list" where
  "slash_prefixes tmp = map (\<lambda>i. take i tmp) (filter (\<lambda>i. tmp ! i = CHR ''/'') [1..<length tmp])"

fun mkdir_each :: "'k kernel \<Rightarrow> string list \<Rightarrow> 'k \<Rightarrow> bool \<times> 'k" where
  "mkdir_each K [] k = (True, k)"
| "mkdir_each K (p # ps) k =
     (case k_call K (Sys_mkdir p) k of (r, k') \<Rightarrow> if is_made r then mkdir_each K ps k' else (False, k'))"

definition mkdirs :: "'k kernel \<Rightarrow> string \<Rightarrow> 'k \<Rightarrow> bool \<times> 'k" where
  "mkdirs K path k =
     (if path = [] \<or> PATH_MAX \<le> length path then (False, k)
      else mkdir_each K (slash_prefixes (trim_slashes path) @ [trim_slashes path]) k)"

text \<open>The search for a slash and two dots that end a component.\<close>

function scan_dots :: "string \<Rightarrow> bool" where
  "scan_dots s =
     (if s = [] then False
      else if take 3 s = ''/..'' then (drop 3 s = [] \<or> hd (drop 3 s) = CHR ''/'' \<or> scan_dots (drop 3 s))
      else scan_dots (tl s))"
  by pat_completeness auto
termination
  by (relation "measure length") auto

declare scan_dots.simps [simp del]

definition safe_name :: "string \<Rightarrow> bool" where
  "safe_name name \<longleftrightarrow> \<not> (name \<noteq> [] \<and> hd name = CHR ''/'') \<and> name \<noteq> ''..'' \<and> \<not> scan_dots name"

subsection \<open>Extraction\<close>

fun octal_loop :: "u8 list \<Rightarrow> u64 \<Rightarrow> u64" where
  "octal_loop [] v = v"
| "octal_loop (c # cs) v = (if 48 \<le> c \<and> c \<le> 55 then octal_loop cs (push_bit 3 v OR ucast (c - 48)) else v)"

definition parse_num :: "u8 list \<Rightarrow> u64" where
  "parse_num b =
     (if b \<noteq> [] \<and> hd b AND 0x80 \<noteq> 0
      then foldl (\<lambda>v c. push_bit 8 v OR ucast c) (ucast (hd b AND 0x7f)) (tl b)
      else octal_loop b 0)"

text \<open>A write that takes nothing is tried again, for ever if need be.\<close>

partial_function (option) write_all :: "'k kernel \<Rightarrow> string \<Rightarrow> u8 list \<Rightarrow> 'k \<Rightarrow> (bool \<times> 'k) option" where
  "write_all K fd buf k =
     (if buf = [] then Some (True, k)
      else
        (case fst (k_call K (Sys_write fd buf) k) of
           S_err e \<Rightarrow>
             (if e = EINTR then write_all K fd buf (snd (k_call K (Sys_write fd buf) k))
              else Some (False, snd (k_call K (Sys_write fd buf) k)))
         | S_ok w \<Rightarrow> write_all K fd (drop w buf) (snd (k_call K (Sys_write fd buf) k))))"

function copy_data :: "'k kernel \<Rightarrow> u8 list \<Rightarrow> nat \<Rightarrow> string \<Rightarrow> 'k \<Rightarrow> (bool \<times> u8 list \<times> 'k) option" where
  "copy_data K inp sz fd k =
     (if sz = 0 then Some (True, inp, k)
      else
        let got = take (min CHUNK sz) inp; left = drop (min CHUNK sz) inp in
        if got = [] then Some (False, inp, k)
        else
          (case write_all K fd got k of
             None \<Rightarrow> None
           | Some (ok, k') \<Rightarrow> if \<not> ok then Some (False, left, k') else copy_data K left (sz - length got) fd k'))"
  by pat_completeness auto
termination
  by (relation "measure (\<lambda>(K, inp, sz, fd, k). sz)") (auto simp: CHUNK_def)

declare copy_data.simps [simp del]

function drain_loop :: "nat \<Rightarrow> u8 list \<Rightarrow> bool \<times> u8 list" where
  "drain_loop n inp =
     (if n = 0 then (True, inp)
      else
        let got = min (min n HDR_LEN) (length inp) in
        if got = 0 then (False, inp) else drain_loop (n - got) (drop got inp))"
  by pat_completeness auto
termination
  by (relation "measure fst") (auto simp: HDR_LEN_def)

declare drain_loop.simps [simp del]

definition pad_len :: "nat \<Rightarrow> nat" where
  "pad_len sz = (512 - sz mod 512) mod 512"

definition skip_pad_only :: "u8 list \<Rightarrow> nat \<Rightarrow> bool \<times> u8 list" where
  "skip_pad_only inp sz = drain_loop (pad_len sz) inp"

definition skip_padded :: "u8 list \<Rightarrow> nat \<Rightarrow> bool \<times> u8 list" where
  "skip_padded inp sz =
     (case drain_loop sz inp of (ok, left) \<Rightarrow> if ok then drain_loop (pad_len sz) left else (False, left))"

text \<open>The directory of the last slash, or the current one.\<close>

definition parent_of :: "string \<Rightarrow> string" where
  "parent_of out =
     (let p = rev (tl (dropWhile (\<lambda>c. c \<noteq> CHR ''/'') (rev out))) in if p = [] then ''.'' else p)"

definition tar_rel :: "u8 list \<Rightarrow> string" where
  "tar_rel hdr =
     (let name = cstr (take 100 hdr); prefix = cstr (take 155 (drop 345 hdr)) in
      if prefix \<noteq> [] then prefix @ ''/'' @ name else name)"

definition extract_file :: "'k kernel \<Rightarrow> string \<Rightarrow> nat \<Rightarrow> u8 list \<Rightarrow> 'k \<Rightarrow> (bool \<times> u8 list \<times> 'k) option" where
  "extract_file K out sz inp k =
     (case mkdirs K (parent_of out) k of (made, k1) \<Rightarrow>
        if \<not> made then Some (False, inp, k1)
        else
          (case k_call K (Sys_open out) k1 of (r, k2) \<Rightarrow>
             if \<not> is_ok r then Some (False, inp, k2)
             else
               (case copy_data K inp sz out k2 of
                  None \<Rightarrow> None
                | Some (copied, left, k3) \<Rightarrow>
                    (case k_call K (Sys_close out) k3 of (c, k4) \<Rightarrow>
                     case skip_pad_only left sz of (skipped, left') \<Rightarrow> Some (copied \<and> is_ok c \<and> skipped, left', k4)))))"

definition extract_link :: "'k kernel \<Rightarrow> string \<Rightarrow> string \<Rightarrow> 'k \<Rightarrow> bool \<times> 'k" where
  "extract_link K out ln k =
     (case k_call K (Sys_unlink out) k of (r, k1) \<Rightarrow>
        if is_ok r \<or> r = S_err ENOENT
        then (case k_call K (Sys_symlink ln out) k1 of (r2, k2) \<Rightarrow> (is_ok r2, k2))
        else (False, k1))"

definition extract_entry :: "'k kernel \<Rightarrow> string \<Rightarrow> u8 list \<Rightarrow> u8 list \<Rightarrow> 'k \<Rightarrow> (bool \<times> u8 list \<times> 'k) option" where
  "extract_entry K out hdr inp k =
     (let typeflag = hdr ! 156; sz = unat (parse_num (take 12 (drop 124 hdr))) in
      if typeflag = byte_of CHR ''5'' then
        (case k_call K (Sys_mkdir out) k of (r, k1) \<Rightarrow> Some (is_made r, inp, k1))
      else if typeflag = byte_of CHR ''2'' then
        (case extract_link K out (cstr (take 100 (drop 157 hdr))) k of (ok, k1) \<Rightarrow> Some (ok, inp, k1))
      else if typeflag = byte_of CHR ''0'' \<or> typeflag = 0 \<or> typeflag = byte_of CHR ''7'' then extract_file K out sz inp k
      else (case skip_padded inp sz of (ok, left) \<Rightarrow> Some (ok, left, k)))"

lemma drain_loop_length: "drain_loop n inp = (ok, left) \<Longrightarrow> length left \<le> length inp"
proof (induction n inp rule: drain_loop.induct)
  case (1 n inp)
  show ?case
    using 1(2) 1(1) [OF _ refl] by (subst (asm) drain_loop.simps) (fastforce simp: Let_def split: if_splits)
qed

lemma copy_data_length: "copy_data K inp sz fd k = Some (ok, left, k') \<Longrightarrow> length left \<le> length inp"
proof (induction K inp sz fd k rule: copy_data.induct)
  case (1 K inp sz fd k)
  show ?case
    using 1(2) 1(1) [OF _ refl refl]
    by (subst (asm) copy_data.simps) (fastforce simp: Let_def split: if_splits option.splits prod.splits)
qed

lemma skip_padded_length: "skip_padded inp sz = (ok, left) \<Longrightarrow> length left \<le> length inp"
  unfolding skip_padded_def
  by (cases "drain_loop sz inp") (auto split: if_splits dest!: drain_loop_length)

lemma extract_entry_length:
  "extract_entry K out hdr inp k = Some (ok, left, k') \<Longrightarrow> length left \<le> length inp"
  by (auto simp: extract_entry_def extract_file_def skip_pad_only_def Let_def
      split: prod.splits if_splits option.splits dest!: drain_loop_length copy_data_length skip_padded_length)

function extract_tar :: "'k kernel \<Rightarrow> string \<Rightarrow> u8 list \<Rightarrow> 'k \<Rightarrow> (bool \<times> 'k) option" where
  "extract_tar K base inp k =
     (if length inp < HDR_LEN then Some (inp = [], k)
      else
        let hdr = take HDR_LEN inp; rest = drop HDR_LEN inp in
        if list_all (\<lambda>b. b = 0) hdr then Some (True, k)
        else if hdr ! 156 = byte_of CHR ''L'' \<or> hdr ! 156 = byte_of CHR ''K'' then
          (let r = skip_padded rest (unat (parse_num (take 12 (drop 124 hdr)))) in
           if fst r then extract_tar K base (snd r) k else Some (False, k))
        else if \<not> safe_name (tar_rel hdr) then Some (False, k)
        else
          (case extract_entry K (base @ ''/'' @ tar_rel hdr) hdr rest k of
             None \<Rightarrow> None
           | Some (ok, rest', k') \<Rightarrow> if ok then extract_tar K base rest' k' else Some (False, k')))"
  by pat_completeness auto
termination
proof (relation "measure (\<lambda>(K, base, inp, k). length inp)", goal_cases)
  case (2 K base inp k hdr rest r)
  have "length (snd r) \<le> length rest"
    unfolding 2(6) by (rule skip_padded_length) (rule prod.collapse [symmetric])
  with 2 show ?case by (simp add: HDR_LEN_def)
next
  case (3 K base inp k hdr rest a ok y rest' k')
  then have "length rest' \<le> length rest" using extract_entry_length by metis
  with 3 show ?case by (cases y) (auto simp: HDR_LEN_def)
qed simp

declare extract_tar.simps [simp del]

subsection \<open>Hash and trailer\<close>

lemma fnv_loop_foldl: "fnv_loop n f h = foldl fnv_step h (take n f)"
proof (induction n f h rule: fnv_loop.induct)
  case (1 n f h)
  show ?case
  proof (cases "n = 0 \<or> f = []")
    case True
    then show ?thesis by (subst fnv_loop.simps) (auto simp: Let_def)
  next
    case False
    let ?buf = "take (min CHUNK n) f"
    have c: "min CHUNK n \<noteq> 0" using False by (simp add: CHUNK_def)
    then have ne: "?buf \<noteq> []" using False by simp
    have len: "length ?buf \<le> n" by simp
    have "fnv_loop n f h = fnv_loop (n - length ?buf) (drop (length ?buf) f) (foldl fnv_step h ?buf)"
      using False ne by (subst fnv_loop.simps) (simp only: Let_def if_False de_Morgan_disj)
    also have "\<dots> = foldl fnv_step (foldl fnv_step h ?buf) (take (n - length ?buf) (drop (length ?buf) f))"
      using 1 False ne by (simp add: Let_def)
    also have "\<dots> = foldl fnv_step h (?buf @ take (n - length ?buf) (drop (length ?buf) f))" by simp
    also have "?buf @ take (n - length ?buf) (drop (length ?buf) f) = take n f"
    proof -
      have "?buf = take (length ?buf) f" by (simp add: min_def)
      then show ?thesis using len by (metis le_add_diff_inverse take_add)
    qed
    finally show ?thesis .
  qed
qed

text \<open>The trailer as tools/embed.py writes it.\<close>

definition le64 :: "nat \<Rightarrow> u8 list" where
  "le64 n = map (\<lambda>i. of_nat (n div 256 ^ i)) [0..<8]"

lemma or_low:
  fixes v :: u64
  assumes "unat d < 2 ^ k" "k < 64"
  shows "push_bit k v OR d = 2 ^ k * v + d"
proof -
  have "\<not> bit (push_bit k v) n \<or> \<not> bit d n" for n
  proof (cases "n < k")
    case True
    then show ?thesis by (simp add: bit_push_bit_iff)
  next
    case False
    then have "unat d < 2 ^ n" using assms(1) by (meson leI less_le_trans one_le_numeral power_increasing)
    then have "\<not> bit (unat d) n" by (simp add: bit_iff_odd)
    then show ?thesis by (simp add: bit_unsigned_iff)
  qed
  then have "push_bit k v OR d = push_bit k v + d" by (simp add: disjunctive_add)
  then show ?thesis by (simp add: push_bit_eq_mult mult.commute)
qed

lemma le64u_step: "foldr (\<lambda>b v. push_bit 8 v OR ucast b) (map (\<lambda>i. of_nat (n div 256 ^ i) :: u8) [i..<i + m]) (0 :: u64)
    = of_nat (n div 256 ^ i mod 256 ^ m)" if "m \<le> 8"
  using that
proof (induction m arbitrary: i)
  case (Suc m)
  let ?d = "n div 256 ^ i"
  have u: "unat (ucast (of_nat ?d :: u8) :: u64) = ?d mod 256"
    by (simp add: unsigned_ucast_eq unat_of_nat take_bit_eq_mod)
  have "foldr (\<lambda>b v. push_bit 8 v OR ucast b) (map (\<lambda>i. of_nat (n div 256 ^ i) :: u8) [i..<i + Suc m]) (0 :: u64)
      = push_bit 8 (of_nat (n div 256 ^ Suc i mod 256 ^ m)) OR ucast (of_nat ?d :: u8)"
  proof -
    have "[i..<i + Suc m] = i # [Suc i..<Suc i + m]" by (simp add: upt_conv_Cons)
    moreover have "m \<le> 8" using Suc.prems by simp
    note ih = Suc.IH [OF this, of "Suc i"]
    ultimately show ?thesis by (simp only: list.map foldr_Cons o_apply ih)
  qed
  also have "\<dots> = 2 ^ 8 * of_nat (n div 256 ^ Suc i mod 256 ^ m) + ucast (of_nat ?d :: u8)"
    using u by (intro or_low) simp_all
  also have "ucast (of_nat ?d :: u8) = (of_nat (?d mod 256) :: u64)"
    unfolding u [symmetric] by (simp add: of_nat_unat)
  also have "2 ^ 8 * of_nat (n div 256 ^ Suc i mod 256 ^ m) + of_nat (?d mod 256) = (of_nat (256 * (?d div 256 mod 256 ^ m) + ?d mod 256) :: u64)"
  proof -
    have "n div 256 ^ Suc i = ?d div 256" by (simp only: power_Suc2 div_mult2_eq)
    then show ?thesis by simp
  qed
  also have "256 * (?d div 256 mod 256 ^ m) + ?d mod 256 = ?d mod 256 ^ Suc m"
    by (simp add: mod_mult2_eq)
  finally show ?case .
qed simp

lemma le64u_le64: "n < 2 ^ 64 \<Longrightarrow> le64u (le64 n @ rest) = of_nat n"
  using le64u_step [of 8 n 0] by (simp add: le64u_def le64_def)

definition trailer_bytes :: "nat \<Rightarrow> nat \<Rightarrow> u64 \<Rightarrow> u8 list" where
  "trailer_bytes off sz h = CZET_MAGIC @ [0] @ le64 off @ le64 sz @ le64 (unat h)"

lemma length_le64 [simp]: "length (le64 n) = 8"
  by (simp add: le64_def)

lemma length_trailer_bytes [simp]: "length (trailer_bytes off sz h) = 32"
  by (simp add: trailer_bytes_def CZET_MAGIC_def)

definition fnv :: "u8 list \<Rightarrow> u64" where
  "fnv bs = foldl fnv_step 0xcbf29ce484222325 bs"

lemma blob_found:
  fixes exe blob :: "u8 list"
  defines "f \<equiv> exe @ blob @ trailer_bytes (length exe) (length blob) (fnv blob)"
  assumes "length f < 2 ^ 63"
  shows "\<exists>tr. read_trailer f = Some tr \<and> tr_hash tr = fnv blob
    \<and> of_nat (length f) = tr_off tr + tr_size tr + of_nat TRAILER_LEN
    \<and> (\<exists>rest. seek f (tr_off tr) = Some (blob @ rest))
    \<and> fnv1a64 f (tr_off tr) (tr_size tr) = fnv blob"
proof -
  let ?t = "trailer_bytes (length exe) (length blob) (fnv blob)"
  let ?tr = "\<lparr>tr_off = of_nat (length exe), tr_size = of_nat (length blob), tr_hash = fnv blob\<rparr>"
  have len: "length exe < 2 ^ 63" "length blob < 2 ^ 63" using assms(2) by (simp_all add: f_def)
  then have u: "unat (of_nat (length exe) :: u64) = length exe" "unat (of_nat (length blob) :: u64) = length blob"
    by (simp_all add: unat_of_nat take_bit_eq_mod)
  have d: "drop (length f - TRAILER_LEN) f = ?t" by (simp add: f_def TRAILER_LEN_def)
  have "take 7 ?t = CZET_MAGIC" by (simp add: trailer_bytes_def CZET_MAGIC_def)
  moreover have "le64u (drop 8 ?t) = of_nat (length exe)" "le64u (drop 16 ?t) = of_nat (length blob)" "le64u (drop 24 ?t) = fnv blob"
    using len le64u_le64 [of "unat (fnv blob)" "[]"] unat_less64 [of "fnv blob"]
    by (simp_all add: trailer_bytes_def CZET_MAGIC_def le64u_le64)
  ultimately have r: "read_trailer f = Some ?tr"
    unfolding read_trailer_def d by (simp add: f_def TRAILER_LEN_def Let_def)
  have s: "seek f (tr_off ?tr) = Some (blob @ ?t)" using len u by (simp add: seek_def f_def)
  then have h: "fnv1a64 f (tr_off ?tr) (tr_size ?tr) = fnv blob"
    using u by (simp add: fnv1a64_def fnv_loop_foldl fnv_def)
  have "of_nat (length f) = (of_nat (length exe) + of_nat (length blob) + of_nat TRAILER_LEN :: u64)"
    by (simp add: f_def TRAILER_LEN_def)
  with r s h show ?thesis by (intro exI [of _ ?tr]) auto
qed

text \<open>
  What tools/embed.py appends is found again: in an executable followed by a blob and its trailer, the offset, the
  size and the hash are read back, the size check of the driver holds, the offset leads to the blob and the
  hash computed over the file in chunks is the one recorded.
\<close>

theorem embedded_blob:
  fixes exe blob :: "u8 list"
  defines "f \<equiv> exe @ blob @ trailer_bytes (length exe) (length blob) (fnv blob)"
  assumes "length f < 2 ^ 63"
  shows "\<exists>tr. read_trailer f = Some tr \<and> tr_hash tr = fnv blob
    \<and> of_nat (length f) = tr_off tr + tr_size tr + of_nat TRAILER_LEN
    \<and> (\<exists>rest. seek f (tr_off tr) = Some (blob @ rest))
    \<and> fnv1a64 f (tr_off tr) (tr_size tr) = fnv blob"
  using assms(2) unfolding f_def by (rule blob_found)

theorem embedded_blob_witness:
  "\<exists>tr. read_trailer ([1, 2] @ [7] @ trailer_bytes (length [1, 2 :: u8]) (length [7 :: u8]) (fnv [7])) = Some tr \<and> tr_hash tr = fnv [7]"
  using embedded_blob [of "[1, 2]" "[7]"] by auto

subsection \<open>Names\<close>

fun comps :: "string \<Rightarrow> string list" where
  "comps [] = [[]]"
| "comps (c # s) = (if c = CHR ''/'' then [] # comps s else (c # hd (comps s)) # tl (comps s))"

lemma comps_not_Nil [simp]: "comps s \<noteq> []"
  by (cases s) auto

lemma hd_comps: "hd (comps s) = takeWhile (\<lambda>c. c \<noteq> CHR ''/'') s"
  by (induction s) auto

lemma dots_prefix: "takeWhile (\<lambda>c. c \<noteq> CHR ''/'') s = ''..'' \<Longrightarrow> take 2 s = ''..''"
  by (metis (no_types, lifting) append_eq_conv_conj length_Cons list.size(3) numeral_2_eq_2 takeWhile_dropWhile_id)

lemma scan_dots_iff: "scan_dots s \<longleftrightarrow> ''..'' \<in> set (tl (comps s))"
proof (induction s rule: scan_dots.induct)
  case (1 s)
  show ?case
  proof (cases "take 3 s = ''/..''")
    case True
    then obtain r where s: "s = CHR ''/'' # CHR ''.'' # CHR ''.'' # r"
      by (metis append.simps append_take_drop_id)
    have "''..'' \<in> set (tl (comps s)) \<longleftrightarrow> hd (comps r) = [] \<or> ''..'' \<in> set (tl (comps r))"
      unfolding s by auto
    moreover have "hd (comps r) = [] \<longleftrightarrow> r = [] \<or> hd r = CHR ''/''"
      unfolding hd_comps by (cases r) auto
    ultimately show ?thesis using 1(1) s by (subst scan_dots.simps) auto
  next
    case False
    show ?thesis
    proof (cases s)
      case (Cons c r)
      have "scan_dots s = scan_dots r" using False Cons by (subst scan_dots.simps) auto
      also have "\<dots> \<longleftrightarrow> ''..'' \<in> set (tl (comps r))" using 1(2) False Cons by simp
      also have "\<dots> \<longleftrightarrow> ''..'' \<in> set (tl (comps s))"
      proof (cases "c = CHR ''/''")
        case True
        have "hd (comps r) \<noteq> ''..''"
        proof
          assume "hd (comps r) = ''..''"
          then have "take 2 r = ''..''" unfolding hd_comps by (rule dots_prefix)
          with False Cons True show False by (simp add: numeral_3_eq_3 numeral_2_eq_2)
        qed
        then show ?thesis using Cons True by (cases "comps r") auto
      qed (simp add: Cons)
      finally show ?thesis .
    qed (simp add: scan_dots.simps)
  qed
qed

text \<open>
  The check of a member's name, which is meant to keep it inside the target: absolute names and two dots are
  refused, but as the first of several components two dots pass.
\<close>

lemma safe_name_iff:
  "safe_name name \<longleftrightarrow> \<not> (name \<noteq> [] \<and> hd name = CHR ''/'') \<and> name \<noteq> ''..'' \<and> ''..'' \<notin> set (tl (comps name))"
  by (simp add: safe_name_def scan_dots_iff)

subsection \<open>Archives\<close>

text \<open>A member has a prefix and a name; the fields that the driver does not read are arbitrary.\<close>

datatype tar_entry = TE_dir string string | TE_link string string string | TE_file string string "u8 list"

record tar_fill =
  tf_a :: "u8 list"
  tf_b :: "u8 list"
  tf_c :: "u8 list"
  tf_d :: "u8 list"

definition fill_ok :: "tar_fill \<Rightarrow> bool" where
  "fill_ok fl \<longleftrightarrow> length (tf_a fl) = 24 \<and> length (tf_b fl) = 20 \<and> length (tf_c fl) = 88 \<and> length (tf_d fl) = 12"

definition field :: "nat \<Rightarrow> string \<Rightarrow> u8 list" where
  "field n s = map byte_of s @ replicate (n - length s) 0"

definition octal_field :: "nat \<Rightarrow> u8 list" where
  "octal_field n = map (\<lambda>i. of_nat (48 + n div 8 ^ i mod 8)) (rev [0..<11]) @ [0]"

definition tar_header :: "tar_fill \<Rightarrow> string \<Rightarrow> string \<Rightarrow> char \<Rightarrow> nat \<Rightarrow> string \<Rightarrow> u8 list" where
  "tar_header fl pre nm flag n ln =
     field 100 nm @ tf_a fl @ octal_field n @ tf_b fl @ [byte_of flag] @ field 100 ln @ tf_c fl @ field 155 pre @ tf_d fl"

fun tar_bytes :: "tar_fill \<times> tar_entry \<Rightarrow> u8 list" where
  "tar_bytes (fl, TE_dir pre nm) = tar_header fl pre nm CHR ''5'' 0 []"
| "tar_bytes (fl, TE_link pre nm ln) = tar_header fl pre nm CHR ''2'' 0 ln"
| "tar_bytes (fl, TE_file pre nm bs) =
     tar_header fl pre nm CHR ''0'' (length bs) [] @ bs @ replicate (512 * ((length bs + 511) div 512) - length bs) 0"

lemma pad_len_blocks: "512 * ((n + 511) div 512) - n = pad_len n"
proof -
  obtain q r where n: "n = 512 * q + r" "r < 512" by (metis mod_less_divisor mult_div_mod_eq zero_less_numeral)
  have "(512 * q + r + 511) div 512 = q + 1" if "0 < r" using n(2) that by (intro div_nat_eqI) simp_all
  with n show ?thesis by (cases "r = 0") (auto simp: pad_len_def)
qed

lemma octal_digit:
  assumes "d < 8"
  shows "octal_loop (of_nat (48 + d) # cs) v = octal_loop cs (8 * v + of_nat d)"
proof -
  have u: "unat (of_nat (48 + d) :: u8) = 48 + d" unfolding unat_of_nat using assms by (simp add: take_bit_eq_mod)
  have "(48 :: u8) \<le> of_nat (48 + d)" "(of_nat (48 + d) :: u8) \<le> 55"
    unfolding word_le_nat_alt u using assms by simp_all
  moreover have e: "(of_nat (48 + d) :: u8) - 48 = of_nat d" by simp
  moreover have "unat (ucast (of_nat d :: u8) :: u64) = d"
    using assms by (simp add: unsigned_ucast_eq unat_of_nat take_bit_eq_mod)
  moreover from this have "ucast (of_nat d :: u8) = (of_nat d :: u64)" by (metis of_nat_unat ucast_id)
  ultimately show ?thesis using or_low [of "of_nat d" 3 v] assms by simp
qed

lemma octal_digits:
  "octal_loop (map (\<lambda>i. of_nat (48 + n div 8 ^ i mod 8)) (rev [0..<m]) @ cs) v = octal_loop cs (8 ^ m * v + of_nat (n mod 8 ^ m))"
proof (induction m arbitrary: v)
  case (Suc m)
  have "n mod 8 ^ Suc m = 8 ^ m * (n div 8 ^ m mod 8) + n mod 8 ^ m" by (metis add.commute mod_mult2_eq mult.commute power_Suc)
  then have "8 ^ m * (8 * v + of_nat (n div 8 ^ m mod 8)) + of_nat (n mod 8 ^ m) = (8 ^ Suc m * v + of_nat (n mod 8 ^ Suc m) :: u64)"
    by (simp add: algebra_simps)
  moreover have "octal_loop (map (\<lambda>i. of_nat (48 + n div 8 ^ i mod 8)) (rev [0..<Suc m]) @ cs) v
      = octal_loop (of_nat (48 + n div 8 ^ m mod 8) # map (\<lambda>i. of_nat (48 + n div 8 ^ i mod 8)) (rev [0..<m]) @ cs) v"
    by (simp del: octal_loop.simps of_nat_add)
  moreover have "n div 8 ^ m mod 8 < 8" by simp
  ultimately show ?case by (simp only: octal_digit Suc.IH)
qed simp

lemma octal_high_bit:
  assumes "d < 8"
  shows "(of_nat (48 + d) :: u8) AND 0x80 = 0"
proof -
  from assms have "d = 0 \<or> d = 1 \<or> d = 2 \<or> d = 3 \<or> d = 4 \<or> d = 5 \<or> d = 6 \<or> d = 7" by linarith
  then show ?thesis by (elim disjE) simp_all
qed

lemma parse_octal_field:
  assumes "n < 8 ^ 11"
  shows "unat (parse_num (octal_field n)) = n"
proof -
  have h: "hd (octal_field n) = of_nat (48 + n div 8 ^ 10 mod 8)" by (simp add: octal_field_def upt_rec)
  have "hd (octal_field n) AND 0x80 = 0"
    unfolding h by (rule octal_high_bit) simp
  then have "parse_num (octal_field n) = octal_loop (octal_field n) 0" by (simp add: parse_num_def)
  also have "\<dots> = of_nat n" using octal_digits [of n 11 "[0]" 0] assms by (simp add: octal_field_def)
  finally show ?thesis using assms by (simp add: unat_of_nat take_bit_eq_mod)
qed

lemma length_field [simp]: "length s \<le> n \<Longrightarrow> length (field n s) = n"
  by (simp add: field_def)

lemma length_octal_field [simp]: "length (octal_field n) = 12"
  by (simp add: octal_field_def)

lemma cstr_field_name: "CHR 0x00 \<notin> set s \<Longrightarrow> cstr (field n s) = s"
  unfolding field_def by (rule cstr_field)

definition text_ok :: "nat \<Rightarrow> string \<Rightarrow> bool" where
  "text_ok n s \<longleftrightarrow> length s \<le> n \<and> CHR 0x00 \<notin> set s"

definition rel_of :: "string \<Rightarrow> string \<Rightarrow> string" where
  "rel_of pre nm = (if pre \<noteq> [] then pre @ ''/'' @ nm else nm)"

lemma header_fields:
  fixes fl pre nm flag n ln
  assumes "fill_ok fl" "text_ok 155 pre" "text_ok 100 nm" "text_ok 100 ln" "nm \<noteq> []"
  defines "h \<equiv> tar_header fl pre nm flag n ln"
  shows "length h = 512" "tar_rel h = rel_of pre nm" "h ! 156 = byte_of flag" "take 12 (drop 124 h) = octal_field n"
    "cstr (take 100 (drop 157 h)) = ln" "\<not> list_all (\<lambda>b. b = 0) h"
proof -
  have l: "length nm \<le> 100" "length pre \<le> 155" "length ln \<le> 100"
    "length (tf_a fl) = 24" "length (tf_b fl) = 20" "length (tf_c fl) = 88" "length (tf_d fl) = 12"
    using assms(1-4) by (simp_all add: text_ok_def fill_ok_def)
  show "length h = 512" using l by (simp add: h_def tar_header_def)
  have "take 100 h = field 100 nm" "take 155 (drop 345 h) = field 155 pre" using l by (simp_all add: h_def tar_header_def)
  then show "tar_rel h = rel_of pre nm"
    using assms(2,3) by (simp add: tar_rel_def cstr_field_name text_ok_def rel_of_def)
  show "h ! 156 = byte_of flag" using l by (simp add: h_def tar_header_def nth_append)
  show "take 12 (drop 124 h) = octal_field n" using l by (simp add: h_def tar_header_def)
  have "take 100 (drop 157 h) = field 100 ln" using l by (simp add: h_def tar_header_def)
  then show "cstr (take 100 (drop 157 h)) = ln" using assms(4) by (simp add: cstr_field_name text_ok_def)
  show "\<not> list_all (\<lambda>b. b = 0) h"
    using assms(3,5) by (cases nm) (auto simp: h_def tar_header_def field_def text_ok_def)
qed

subsection \<open>What the kernel is asked to do\<close>

fun accepts :: "sysop \<Rightarrow> sysres \<Rightarrow> bool" where
  "accepts (Sys_mkdir p) r \<longleftrightarrow> is_made r"
| "accepts (Sys_unlink p) r \<longleftrightarrow> is_ok r \<or> r = S_err ENOENT"
| "accepts (Sys_write p bs) r \<longleftrightarrow> r = S_ok (length bs)"
| "accepts _ r \<longleftrightarrow> is_ok r"

definition obliging :: "'k kernel \<Rightarrow> bool" where
  "obliging K \<longleftrightarrow> (\<forall>op k. accepts op (fst (k_call K op k)))"

definition run_ops :: "'k kernel \<Rightarrow> sysop list \<Rightarrow> 'k \<Rightarrow> 'k" where
  "run_ops K ops k = foldl (\<lambda>k op. snd (k_call K op k)) k ops"

lemma run_ops_simps [simp]:
  "run_ops K [] k = k" "run_ops K (op # ops) k = run_ops K ops (snd (k_call K op k))"
  "run_ops K (ops @ ops') k = run_ops K ops' (run_ops K ops k)"
  by (simp_all add: run_ops_def)

function chunks :: "nat \<Rightarrow> 'a list \<Rightarrow> 'a list list" where
  "chunks n xs = (if xs = [] \<or> n = 0 then [] else take n xs # chunks n (drop n xs))"
  by pat_completeness auto
termination
  by (relation "measure (\<lambda>(n, xs). length xs)") auto

declare chunks.simps [simp del]

definition dir_ops :: "string \<Rightarrow> sysop list" where
  "dir_ops path = map Sys_mkdir (slash_prefixes (trim_slashes path) @ [trim_slashes path])"

fun entry_ops :: "string \<Rightarrow> tar_entry \<Rightarrow> sysop list" where
  "entry_ops base (TE_dir pre nm) = [Sys_mkdir (base @ ''/'' @ rel_of pre nm)]"
| "entry_ops base (TE_link pre nm ln) = [Sys_unlink (base @ ''/'' @ rel_of pre nm), Sys_symlink ln (base @ ''/'' @ rel_of pre nm)]"
| "entry_ops base (TE_file pre nm bs) =
     (let out = base @ ''/'' @ rel_of pre nm in
      dir_ops (parent_of out) @ [Sys_open out] @ map (Sys_write out) (chunks CHUNK bs) @ [Sys_close out])"

fun entry_ok :: "string \<Rightarrow> tar_entry \<Rightarrow> bool" where
  "entry_ok base (TE_dir pre nm) \<longleftrightarrow> text_ok 155 pre \<and> text_ok 100 nm \<and> nm \<noteq> [] \<and> safe_name (rel_of pre nm)"
| "entry_ok base (TE_link pre nm ln) \<longleftrightarrow> text_ok 155 pre \<and> text_ok 100 nm \<and> nm \<noteq> [] \<and> safe_name (rel_of pre nm) \<and> text_ok 100 ln"
| "entry_ok base (TE_file pre nm bs) \<longleftrightarrow> text_ok 155 pre \<and> text_ok 100 nm \<and> nm \<noteq> [] \<and> safe_name (rel_of pre nm)
     \<and> length bs < 8 ^ 11 \<and> length (parent_of (base @ ''/'' @ rel_of pre nm)) < PATH_MAX"

lemma parent_of_not_Nil [simp]: "parent_of out \<noteq> []"
  by (simp add: parent_of_def Let_def)

lemma obliging_ok:
  assumes "obliging K"
  shows "is_made (fst (k_call K (Sys_mkdir p) k))" "is_ok (fst (k_call K (Sys_open p) k))" "is_ok (fst (k_call K (Sys_close p) k))"
    "fst (k_call K (Sys_write p bs) k) = S_ok (length bs)" "is_ok (fst (k_call K (Sys_rename p q) k))"
proof -
  have "accepts op (fst (k_call K op k))" for op k using assms by (simp add: obliging_def)
  note a = this [of "Sys_mkdir p" k] this [of "Sys_open p" k] this [of "Sys_close p" k] this [of "Sys_write p bs" k] this [of "Sys_rename p q" k]
  show "is_made (fst (k_call K (Sys_mkdir p) k))" "is_ok (fst (k_call K (Sys_open p) k))" "is_ok (fst (k_call K (Sys_close p) k))"
    "fst (k_call K (Sys_write p bs) k) = S_ok (length bs)" "is_ok (fst (k_call K (Sys_rename p q) k))"
    using a by simp_all
qed

lemma mkdir_each_ok: "obliging K \<Longrightarrow> mkdir_each K ps k = (True, run_ops K (map Sys_mkdir ps) k)"
proof (induction ps arbitrary: k)
  case (Cons p ps)
  have "is_made (fst (k_call K (Sys_mkdir p) k))" using Cons.prems by (rule obliging_ok)
  with Cons show ?case by (cases "k_call K (Sys_mkdir p) k") simp
qed simp

lemma mkdirs_ok:
  assumes "obliging K" "path \<noteq> []" "length path < PATH_MAX"
  shows "mkdirs K path k = (True, run_ops K (dir_ops path) k)"
  using assms(2,3) mkdir_each_ok [OF assms(1)] by (simp add: mkdirs_def dir_ops_def)

lemma write_all_ok:
  assumes "obliging K" "buf \<noteq> []"
  shows "write_all K fd buf k = Some (True, snd (k_call K (Sys_write fd buf) k))"
proof -
  have "fst (k_call K (Sys_write fd buf) k) = S_ok (length buf)" using assms(1) by (rule obliging_ok)
  then show ?thesis using assms(2) write_all.simps [of K fd buf k] write_all.simps [of K fd "[]"] by simp
qed

lemma drain_loop_ok: "n \<le> length inp \<Longrightarrow> drain_loop n inp = (True, drop n inp)"
proof (induction n inp rule: drain_loop.induct)
  case (1 n inp)
  show ?case
  proof (cases "n = 0")
    case True
    then show ?thesis by (simp add: drain_loop.simps)
  next
    case False
    let ?got = "min (min n HDR_LEN) (length inp)"
    have g: "?got \<noteq> 0" "?got \<le> n" using False 1(2) by (auto simp: HDR_LEN_def)
    have "drain_loop n inp = drain_loop (n - ?got) (drop ?got inp)"
      using False g(1) by (subst drain_loop.simps) (simp only: Let_def if_False)
    also have "\<dots> = (True, drop (n - ?got) (drop ?got inp))"
      using 1(1) [OF False refl g(1)] 1(2) by simp
    finally show ?thesis using g(2) by simp
  qed
qed

lemma copy_data_done:
  assumes "sz = 0 \<or> take (min CHUNK sz) inp = []"
  shows "copy_data K inp sz fd k = Some (sz = 0, inp, k)"
proof (cases "sz = 0")
  case False
  with assms show ?thesis by (subst copy_data.simps) (simp only: Let_def if_True if_False simp_thms)
qed (simp add: copy_data.simps)

lemma copy_data_step:
  assumes "\<not> (sz = 0 \<or> take (min CHUNK sz) inp = [])"
  shows "copy_data K inp sz fd k = (case write_all K fd (take (min CHUNK sz) inp) k of
      None \<Rightarrow> None
    | Some (ok, k') \<Rightarrow> if \<not> ok then Some (False, drop (min CHUNK sz) inp, k')
        else copy_data K (drop (min CHUNK sz) inp) (sz - length (take (min CHUNK sz) inp)) fd k')"
  using assms by (subst copy_data.simps) (simp only: Let_def if_False de_Morgan_disj)

lemma copy_data_ok:
  "obliging K \<Longrightarrow> sz \<le> length inp \<Longrightarrow>
    copy_data K inp sz fd k = Some (True, drop sz inp, run_ops K (map (Sys_write fd) (chunks CHUNK (take sz inp))) k)"
proof (induction K inp sz fd k rule: copy_data.induct)
  case (1 K inp sz fd k)
  show ?case
  proof (cases "sz = 0")
    case True
    then show ?thesis by (simp add: copy_data.simps chunks.simps)
  next
    case False
    let ?m = "min CHUNK sz"
    let ?got = "take ?m inp"
    let ?k' = "snd (k_call K (Sys_write fd ?got) k)"
    have len: "length ?got = ?m" using 1(3) by simp
    have ne: "?got \<noteq> []" using False 1(3) by (auto simp: CHUNK_def)
    note w = write_all_ok [OF 1(2) ne, of fd k]
    have "copy_data K inp sz fd k = copy_data K (drop ?m inp) (sz - length ?got) fd ?k'"
      using False ne by (subst copy_data_step) (simp_all only: w option.case prod.case simp_thms if_False)
    also have "\<dots> = Some (True, drop (sz - length ?got) (drop ?m inp),
        run_ops K (map (Sys_write fd) (chunks CHUNK (take (sz - length ?got) (drop ?m inp)))) ?k')"
      using 1(1) [OF False refl refl ne w refl _ 1(2)] 1(3) by simp
    also have "drop (sz - length ?got) (drop ?m inp) = drop sz inp" using len by simp
    also have "run_ops K (map (Sys_write fd) (chunks CHUNK (take (sz - length ?got) (drop ?m inp)))) ?k'
        = run_ops K (map (Sys_write fd) (?got # chunks CHUNK (drop CHUNK (take sz inp)))) k"
      unfolding len by (cases "CHUNK \<le> sz") (simp_all add: drop_take chunks.simps)
    also have "?got # chunks CHUNK (drop CHUNK (take sz inp)) = chunks CHUNK (take sz inp)"
      using ne by (subst (2) chunks.simps) (auto simp: CHUNK_def)
    finally show ?thesis .
  qed
qed

lemma extract_step:
  assumes "length h = 512" "\<not> list_all (\<lambda>b. b = 0) h" "h ! 156 = byte_of flag" "flag \<noteq> CHR ''L''" "flag \<noteq> CHR ''K''"
    "safe_name (tar_rel h)" "extract_entry K (base @ ''/'' @ tar_rel h) h data k = Some (True, rest, k')"
  shows "extract_tar K base (h @ data) k = extract_tar K base rest k'"
  using assms by (subst extract_tar.simps) (simp add: HDR_LEN_def Let_def)

lemma extract_file_ok:
  assumes "obliging K" "length (parent_of out) < PATH_MAX"
  shows "extract_file K out (length bs) (bs @ replicate (pad_len (length bs)) 0 @ rest) k
    = Some (True, rest, run_ops K (dir_ops (parent_of out) @ [Sys_open out] @ map (Sys_write out) (chunks CHUNK bs) @ [Sys_close out]) k)"
proof -
  let ?inp = "bs @ replicate (pad_len (length bs)) 0 @ rest"
  let ?k1 = "run_ops K (dir_ops (parent_of out)) k"
  let ?k2 = "snd (k_call K (Sys_open out) ?k1)"
  let ?k3 = "run_ops K (map (Sys_write out) (chunks CHUNK bs)) ?k2"
  have c: "copy_data K ?inp (length bs) out ?k2 = Some (True, replicate (pad_len (length bs)) 0 @ rest, ?k3)"
    using copy_data_ok [OF assms(1), of "length bs" ?inp out ?k2] by simp
  have s: "skip_pad_only (replicate (pad_len (length bs)) 0 @ rest) (length bs) = (True, rest)"
    by (simp add: skip_pad_only_def drain_loop_ok)
  show ?thesis
    using c s mkdirs_ok [OF assms(1) parent_of_not_Nil assms(2), of k] obliging_ok [OF assms(1)]
    by (simp add: extract_file_def case_prod_beta)
qed

lemma extract_link_ok:
  assumes "obliging K"
  shows "extract_link K out ln k = (True, run_ops K [Sys_unlink out, Sys_symlink ln out] k)"
proof -
  have "accepts (Sys_unlink out) (fst (k_call K (Sys_unlink out) k))"
    "accepts (Sys_symlink ln out) (fst (k_call K (Sys_symlink ln out) (snd (k_call K (Sys_unlink out) k))))"
    using assms unfolding obliging_def by blast+
  then show ?thesis by (auto simp: extract_link_def split: prod.splits)
qed

lemma extract_one:
  assumes "obliging K" "fill_ok fl" "entry_ok base e"
  shows "extract_tar K base (tar_bytes (fl, e) @ rest) k = extract_tar K base rest (run_ops K (entry_ops base e) k)"
proof (cases e)
  case (TE_dir pre nm)
  note h = header_fields [OF assms(2), of pre nm "[]" "CHR ''5''" 0]
  obtain r k1 where m: "k_call K (Sys_mkdir (base @ ''/'' @ rel_of pre nm)) k = (r, k1)" by fastforce
  then have "is_made r" using obliging_ok(1) [OF assms(1)] by (metis fst_conv)
  show ?thesis
    unfolding TE_dir tar_bytes.simps
  proof (rule extract_step [where flag = "CHR ''5''"])
    show "extract_entry K (base @ ''/'' @ tar_rel (tar_header fl pre nm CHR ''5'' 0 [])) (tar_header fl pre nm CHR ''5'' 0 []) rest k
        = Some (True, rest, run_ops K (entry_ops base (TE_dir pre nm)) k)"
      using h assms(3) TE_dir m \<open>is_made r\<close> by (simp add: extract_entry_def text_ok_def)
  qed (use h assms(3) TE_dir in \<open>simp_all add: text_ok_def\<close>)
next
  case (TE_link pre nm ln)
  note h = header_fields [OF assms(2), of pre nm ln "CHR ''2''" 0]
  show ?thesis
    unfolding TE_link tar_bytes.simps
  proof (rule extract_step [where flag = "CHR ''2''"])
    show "extract_entry K (base @ ''/'' @ tar_rel (tar_header fl pre nm CHR ''2'' 0 ln)) (tar_header fl pre nm CHR ''2'' 0 ln) rest k
        = Some (True, rest, run_ops K (entry_ops base (TE_link pre nm ln)) k)"
      using h assms(3) TE_link extract_link_ok [OF assms(1)] by (simp add: extract_entry_def)
  qed (use h assms(3) TE_link in simp_all)
next
  case (TE_file pre nm bs)
  note h = header_fields [OF assms(2), of pre nm "[]" "CHR ''0''" "length bs"]
  let ?h = "tar_header fl pre nm CHR ''0'' (length bs) []"
  have ok: "text_ok 155 pre" "text_ok 100 nm" "nm \<noteq> []" "text_ok 100 []" "length bs < 8 ^ 11"
    "length (parent_of (base @ ''/'' @ rel_of pre nm)) < PATH_MAX"
    using assms(3) TE_file by (simp_all add: text_ok_def)
  have "extract_tar K base (?h @ bs @ replicate (pad_len (length bs)) 0 @ rest) k
      = extract_tar K base rest (run_ops K (entry_ops base (TE_file pre nm bs)) k)"
  proof (rule extract_step [where flag = "CHR ''0''"])
    show "extract_entry K (base @ ''/'' @ tar_rel ?h) ?h (bs @ replicate (pad_len (length bs)) 0 @ rest) k
        = Some (True, rest, run_ops K (entry_ops base (TE_file pre nm bs)) k)"
      using h ok extract_file_ok [OF assms(1) ok(6), of bs rest k] parse_octal_field [OF ok(5)]
      by (simp add: extract_entry_def Let_def)
  qed (use h ok assms(3) TE_file in simp_all)
  then show ?thesis unfolding TE_file by (simp add: pad_len_blocks)
qed

lemma extract_all:
  assumes "obliging K" "list_all (\<lambda>(fl, e). fill_ok fl \<and> entry_ok base e) es"
  shows "extract_tar K base (concat (map tar_bytes es) @ replicate 512 0 @ rest) k
    = Some (True, run_ops K (concat (map (\<lambda>(fl, e). entry_ops base e) es)) k)"
  using assms(2)
proof (induction es arbitrary: k)
  case Nil
  then show ?case by (subst extract_tar.simps) (simp add: HDR_LEN_def list_all_iff)
next
  case (Cons x es)
  then show ?case by (cases x) (simp add: extract_one [OF assms(1)])
qed

text \<open>
  C12. A ustar archive of directories, links and regular files is extracted member by member: when the kernel
  carries out the calls, exactly the directories above each file are made, the file is written with its own
  bytes in pieces of one chunk and closed, links are replaced, and extraction ends well at the first zero block.
\<close>

theorem extract_archive:
  assumes "obliging K" "list_all (\<lambda>(fl, e). fill_ok fl \<and> entry_ok base e) es"
  shows "extract_tar K base (concat (map tar_bytes es) @ replicate 512 0 @ rest) k
    = Some (True, run_ops K (concat (map (\<lambda>(fl, e). entry_ops base e) es)) k)"
  using assms by (rule extract_all)

text \<open>A kernel that does everything and keeps the calls.\<close>

definition log_kernel :: "sysop list kernel" where
  "log_kernel = \<lparr>k_call = (\<lambda>op k. (case op of Sys_write p bs \<Rightarrow> S_ok (length bs) | _ \<Rightarrow> S_ok 0, k @ [op])),
     k_lstat = (\<lambda>p k. None), k_list = (\<lambda>p k. None), k_read = (\<lambda>p k. None), k_mkdtemp = (\<lambda>p k. (None, k))\<rparr>"

lemma log_kernel_obliging: "obliging log_kernel"
  unfolding obliging_def
proof (intro allI)
  fix op k
  show "accepts op (fst (k_call log_kernel op k))" by (cases op) (simp_all add: log_kernel_def is_made_def is_ok_def)
qed

definition example_fill :: tar_fill where
  "example_fill = \<lparr>tf_a = replicate 24 0, tf_b = replicate 20 0, tf_c = replicate 88 0, tf_d = replicate 12 0\<rparr>"

lemma example_fill_ok: "fill_ok example_fill"
  by (simp add: fill_ok_def example_fill_def)

lemma example_file_ok: "safe_name nm \<Longrightarrow> set nm \<subseteq> {CHR ''.'', CHR ''/'', CHR ''x''} \<Longrightarrow> nm \<noteq> [] \<Longrightarrow> length nm \<le> 100 \<Longrightarrow>
    length bs < 8 ^ 11 \<Longrightarrow> length (parent_of (base @ ''/'' @ nm)) < PATH_MAX \<Longrightarrow> entry_ok base (TE_file [] nm bs)"
  by (auto simp: text_ok_def rel_of_def)

lemma example_extract:
  "extract_tar log_kernel ''b'' (concat (map tar_bytes [(example_fill, TE_file [] ''x'' [1, 2])]) @ replicate 512 0 @ []) []
   = Some (True, [Sys_mkdir ''b'', Sys_open ''b/x'', Sys_write ''b/x'' [1, 2], Sys_close ''b/x''])"
proof -
  have "safe_name ''x''" by (simp add: safe_name_iff)
  moreover have p: "parent_of ''b/x'' = ''b''" by (simp add: parent_of_def)
  ultimately have "entry_ok ''b'' (TE_file [] ''x'' [1, 2])" by (intro example_file_ok) (simp_all add: PATH_MAX_def)
  then have a: "list_all (\<lambda>(fl, e). fill_ok fl \<and> entry_ok ''b'' e) [(example_fill, TE_file [] ''x'' [1, 2])]"
    by (simp add: example_fill_ok)
  have "chunks CHUNK [1, 2 :: u8] = [[1, 2]]" by (simp add: chunks.simps CHUNK_def)
  then show ?thesis
    unfolding extract_all [OF log_kernel_obliging a]
    by (simp add: log_kernel_def rel_of_def p Let_def dir_ops_def trim_slashes_def slash_prefixes_def)
qed

theorem extract_archive_witness:
  "extract_tar log_kernel ''b'' (concat (map tar_bytes [(example_fill, TE_dir [] ''x'')]) @ replicate 512 0 @ []) [] = Some (True, [Sys_mkdir ''b/x''])"
proof -
  have "safe_name ''x''" by (simp add: safe_name_iff)
  then have a: "list_all (\<lambda>(fl, e). fill_ok fl \<and> entry_ok ''b'' e) [(example_fill, TE_dir [] ''x'')]"
    by (simp add: example_fill_ok text_ok_def rel_of_def)
  show ?thesis
    unfolding extract_archive [OF log_kernel_obliging a] by (simp add: log_kernel_def rel_of_def)
qed

subsection \<open>Where extraction writes\<close>

definition below :: "string \<Rightarrow> string \<Rightarrow> bool" where
  "below base p \<longleftrightarrow> (\<exists>rel. p = base @ ''/'' @ rel \<and> \<not> (rel \<noteq> [] \<and> hd rel = CHR ''/'') \<and> ''..'' \<notin> set (tl (comps rel)))"

fun allowed :: "string \<Rightarrow> sysop \<Rightarrow> bool" where
  "allowed base (Sys_mkdir p) \<longleftrightarrow> (\<exists>n q. below base q \<and> p = take n q)"
| "allowed base (Sys_unlink p) \<longleftrightarrow> below base p"
| "allowed base (Sys_symlink t p) \<longleftrightarrow> below base p"
| "allowed base (Sys_open p) \<longleftrightarrow> below base p"
| "allowed base (Sys_write p bs) \<longleftrightarrow> below base p"
| "allowed base (Sys_close p) \<longleftrightarrow> below base p"
| "allowed base _ \<longleftrightarrow> False"

definition sys_keeps :: "'k kernel \<Rightarrow> string \<Rightarrow> ('k \<Rightarrow> bool) \<Rightarrow> bool" where
  "sys_keeps K base I \<longleftrightarrow> (\<forall>op k. I k \<longrightarrow> allowed base op \<longrightarrow> I (snd (k_call K op k)))"

lemma sys_keepsD: "sys_keeps K base I \<Longrightarrow> I k \<Longrightarrow> allowed base op \<Longrightarrow> k_call K op k = (r, k') \<Longrightarrow> I k'"
  unfolding sys_keeps_def by (metis snd_conv)

lemma rev_dropWhile_rev_prefix: "\<exists>n. rev (dropWhile P (rev xs)) = take n xs"
proof
  have "rev xs = takeWhile P (rev xs) @ dropWhile P (rev xs)" by simp
  then have "xs = rev (dropWhile P (rev xs)) @ rev (takeWhile P (rev xs))" by (metis rev_append rev_rev_ident)
  then show "rev (dropWhile P (rev xs)) = take (length (rev (dropWhile P (rev xs)))) xs" by (metis append_eq_conv_conj)
qed

lemma parent_of_prefix:
  assumes "base \<noteq> []"
  shows "\<exists>n. parent_of (base @ ''/'' @ rel) = take n (base @ ''/'' @ rel)"
proof -
  let ?P = "\<lambda>c. c \<noteq> CHR ''/''"
  let ?out = "base @ ''/'' @ rel"
  let ?d = "dropWhile ?P (rev ?out)"
  have d: "?d = (if \<forall>c \<in> set rel. ?P c then CHR ''/'' # rev base else dropWhile ?P (rev rel) @ CHR ''/'' # rev base)"
    by (auto simp: dropWhile_append)
  then have ne: "rev (tl ?d) \<noteq> []" using assms by auto
  obtain n where n: "rev ?d = take n ?out" using rev_dropWhile_rev_prefix by blast
  have "rev (tl ?d) = butlast (rev ?d)" by (simp only: butlast_rev)
  also have "\<dots> = take (length (take n ?out) - 1) (take n ?out)" unfolding n by (rule butlast_conv_take)
  finally have "rev (tl ?d) = take (min (length (take n ?out) - 1) n) ?out" by (simp only: take_take)
  moreover have "parent_of ?out = rev (tl ?d)" using ne by (simp add: parent_of_def)
  ultimately show ?thesis by metis
qed

lemma mkdir_each_keeps:
  "sys_keeps K base I \<Longrightarrow> I k \<Longrightarrow> \<forall>p \<in> set ps. allowed base (Sys_mkdir p) \<Longrightarrow> mkdir_each K ps k = (ok, k') \<Longrightarrow> I k'"
proof (induction ps arbitrary: k)
  case (Cons p ps)
  obtain r k1 where c: "k_call K (Sys_mkdir p) k = (r, k1)" by fastforce
  then have "I k1" using sys_keepsD Cons.prems by (metis list.set_intros(1))
  with Cons c show ?case by (auto split: if_splits)
qed simp

lemma mkdirs_keeps:
  assumes "sys_keeps K base I" "I k" "below base q" "mkdirs K (take n q) k = (ok, k')"
  shows "I k'"
proof -
  obtain m where m: "trim_slashes (take n q) = take m (take n q)"
    unfolding trim_slashes_def using rev_dropWhile_rev_prefix by blast
  have "allowed base (Sys_mkdir p)" if "p \<in> set (slash_prefixes (trim_slashes (take n q)) @ [trim_slashes (take n q)])" for p
  proof -
    from that obtain i where "p = take i (trim_slashes (take n q)) \<or> p = trim_slashes (take n q)"
      by (auto simp: slash_prefixes_def)
    then obtain j where "p = take j q" unfolding m by auto
    then show ?thesis using assms(3) by auto
  qed
  then have a: "\<forall>p \<in> set (slash_prefixes (trim_slashes (take n q)) @ [trim_slashes (take n q)]). allowed base (Sys_mkdir p)" by blast
  show ?thesis
  proof (cases "take n q = [] \<or> PATH_MAX \<le> length (take n q)")
    case True
    then show ?thesis using assms(2,4) unfolding mkdirs_def by (simp only: if_True prod.inject)
  next
    case False
    with assms(4) have "mkdir_each K (slash_prefixes (trim_slashes (take n q)) @ [trim_slashes (take n q)]) k = (ok, k')"
      unfolding mkdirs_def by (simp only: if_False)
    then show ?thesis using mkdir_each_keeps [OF assms(1,2) a] by blast
  qed
qed

lemma write_all_keeps:
  assumes "write_all K fd buf k = Some r" "sys_keeps K base I" "below base fd" "I k"
  shows "I (snd r)"
proof -
  have "sys_keeps K base I \<longrightarrow> below base fd \<longrightarrow> I k \<longrightarrow> I (snd r)"
    using assms(1)
  proof (rule write_all.raw_induct [rotated])
    fix wr :: "'a kernel \<Rightarrow> string \<Rightarrow> u8 list \<Rightarrow> 'a \<Rightarrow> (bool \<times> 'a) option" and K fd buf k r
    assume ih: "\<And>K fd buf k r. wr K fd buf k = Some r \<Longrightarrow> sys_keeps K base I \<longrightarrow> below base fd \<longrightarrow> I k \<longrightarrow> I (snd r)"
    assume r: "(if buf = [] then Some (True, k)
        else case fst (k_call K (Sys_write fd buf) k) of
            S_ok w \<Rightarrow> wr K fd (drop w buf) (snd (k_call K (Sys_write fd buf) k))
          | S_err e \<Rightarrow> if e = EINTR then wr K fd buf (snd (k_call K (Sys_write fd buf) k))
              else Some (False, snd (k_call K (Sys_write fd buf) k))) = Some r"
    show "sys_keeps K base I \<longrightarrow> below base fd \<longrightarrow> I k \<longrightarrow> I (snd r)"
    proof (intro impI)
      assume a: "sys_keeps K base I" "below base fd" "I k"
      then have "I (snd (k_call K (Sys_write fd buf) k))" by (simp add: sys_keeps_def)
      with a r ih show "I (snd r)" by (auto split: sysres.splits if_splits)
    qed
  qed
  with assms show ?thesis by blast
qed

lemma copy_data_keeps:
  "copy_data K inp sz fd k = Some (ok, left, k') \<Longrightarrow> sys_keeps K base I \<Longrightarrow> below base fd \<Longrightarrow> I k \<Longrightarrow> I k'"
proof (induction K inp sz fd k rule: copy_data.induct)
  case (1 K inp sz fd k)
  let ?got = "take (min CHUNK sz) inp"
  show ?case
  proof (cases "sz = 0 \<or> ?got = []")
    case True
    then show ?thesis using 1(2,5) unfolding copy_data_done [OF True] by simp
  next
    case False
    then obtain ok1 k1 where w: "write_all K fd ?got k = Some (ok1, k1)"
      using 1(2) unfolding copy_data_step [OF False] by (auto split: option.splits)
    then have i: "I k1" using write_all_keeps [OF _ 1(3-5)] by fastforce
    show ?thesis
    proof (cases ok1)
      case True
      have "copy_data K (drop (min CHUNK sz) inp) (sz - length ?got) fd k1 = Some (ok, left, k')"
        using 1(2) True unfolding copy_data_step [OF False] w by simp
      moreover have "sz \<noteq> 0" "?got \<noteq> []" "\<not> \<not> ok1" using False True by (simp_all del: take_eq_Nil)
      ultimately show ?thesis using 1(1) [OF _ refl refl _ w refl] i 1(3,4) by blast
    next
      case no: False
      with 1(2) i show ?thesis unfolding copy_data_step [OF False] w by simp
    qed
  qed
qed

lemma below_name: "safe_name rel \<Longrightarrow> below base (base @ ''/'' @ rel)"
  by (auto simp: below_def safe_name_iff)

lemma below_allowed_mkdir: "below base q \<Longrightarrow> allowed base (Sys_mkdir q)"
  by (metis allowed.simps(1) order_refl take_all_iff)

lemma extract_file_keeps:
  assumes "extract_file K (base @ ''/'' @ rel) sz inp k = Some (ok, left, k')" "sys_keeps K base I" "safe_name rel" "I k" "base \<noteq> []"
  shows "I k'"
proof -
  let ?out = "base @ ''/'' @ rel"
  have b: "below base ?out" by (rule below_name [OF assms(3)])
  obtain n where n: "parent_of ?out = take n ?out" using parent_of_prefix [OF assms(5)] by blast
  obtain made k1 where m: "mkdirs K (parent_of ?out) k = (made, k1)" by fastforce
  then have i1: "I k1" using mkdirs_keeps [OF assms(2,4) b] n by metis
  show ?thesis
  proof (cases made)
    case True
    obtain r k2 where o: "k_call K (Sys_open ?out) k1 = (r, k2)" by fastforce
    then have i2: "I k2" using sys_keepsD [OF assms(2) i1] b by (metis allowed.simps(4))
    show ?thesis
    proof (cases "is_ok r")
      case ok: True
      obtain cp l3 k3 where c: "copy_data K inp sz ?out k2 = Some (cp, l3, k3)"
        using assms(1) True ok m o unfolding extract_file_def by (auto split: option.splits)
      then have i3: "I k3" using copy_data_keeps [OF _ assms(2) b i2] by blast
      obtain rc k4 where cl: "k_call K (Sys_close ?out) k3 = (rc, k4)" by fastforce
      then have "I k4" using sys_keepsD [OF assms(2) i3] b by (metis allowed.simps(6))
      then show ?thesis
        using assms(1) True ok m o c cl unfolding extract_file_def by (auto split: prod.splits)
    qed (use assms(1) True m o i2 in \<open>simp add: extract_file_def\<close>)
  qed (use assms(1) m i1 in \<open>simp add: extract_file_def\<close>)
qed

lemma extract_entry_keeps:
  assumes "extract_entry K (base @ ''/'' @ rel) hdr inp k = Some (ok, left, k')" "sys_keeps K base I" "safe_name rel" "I k" "base \<noteq> []"
  shows "I k'"
proof -
  let ?out = "base @ ''/'' @ rel"
  have b: "below base ?out" by (rule below_name [OF assms(3)])
  obtain r k1 where m: "k_call K (Sys_mkdir ?out) k = (r, k1)" by fastforce
  then have "I k1" using sys_keepsD [OF assms(2,4)] below_allowed_mkdir [OF b] by blast
  moreover have "I k2" if "extract_link K ?out ln k = (ok2, k2)" for ln ok2 k2
  proof -
    obtain r1 k1 where u: "k_call K (Sys_unlink ?out) k = (r1, k1)" by fastforce
    then have i: "I k1" using sys_keepsD [OF assms(2,4)] b by (metis allowed.simps(2))
    obtain r2 k3 where "k_call K (Sys_symlink ln ?out) k1 = (r2, k3)" by fastforce
    moreover from this have "I k3" using sys_keepsD [OF assms(2) i] b by (metis allowed.simps(3))
    ultimately show ?thesis using that u i by (auto simp: extract_link_def split: if_splits)
  qed
  moreover have "I k2" if "extract_file K ?out sz inp k = Some (ok2, l2, k2)" for sz ok2 l2 k2
    using extract_file_keeps [OF that assms(2-5)] .
  ultimately show ?thesis
    using assms(1,4) m by (auto simp: extract_entry_def Let_def split: if_splits prod.splits)
qed

definition is_long :: "u8 list \<Rightarrow> bool" where
  "is_long hdr \<longleftrightarrow> hdr ! 156 = byte_of CHR ''L'' \<or> hdr ! 156 = byte_of CHR ''K''"

lemma extract_tar_end:
  assumes "length inp < HDR_LEN \<or> list_all (\<lambda>b. b = 0) (take HDR_LEN inp)"
  shows "extract_tar K base inp k = Some (HDR_LEN \<le> length inp \<or> inp = [], k)"
  using assms by (subst extract_tar.simps) (auto simp: Let_def)

lemma extract_tar_long:
  assumes "\<not> (length inp < HDR_LEN \<or> list_all (\<lambda>b. b = 0) (take HDR_LEN inp))" "is_long (take HDR_LEN inp)"
  shows "\<exists>ok left. length left < length inp \<and> skip_padded (drop HDR_LEN inp) (unat (parse_num (take 12 (drop 124 (take HDR_LEN inp))))) = (ok, left)
    \<and> extract_tar K base inp k = (if ok then extract_tar K base left k else Some (False, k))"
proof -
  let ?r = "skip_padded (drop HDR_LEN inp) (unat (parse_num (take 12 (drop 124 (take HDR_LEN inp)))))"
  have "extract_tar K base inp k = (if fst ?r then extract_tar K base (snd ?r) k else Some (False, k))"
    using assms unfolding is_long_def by (subst extract_tar.simps) (simp only: Let_def if_True if_False de_Morgan_disj)
  moreover have "length (snd ?r) \<le> length (drop HDR_LEN inp)"
    by (rule skip_padded_length) (rule prod.collapse [symmetric])
  ultimately show ?thesis
    using assms(1) by (intro exI [of _ "fst ?r"] exI [of _ "snd ?r"]) (auto simp: HDR_LEN_def)
qed

lemma extract_tar_member:
  assumes "\<not> (length inp < HDR_LEN \<or> list_all (\<lambda>b. b = 0) (take HDR_LEN inp))" "\<not> is_long (take HDR_LEN inp)"
  shows "extract_tar K base inp k =
    (if \<not> safe_name (tar_rel (take HDR_LEN inp)) then Some (False, k)
     else
       (case extract_entry K (base @ ''/'' @ tar_rel (take HDR_LEN inp)) (take HDR_LEN inp) (drop HDR_LEN inp) k of
          None \<Rightarrow> None
        | Some (ok, rest', k') \<Rightarrow> if ok then extract_tar K base rest' k' else Some (False, k')))"
  using assms unfolding is_long_def by (subst extract_tar.simps) (simp only: Let_def if_False de_Morgan_disj simp_thms)

lemma extract_keeps:
  assumes "extract_tar K base inp k = Some (ok, k')" "base \<noteq> []" "sys_keeps K base I" "I k"
  shows "I k'"
  using assms(1,4)
proof (induction inp arbitrary: k rule: length_induct)
  case (1 inp)
  let ?h = "take HDR_LEN inp"
  show ?case
  proof (cases "length inp < HDR_LEN \<or> list_all (\<lambda>b. b = 0) ?h")
    case True
    then show ?thesis using 1(2,3) unfolding extract_tar_end [OF True] by simp
  next
    case more: False
    show ?thesis
    proof (cases "is_long ?h")
      case True
      from extract_tar_long [OF more this, of K base k] 1 show ?thesis by (auto split: if_splits)
    next
      case False
      note m = extract_tar_member [OF more False, of K base k]
      show ?thesis
      proof (cases "safe_name (tar_rel ?h)")
        case True
        then obtain ok1 left k1 where e: "extract_entry K (base @ ''/'' @ tar_rel ?h) ?h (drop HDR_LEN inp) k = Some (ok1, left, k1)"
          using 1(2) m by (auto split: option.splits)
        then have i: "I k1" using extract_entry_keeps [OF _ assms(3) True 1(3) assms(2)] by blast
        have "length left < length inp"
          using extract_entry_length [OF e] more by (auto simp: HDR_LEN_def)
        then show ?thesis using 1(1,2) m e True i by (auto split: if_splits)
      qed (use 1(2,3) m in simp)
    qed
  qed
qed

text \<open>
  C13. Whatever the archive and whatever the kernel, every call of the extraction concerns a name below the target
  directory, or a directory on the way to one, in which no component after the first is two dots: what
  these calls keep is kept by the extraction.
\<close>

theorem extract_confined:
  assumes "extract_tar K base inp k = Some (ok, k')" "sys_keeps K base I" "I k" "base \<noteq> []"
  shows "I k'"
  using assms(1,4,2,3) by (rule extract_keeps)

theorem extract_confined_witness:
  "(\<lambda>ops. list_all (allowed ''b'') ops) [Sys_mkdir ''b'', Sys_open ''b/x'', Sys_write ''b/x'' [1, 2], Sys_close ''b/x'']"
proof (rule extract_confined [where K = log_kernel and base = "''b''" and k = "[]"])
  show "sys_keeps log_kernel ''b'' (\<lambda>ops. list_all (allowed ''b'') ops)" by (simp add: sys_keeps_def log_kernel_def)
  show "extract_tar log_kernel ''b'' (concat (map tar_bytes [(example_fill, TE_file [] ''x'' [1, 2])]) @ replicate 512 0 @ []) []
      = Some (True, [Sys_mkdir ''b'', Sys_open ''b/x'', Sys_write ''b/x'' [1, 2], Sys_close ''b/x''])"
    by (rule example_extract)
qed simp_all

text \<open>
  C40. A member whose name starts with two dots is not refused: it is written beside the target directory.
\<close>

theorem extract_escapes:
  assumes "obliging K" "fill_ok fl" "length base < PATH_MAX - 3" "length bs \<le> CHUNK" "bs \<noteq> []"
  shows "extract_tar K base (tar_bytes (fl, TE_file [] ''../x'' bs) @ replicate 512 0) k
    = Some (True, run_ops K (dir_ops (base @ ''/..'') @ [Sys_open (base @ ''/../x''), Sys_write (base @ ''/../x'') bs, Sys_close (base @ ''/../x'')]) k)"
proof -
  have p: "parent_of (base @ ''/../x'') = base @ ''/..''" by (simp add: parent_of_def)
  have "safe_name ''../x''" by (simp add: safe_name_iff)
  then have e: "entry_ok base (TE_file [] ''../x'' bs)"
    using assms(3,4) p by (intro example_file_ok) (simp_all add: PATH_MAX_def CHUNK_def)
  have "chunks CHUNK bs = [bs]" using assms(4,5) by (simp add: chunks.simps CHUNK_def)
  moreover have "extract_tar K base (replicate 512 0) k' = Some (True, k')" for k'
    by (subst extract_tar_end) (simp_all add: HDR_LEN_def list_all_iff)
  ultimately show ?thesis using p unfolding extract_one [OF assms(1,2) e] by (simp add: rel_of_def Let_def)
qed

theorem extract_escapes_witness:
  "extract_tar log_kernel ''b'' (tar_bytes (example_fill, TE_file [] ''../x'' [1]) @ replicate 512 0) []
    = Some (True, [Sys_mkdir ''b'', Sys_mkdir ''b/..'', Sys_open ''b/../x'', Sys_write ''b/../x'' [1], Sys_close ''b/../x''])"
  using extract_escapes [OF log_kernel_obliging example_fill_ok, of "''b''" "[1]" "[]"]
  by (simp add: PATH_MAX_def CHUNK_def log_kernel_def dir_ops_def trim_slashes_def slash_prefixes_def upt_rec)

end
