(* ===== verification/Driver.thy ===== *)
theory Driver
  imports Archive "HOL-Library.Sublist"
begin

text \<open>
  The czet driver (src/src/czet.c): the extraction cache and the command line for the embedded compiler.  The state
  of the file system belongs to the kernel; \<open>None\<close> stands for a run that does not end.  The environment and the
  executable's own bytes are parameters.
\<close>

subsection \<open>The cache\<close>

definition hex_char :: "nat \<Rightarrow> char" where
  "hex_char d = char_of (if d < 10 then 48 + d else 87 + d)"

text \<open>The conversion \<^verbatim>\<open>%016llx\<close>.\<close>

definition hex16 :: "u64 \<Rightarrow> string" where
  "hex16 h = map (\<lambda>i. hex_char (unat h div 16 ^ i mod 16)) (rev [0..<16])"

definition non_empty :: "string option \<Rightarrow> bool" where
  "non_empty s \<longleftrightarrow> (case s of None \<Rightarrow> False | Some x \<Rightarrow> x \<noteq> [])"

definition cache_root :: "string option \<Rightarrow> string option \<Rightarrow> string" where
  "cache_root xdg home =
     (if non_empty xdg then the xdg
      else (if non_empty home then the home else ''/tmp'') @ ''/.cache'')"

text \<open>Links are not followed.  The fuel bounds the depth of the tree.\<close>

fun remove_tree :: "nat \<Rightarrow> 'k kernel \<Rightarrow> string \<Rightarrow> 'k \<Rightarrow> 'k option"
  and remove_each :: "nat \<Rightarrow> 'k kernel \<Rightarrow> string \<Rightarrow> string list \<Rightarrow> 'k \<Rightarrow> 'k option"
where
  "remove_tree 0 K p k = None"
| "remove_tree (Suc n) K p k =
     (case k_lstat K p k of
        None \<Rightarrow> Some k
      | Some is_dir \<Rightarrow>
          if is_dir then
            (case k_list K p k of
               None \<Rightarrow> Some k
             | Some es \<Rightarrow>
                 (case remove_each n K p es k of
                    None \<Rightarrow> None
                  | Some k' \<Rightarrow> Some (snd (k_call K (Sys_rmdir p) k'))))
          else Some (snd (k_call K (Sys_unlink p) k)))"
| "remove_each n K p [] k = Some k"
| "remove_each n K p (e # es) k =
     (if e = ''.'' \<or> e = ''..'' then remove_each n K p es k
      else
        (case remove_tree n K (p @ ''/'' @ e) k of
           None \<Rightarrow> None
         | Some k' \<Rightarrow> remove_each n K p es k'))"

definition cache_dir :: "string option \<Rightarrow> string option \<Rightarrow> u64 \<Rightarrow> string" where
  "cache_dir xdg home h = cache_root xdg home @ ''/czet'' @ ''/'' @ hex16 h"

definition is_cached :: "'k kernel \<Rightarrow> string \<Rightarrow> u64 \<Rightarrow> 'k \<Rightarrow> bool" where
  "is_cached K dir h k \<longleftrightarrow>
     (case k_read K (dir @ ''/.done'') k of
        None \<Rightarrow> False
      | Some bs \<Rightarrow> take 16 bs = map byte_of (hex16 h))"

definition stamp :: "'k kernel \<Rightarrow> string \<Rightarrow> u64 \<Rightarrow> 'k \<Rightarrow> 'k" where
  "stamp K work h k =
     (case k_call K (Sys_open (work @ ''/.done'')) k of (r, k1) \<Rightarrow>
        if is_ok r
        then snd (k_call K (Sys_close (work @ ''/.done''))
               (snd (k_call K (Sys_write (work @ ''/.done'') (map byte_of (hex16 h))) k1)))
        else k1)"

text \<open>Moving the extracted tree into place.\<close>

definition install :: "nat \<Rightarrow> 'k kernel \<Rightarrow> string \<Rightarrow> string \<Rightarrow> 'k \<Rightarrow> (string option \<times> 'k) option" where
  "install n K work dir k =
     (case remove_tree n K dir k of
        None \<Rightarrow> None
      | Some k1 \<Rightarrow>
          (case k_call K (Sys_rename work dir) k1 of (r, k2) \<Rightarrow>
             if is_ok r then Some (Some dir, k2)
             else map_option (\<lambda>k3. (None, k3)) (remove_tree n K work k2)))"

definition extract_blob :: "'k kernel \<Rightarrow> u8 list \<Rightarrow> u64 \<Rightarrow> string \<Rightarrow> 'k \<Rightarrow> (bool \<times> 'k) option" where
  "extract_blob K self off work k = (case seek self off of None \<Rightarrow> Some (False, k) | Some f \<Rightarrow> extract_tar K work f k)"

definition ensure_cache ::
  "nat \<Rightarrow> 'k kernel \<Rightarrow> string option \<Rightarrow> string option \<Rightarrow> u8 list \<Rightarrow> trailer \<Rightarrow> 'k \<Rightarrow> (string option \<times> 'k) option" where
  "ensure_cache n K xdg home self tr k =
     (let dir = cache_dir xdg home (tr_hash tr) in
      case mkdirs K dir k of (made, k1) \<Rightarrow>
        if \<not> made then Some (None, k1)
        else if is_cached K dir (tr_hash tr) k1 then Some (Some dir, k1)
        else
          (case k_mkdtemp K (dir @ ''.tmp-XXXXXX'') k1 of (w, k2) \<Rightarrow>
             (case w of
                None \<Rightarrow> Some (None, k2)
              | Some work \<Rightarrow>
                  (case extract_blob K self (tr_off tr) work k2 of
                     None \<Rightarrow> None
                   | Some (ok, k3) \<Rightarrow>
                       if ok then install n K work dir (stamp K work (tr_hash tr) k3)
                       else map_option (\<lambda>k4. (None, k4)) (remove_tree n K work k3)))))"

subsection \<open>The command line\<close>

datatype arch = X86_64 | I686 | Aarch64

definition CZET_MUSL_LOADER :: "arch \<Rightarrow> string" where
  "CZET_MUSL_LOADER a =
     (case a of Aarch64 \<Rightarrow> ''/lib/ld-musl-aarch64.so.1'' | I686 \<Rightarrow> ''/lib/ld-musl-x86.so.1'' | X86_64 \<Rightarrow> ''/lib/ld-musl-x86_64.so.1'')"

definition CZET_GLIBC_LOADER :: "arch \<Rightarrow> string" where
  "CZET_GLIBC_LOADER a =
     (case a of Aarch64 \<Rightarrow> ''/lib/ld-linux-aarch64.so.1'' | I686 \<Rightarrow> ''/lib/ld-linux.so.2'' | X86_64 \<Rightarrow> ''/lib64/ld-linux-x86-64.so.2'')"

definition CZET_LD_LINUX :: "arch \<Rightarrow> string" where
  "CZET_LD_LINUX a =
     (case a of Aarch64 \<Rightarrow> ''ld-linux-aarch64.so.1'' | I686 \<Rightarrow> ''ld-linux.so.2'' | X86_64 \<Rightarrow> ''ld-linux-x86-64.so.2'')"

definition ends_with :: "string \<Rightarrow> string \<Rightarrow> bool" where
  "ends_with a s \<longleftrightarrow> length s < length a \<and> drop (length a - length s) a = s"

definition is_wrapped_czet_src :: "string \<Rightarrow> bool" where
  "is_wrapped_czet_src a \<longleftrightarrow>
     a \<noteq> [] \<and> hd a \<noteq> CHR ''-'' \<and> (ends_with a ''.ct'' \<or> ends_with a ''.czet'')"

definition is_libc_arg :: "string \<Rightarrow> bool" where
  "is_libc_arg a \<longleftrightarrow> take 6 a = ''-libc=''"

text \<open>The chosen libc and, when it is a path, the root; a path stays chosen as the root.\<close>

fun select_libc :: "string list \<Rightarrow> string \<times> string option \<Rightarrow> string \<times> string option" where
  "select_libc [] sel = sel"
| "select_libc (a # as) (libc, lcroot) =
     (if is_libc_arg a
      then select_libc as (drop 6 a, if drop 6 a \<noteq> ''musl'' \<and> drop 6 a \<noteq> ''glibc'' then Some (drop 6 a) else lcroot)
      else select_libc as (libc, lcroot))"

definition sys_dir :: "string \<Rightarrow> string \<Rightarrow> string option \<Rightarrow> string" where
  "sys_dir cache libc lcroot = (case lcroot of Some r \<Rightarrow> r | None \<Rightarrow> cache @ ''/sysroot/'' @ libc)"

record scan =
  sc_nuser :: nat
  sc_needstd :: bool
  sc_static :: bool
  sc_wrap :: nat
  sc_skip :: bool

text \<open>The loop that counts what the second loop will append.\<close>

definition scan_arg :: "string \<Rightarrow> scan \<Rightarrow> scan" where
  "scan_arg a s =
     (if is_libc_arg a then s
      else
        let s = (if take 4 a = ''-std'' then s\<lparr>sc_needstd := False\<rparr> else s);
            s = (if a = ''-static'' then s\<lparr>sc_static := True\<rparr> else s);
            s = (if sc_skip s then s\<lparr>sc_skip := False\<rparr>
                 else if a = ''-o'' then s\<lparr>sc_skip := True\<rparr>
                 else if is_wrapped_czet_src a then s\<lparr>sc_wrap := sc_wrap s + 4\<rparr> else s)
        in s\<lparr>sc_nuser := sc_nuser s + 1\<rparr>)"

definition scan_args :: "string list \<Rightarrow> scan" where
  "scan_args as = fold scan_arg as \<lparr>sc_nuser = 0, sc_needstd = True, sc_static = False, sc_wrap = 0, sc_skip = False\<rparr>"

fun user_args :: "string list \<Rightarrow> bool \<Rightarrow> string list" where
  "user_args [] skip = []"
| "user_args (a # as) skip =
     (if is_libc_arg a then user_args as skip
      else if \<not> skip \<and> a = ''-o'' then a # user_args as True
      else if skip then a # user_args as False
      else if is_wrapped_czet_src a then [''-x'', ''c'', a, ''-x'', ''none''] @ user_args as False
      else a # user_args as False)"

definition link_args :: "arch \<Rightarrow> bool \<Rightarrow> string \<Rightarrow> string list" where
  "link_args ar static libc =
     (if static then [''-static'']
      else ''-static-libgcc'' #
        (if libc = ''musl'' then [''-Wl,--dynamic-linker='' @ CZET_MUSL_LOADER ar]
         else if libc = ''glibc'' then [''-Wl,--dynamic-linker='' @ CZET_GLIBC_LOADER ar] else []))"

text \<open>The vector handed to \<^verbatim>\<open>execv\<close>, without the null pointer at its end, and the number of places allocated for it.\<close>

definition driver_args :: "arch \<Rightarrow> string \<Rightarrow> string list \<Rightarrow> string list" where
  "driver_args ar cache as =
     (case select_libc as (''musl'', None) of (libc, lcroot) \<Rightarrow>
        let s = scan_args as; gccdir = cache @ ''/gcc/''; lgdir = cache @ ''/libgcc/'';
            sysinc = sys_dir cache libc lcroot @ ''/include''; syslib = sys_dir cache libc lcroot @ ''/lib''
        in [gccdir @ ''xgcc'', ''-B'' @ gccdir, ''-B'' @ lgdir, ''-L'' @ lgdir, ''-isystem'', cache @ ''/gcc/include'',
            ''-isystem'', sysinc, ''-B'' @ syslib, ''-L'' @ syslib]
           @ link_args ar (sc_static s) libc
           @ (if sc_needstd s then [''-std=czet''] else [])
           @ user_args as False
           @ (if lcroot = None then [syslib @ ''/libczet_utils.a''] else []))"

definition args_capacity :: "string list \<Rightarrow> nat" where
  "args_capacity as =
     (let s = scan_args as; nfix = 14 + (if sc_needstd s then 1 else 0) in nfix + sc_nuser s + 3 + sc_wrap s)"

text \<open>The linker script for glibc, and the size of the buffer it is printed into.\<close>

definition script_text :: "arch \<Rightarrow> string \<Rightarrow> string" where
  "script_text ar syslib =
     ''/* GNU ld script */'' @ [char_of (10 :: nat)] @ ''GROUP ( '' @ syslib @ ''/libc.so.6'' @ '' '' @ syslib @ ''/libc_nonshared.a''
       @ '' AS_NEEDED ( '' @ syslib @ ''/'' @ CZET_LD_LINUX ar @ '' ) )'' @ [char_of (10 :: nat)]"

definition script_room :: "arch \<Rightarrow> string \<Rightarrow> nat" where
  "script_room ar syslib =
     length (syslib @ ''/libc.so.6'') + length (syslib @ ''/libc_nonshared.a'') + length (syslib @ ''/'' @ CZET_LD_LINUX ar) + 160"

definition write_script :: "'k kernel \<Rightarrow> arch \<Rightarrow> string \<Rightarrow> 'k \<Rightarrow> 'k" where
  "write_script K ar syslib k =
     (case k_call K (Sys_open (syslib @ ''/libc.so'')) k of (r, k1) \<Rightarrow>
        if is_ok r
        then snd (k_call K (Sys_close (syslib @ ''/libc.so''))
               (snd (k_call K (Sys_write (syslib @ ''/libc.so'') (map byte_of (take (script_room ar syslib - 1) (script_text ar syslib)))) k1)))
        else k1)"

datatype message = M_usage | M_no_exe | M_no_open | M_no_trailer | M_size | M_no_cache | M_hash u64 u64 | M_extracted u64 string

datatype run_result = R_exit int "message list" | R_exec string "string list"

record world =
  w_arch :: arch
  w_exe :: "string option"
  w_self :: "u8 list option"
  w_xdg :: "string option"
  w_home :: "string option"

definition size_ok :: "u8 list \<Rightarrow> trailer \<Rightarrow> bool" where
  "size_ok self tr \<longleftrightarrow> length self = 0 \<or> of_nat (length self) = tr_off tr + tr_size tr + (of_nat TRAILER_LEN :: u64)"

definition start_compiler :: "'k kernel \<Rightarrow> arch \<Rightarrow> string \<Rightarrow> string list \<Rightarrow> 'k \<Rightarrow> run_result \<times> 'k" where
  "start_compiler K ar cache as k =
     (case select_libc as (''musl'', None) of (libc, lcroot) \<Rightarrow>
        (R_exec (cache @ ''/gcc/xgcc'') (driver_args ar cache as),
         if libc = ''glibc'' then write_script K ar (sys_dir cache libc lcroot @ ''/lib'') k else k))"

definition main_czet :: "nat \<Rightarrow> 'k kernel \<Rightarrow> world \<Rightarrow> string list \<Rightarrow> 'k \<Rightarrow> (run_result \<times> 'k) option" where
  "main_czet n K W as k =
     (if ''-h'' \<in> set as \<or> ''--help'' \<in> set as then Some (R_exit 0 [M_usage], k)
      else
        (case w_exe W of
           None \<Rightarrow> Some (R_exit 1 [M_no_exe], k)
         | Some exe \<Rightarrow>
             (case w_self W of
                None \<Rightarrow> Some (R_exit 1 [M_no_open], k)
              | Some self \<Rightarrow>
                  (case read_trailer self of
                     None \<Rightarrow> Some (R_exit 1 [M_no_trailer], k)
                   | Some tr \<Rightarrow>
                       if \<not> size_ok self tr then Some (R_exit 1 [M_size], k)
                       else
                         (case ensure_cache n K (w_xdg W) (w_home W) self tr k of
                            None \<Rightarrow> None
                          | Some (None, k1) \<Rightarrow> Some (R_exit 1 [M_no_cache], k1)
                          | Some (Some cache, k1) \<Rightarrow>
                              if ''--extract-only'' \<in> set as then
                                (let h = fnv1a64 self (tr_off tr) (tr_size tr) in
                                 Some (R_exit 0 ((if h \<noteq> tr_hash tr then [M_hash h (tr_hash tr)] else []) @ [M_extracted (tr_hash tr) cache]), k1))
                              else Some (start_compiler K (w_arch W) cache as k1))))))"

subsection \<open>The vector of arguments\<close>

lemma scan_arg_simps:
  "sc_nuser (scan_arg a s) = (if is_libc_arg a then sc_nuser s else sc_nuser s + 1)"
  "sc_wrap (scan_arg a s) = sc_wrap s + (if \<not> is_libc_arg a \<and> \<not> sc_skip s \<and> a \<noteq> ''-o'' \<and> is_wrapped_czet_src a then 4 else 0)"
  "sc_skip (scan_arg a s) = (if is_libc_arg a then sc_skip s else \<not> sc_skip s \<and> a = ''-o'')"
proof -
  let ?n = "\<lambda>s. if take 4 a = ''-std'' then s\<lparr>sc_needstd := False\<rparr> else s"
  let ?t = "\<lambda>s. if a = ''-static'' then s\<lparr>sc_static := True\<rparr> else s"
  have f: "sc_nuser (?t (?n s)) = sc_nuser s" "sc_wrap (?t (?n s)) = sc_wrap s" "sc_skip (?t (?n s)) = sc_skip s" by simp_all
  show "sc_nuser (scan_arg a s) = (if is_libc_arg a then sc_nuser s else sc_nuser s + 1)"
    "sc_wrap (scan_arg a s) = sc_wrap s + (if \<not> is_libc_arg a \<and> \<not> sc_skip s \<and> a \<noteq> ''-o'' \<and> is_wrapped_czet_src a then 4 else 0)"
    "sc_skip (scan_arg a s) = (if is_libc_arg a then sc_skip s else \<not> sc_skip s \<and> a = ''-o'')"
    unfolding scan_arg_def Let_def using f
    by (cases "is_libc_arg a"; cases "sc_skip s"; simp only: if_True if_False; simp)+
qed

lemma scan_length:
  "sc_nuser (fold scan_arg as s) + sc_wrap (fold scan_arg as s) = sc_nuser s + sc_wrap s + length (user_args as (sc_skip s))"
proof (induction as arbitrary: s)
  case (Cons a as)
  have "sc_nuser (scan_arg a s) + sc_wrap (scan_arg a s) + length (user_args as (sc_skip (scan_arg a s)))
      = sc_nuser s + sc_wrap s + length (user_args (a # as) (sc_skip s))"
    by (cases "is_libc_arg a"; cases "sc_skip s"; cases "a = ''-o''") (simp_all add: scan_arg_simps)
  with Cons show ?case by simp
qed simp

lemma subseq_wrap: "subseq f u \<Longrightarrow> subseq (a # f) (v @ a # w @ u)"
  by (intro list_emb_append2 subseq_Cons2) assumption

lemma user_args_subseq: "subseq (filter (\<lambda>a. \<not> is_libc_arg a) as) (user_args as skip)"
proof (induction as arbitrary: skip)
  case (Cons a as)
  note one = subseq_wrap [OF Cons.IH, of a "[]" "[]", unfolded append.simps]
  note five = subseq_wrap [OF Cons.IH, of a "[''-x'', ''c'']" "[''-x'', ''none'']", unfolded append.simps]
  consider "is_libc_arg a" | "\<not> is_libc_arg a" "skip \<or> a = ''-o'' \<or> \<not> is_wrapped_czet_src a"
    | "\<not> is_libc_arg a" "\<not> (skip \<or> a = ''-o'' \<or> \<not> is_wrapped_czet_src a)" by blast
  then show ?case
  proof cases
    case 1
    then show ?thesis using Cons by simp
  next
    case 2
    then have "\<exists>b. user_args (a # as) skip = a # user_args as b" by auto
    then show ?thesis using 2(1) one by (auto simp del: user_args.simps)
  next
    case 3
    then have "user_args (a # as) skip = [''-x'', ''c'', a, ''-x'', ''none''] @ user_args as False" by auto
    then show ?thesis using 3(1) five [of False] by (simp only: filter.simps if_True append.simps simp_thms)
  qed
qed simp

text \<open>
  C14. The vector for \<^verbatim>\<open>execv\<close> fits the memory allocated for it, its null pointer included, whatever the arguments; and what
  the user wrote, apart from the choice of the libc, is handed on completely and in order.
\<close>

theorem driver_vector:
  "length (driver_args ar cache as) + 1 \<le> args_capacity as
    \<and> (\<exists>pre post. driver_args ar cache as = pre @ user_args as False @ post
         \<and> subseq (filter (\<lambda>a. \<not> is_libc_arg a) as) (user_args as False))"
proof
  obtain libc lcroot where l: "select_libc as (''musl'', None) = (libc, lcroot)" by fastforce
  have n: "length (user_args as False) = sc_nuser (scan_args as) + sc_wrap (scan_args as)"
    using scan_length [of as "\<lparr>sc_nuser = 0, sc_needstd = True, sc_static = False, sc_wrap = 0, sc_skip = False\<rparr>"]
    by (simp add: scan_args_def)
  have "length (link_args ar (sc_static (scan_args as)) libc) \<le> 2" by (simp add: link_args_def)
  then show "length (driver_args ar cache as) + 1 \<le> args_capacity as"
    unfolding driver_args_def l args_capacity_def using n by (simp add: Let_def)
  show "\<exists>pre post. driver_args ar cache as = pre @ user_args as False @ post
      \<and> subseq (filter (\<lambda>a. \<not> is_libc_arg a) as) (user_args as False)"
    using user_args_subseq unfolding driver_args_def l prod.case Let_def by (metis append.assoc)
qed

text \<open>The name after \<^verbatim>\<open>-o\<close> is never taken for a source.\<close>

lemma output_not_wrapped:
  "\<not> is_libc_arg out \<Longrightarrow> user_args ([''-o'', out] @ as) False = [''-o'', out] @ user_args as False"
  by (simp add: is_libc_arg_def)

lemma script_fits: "length (script_text ar syslib) < script_room ar syslib"
  by (simp add: script_text_def script_room_def)

text \<open>
  The root given by a path stays in force when a later argument names a libc: with glibc after a path, the
  linker script of that libc is written over the one in the user's own sysroot.
\<close>

theorem libc_root_sticks:
  assumes "p \<noteq> ''musl''" "p \<noteq> ''glibc''" "obliging K"
  shows "select_libc [''-libc='' @ p, ''-libc=glibc''] (''musl'', None) = (''glibc'', Some p)
    \<and> snd (start_compiler K ar cache [''-libc='' @ p, ''-libc=glibc''] k)
      = run_ops K [Sys_open (p @ ''/lib/libc.so''), Sys_write (p @ ''/lib/libc.so'') (map byte_of (script_text ar (p @ ''/lib''))), Sys_close (p @ ''/lib/libc.so'')] k"
proof
  show s: "select_libc [''-libc='' @ p, ''-libc=glibc''] (''musl'', None) = (''glibc'', Some p)"
    using assms(1,2) by (simp add: is_libc_arg_def)
  have "take (script_room ar (p @ ''/lib'') - 1) (script_text ar (p @ ''/lib'')) = script_text ar (p @ ''/lib'')"
    using script_fits [of ar "p @ ''/lib''"] by simp
  then show "snd (start_compiler K ar cache [''-libc='' @ p, ''-libc=glibc''] k)
      = run_ops K [Sys_open (p @ ''/lib/libc.so''), Sys_write (p @ ''/lib/libc.so'') (map byte_of (script_text ar (p @ ''/lib''))), Sys_close (p @ ''/lib/libc.so'')] k"
    unfolding start_compiler_def s using obliging_ok(2) [OF assms(3)]
    by (simp add: write_script_def sys_dir_def case_prod_beta)
qed

theorem libc_root_sticks_witness:
  "select_libc [''-libc=/usr'', ''-libc=glibc''] (''musl'', None) = (''glibc'', Some ''/usr'')"
  using libc_root_sticks [of "''/usr''" log_kernel] log_kernel_obliging by simp

subsection \<open>The cache\<close>

definition removes :: "'k kernel \<Rightarrow> string \<Rightarrow> ('k \<Rightarrow> bool) \<Rightarrow> bool" where
  "removes K base I \<longleftrightarrow> (\<forall>k p. I k \<longrightarrow> p = base \<or> prefix (base @ ''/'') p \<longrightarrow>
     I (snd (k_call K (Sys_unlink p) k)) \<and> I (snd (k_call K (Sys_rmdir p) k)))"

text \<open>Removing a tree calls the kernel only for names in it.\<close>

lemma remove_tree_keeps:
  "remove_tree n K p k = Some k' \<Longrightarrow> removes K base I \<Longrightarrow> p = base \<or> prefix (base @ ''/'') p \<Longrightarrow> I k \<Longrightarrow> I k'"
  "remove_each n K p es k = Some k' \<Longrightarrow> removes K base I \<Longrightarrow> p = base \<or> prefix (base @ ''/'') p \<Longrightarrow> I k \<Longrightarrow> I k'"
proof (induction n K p k and n K p es k arbitrary: k' and k' rule: remove_tree_remove_each.induct)
  case (2 n K p k)
  show ?case
  proof (cases "k_lstat K p k")
    case None
    then show ?thesis using 2 by simp
  next
    case (Some d)
    show ?thesis
    proof (cases d)
      case False
      then show ?thesis using 2(2-5) Some by (auto simp: removes_def)
    next
      case True
      show ?thesis
      proof (cases "k_list K p k")
        case None
        then show ?thesis using 2(2-5) Some True by simp
      next
        case es: (Some es)
        then obtain k1 where "remove_each n K p es k = Some k1" "k' = snd (k_call K (Sys_rmdir p) k1)"
          using 2(2) Some True by (auto split: option.splits)
        then show ?thesis using 2(1) [OF Some True es, of k1] 2(3-5) by (auto simp: removes_def)
      qed
    qed
  qed
next
  case (4 n K p e es k)
  show ?case
  proof (cases "e = ''.'' \<or> e = ''..''")
    case True
    then show ?thesis using 4 by simp
  next
    case False
    then obtain k1 where k1: "remove_tree n K (p @ ''/'' @ e) k = Some k1" "remove_each n K p es k1 = Some k'"
      using 4(4) by (auto split: option.splits)
    have "prefix (base @ ''/'') (p @ ''/'' @ e)" using 4(6) by (auto simp: prefix_def)
    then have "I k1" using 4(2) [OF False k1(1) 4(5)] 4(7) by blast
    then show ?thesis using 4(3) [OF False k1(1,2) 4(5,6)] by blast
  qed
qed simp_all

lemma ensure_cache_hit:
  assumes "mkdirs K (cache_dir xdg home (tr_hash tr)) k = (True, k1)" "is_cached K (cache_dir xdg home (tr_hash tr)) (tr_hash tr) k1"
  shows "ensure_cache n K xdg home self tr k = Some (Some (cache_dir xdg home (tr_hash tr)), k1)"
  using assms by (simp add: ensure_cache_def Let_def)

lemma ensure_cache_miss:
  assumes "mkdirs K (cache_dir xdg home (tr_hash tr)) k = (True, k1)" "\<not> is_cached K (cache_dir xdg home (tr_hash tr)) (tr_hash tr) k1"
    "k_mkdtemp K (cache_dir xdg home (tr_hash tr) @ ''.tmp-XXXXXX'') k1 = (Some work, k2)"
    "extract_blob K self (tr_off tr) work k2 = Some (ok, k3)"
  shows "ensure_cache n K xdg home self tr k =
    (if ok then install n K work (cache_dir xdg home (tr_hash tr)) (stamp K work (tr_hash tr) k3)
     else map_option (\<lambda>k4. (None, k4)) (remove_tree n K work k3))"
  using assms by (simp add: ensure_cache_def Let_def)

text \<open>
  An archive that cannot be extracted leaves an earlier cache alone: the driver reports failure, and what the calls for
  names below the temporary directory keep, such as the contents of every other directory, is kept.
\<close>

theorem failed_extraction:
  assumes "mkdirs K (cache_dir xdg home (tr_hash tr)) k = (True, k1)" "\<not> is_cached K (cache_dir xdg home (tr_hash tr)) (tr_hash tr) k1"
    "k_mkdtemp K (cache_dir xdg home (tr_hash tr) @ ''.tmp-XXXXXX'') k1 = (Some work, k2)" "work \<noteq> []"
    "extract_blob K self (tr_off tr) work k2 = Some (False, k3)"
    "sys_keeps K work I" "removes K work I" "I k2" "ensure_cache n K xdg home self tr k = Some (res, k')"
  shows "res = None \<and> I k'"
proof -
  have "I k3"
  proof (cases "seek self (tr_off tr)")
    case None
    then show ?thesis using assms(5,8) by (simp add: extract_blob_def)
  next
    case (Some f)
    then have "extract_tar K work f k2 = Some (False, k3)" using assms(5) by (simp add: extract_blob_def)
    then show ?thesis using assms(4,6,8) by (rule extract_keeps)
  qed
  moreover obtain k4 where "remove_tree n K work k3 = Some k4" "res = None" "k' = k4"
    using assms(9) ensure_cache_miss [OF assms(1-3,5), of n] by auto
  ultimately show ?thesis using remove_tree_keeps(1) [OF _ assms(7)] by blast
qed

lemma stamp_ok: "obliging K \<Longrightarrow> stamp K work h k =
    run_ops K [Sys_open (work @ ''/.done''), Sys_write (work @ ''/.done'') (map byte_of (hex16 h)), Sys_close (work @ ''/.done'')] k"
  using obliging_ok(2) [of K] by (simp add: stamp_def case_prod_beta)

text \<open>
  C11. The first run of an executable that embeds a well formed archive extracts it into a temporary directory, stamps and
  moves it into place and then starts the embedded compiler with the user's arguments.
\<close>

theorem driver_first_run:
  fixes exe blob :: "u8 list" and xdg home :: "string option"
  defines "self \<equiv> exe @ blob @ trailer_bytes (length exe) (length blob) (fnv blob)"
    and "dir \<equiv> cache_dir xdg home (fnv blob)"
  assumes "obliging K" "list_all (\<lambda>(fl, e). fill_ok fl \<and> entry_ok work e) es"
    "blob = concat (map tar_bytes es) @ replicate 512 0 @ rest" "length self < 2 ^ 63"
    "''-h'' \<notin> set as" "''--help'' \<notin> set as" "''--extract-only'' \<notin> set as"
    "length dir < PATH_MAX" "k1 = run_ops K (dir_ops dir) k" "\<not> is_cached K dir (fnv blob) k1"
    "k_mkdtemp K (dir @ ''.tmp-XXXXXX'') k1 = (Some work, k2)"
    "remove_tree n K dir (stamp K work (fnv blob) (run_ops K (concat (map (\<lambda>(fl, e). entry_ops work e) es)) k2)) = Some k5"
  shows "main_czet n K \<lparr>w_arch = ar, w_exe = Some path, w_self = Some self, w_xdg = xdg, w_home = home\<rparr> as k
    = Some (start_compiler K ar dir as (snd (k_call K (Sys_rename work dir) k5)))
    \<and> fst (start_compiler K ar dir as (snd (k_call K (Sys_rename work dir) k5))) = R_exec (dir @ ''/gcc/xgcc'') (driver_args ar dir as)"
proof
  obtain tr where tr: "read_trailer self = Some tr" "tr_hash tr = fnv blob" "size_ok self tr"
    "\<exists>left. seek self (tr_off tr) = Some (blob @ left)"
    using blob_found [of exe blob] assms(6) unfolding self_def size_ok_def by blast
  then obtain left where s: "seek self (tr_off tr) = Some (blob @ left)" by blast
  have "dir \<noteq> []" by (simp add: dir_def cache_dir_def)
  then have m: "mkdirs K dir k = (True, k1)" using mkdirs_ok [OF assms(3)] assms(10,11) by simp
  have x: "extract_blob K self (tr_off tr) work k2 = Some (True, run_ops K (concat (map (\<lambda>(fl, e). entry_ops work e) es)) k2)"
    unfolding extract_blob_def s using extract_all [OF assms(3,4), of "rest @ left"] assms(5) by simp
  have r: "is_ok (fst (k_call K (Sys_rename work dir) k5))"
    using assms(3) by (rule obliging_ok)
  have "ensure_cache n K xdg home self tr k = Some (Some dir, snd (k_call K (Sys_rename work dir) k5))"
    using ensure_cache_miss [of K xdg home tr k k1 work k2 self True _ n] m assms(12,13,14) x tr(2) r
    unfolding dir_def install_def by (simp add: case_prod_beta)
  then show "main_czet n K \<lparr>w_arch = ar, w_exe = Some path, w_self = Some self, w_xdg = xdg, w_home = home\<rparr> as k
      = Some (start_compiler K ar dir as (snd (k_call K (Sys_rename work dir) k5)))"
    using tr(1,3) assms(7-9) by (simp add: main_czet_def)
  show "fst (start_compiler K ar dir as (snd (k_call K (Sys_rename work dir) k5))) = R_exec (dir @ ''/gcc/xgcc'') (driver_args ar dir as)"
    by (simp add: start_compiler_def case_prod_beta)
qed

subsection \<open>Concrete runs\<close>

text \<open>A kernel that does everything, keeps the calls, finds no file and always makes the same temporary directory.\<close>

definition demo_kernel :: "sysop list kernel" where
  "demo_kernel = log_kernel\<lparr>k_mkdtemp := (\<lambda>p k. (Some ''w'', k))\<rparr>"

lemma demo_kernel_obliging: "obliging demo_kernel"
  using log_kernel_obliging by (simp add: obliging_def demo_kernel_def)

lemma demo_kernel_simps:
  "k_mkdtemp demo_kernel p k = (Some ''w'', k)" "\<not> is_cached demo_kernel dir h k" "remove_tree (Suc n) demo_kernel p k = Some k"
  "snd (k_call demo_kernel op k) = k @ [op]" "k_lstat demo_kernel p k = None"
  by (simp_all add: demo_kernel_def log_kernel_def is_cached_def)

lemma demo_run: "run_ops demo_kernel ops k = k @ ops"
  by (induction ops arbitrary: k) (simp_all add: demo_kernel_simps)

lemma demo_dir: "length (cache_dir (Some ''c'') None h) < PATH_MAX" "cache_dir (Some ''c'') None h \<noteq> []"
  by (simp_all add: cache_dir_def cache_root_def non_empty_def hex16_def PATH_MAX_def)

theorem failed_extraction_witness:
  "\<exists>k'. ensure_cache 1 demo_kernel (Some ''c'') None [1] \<lparr>tr_off = 0, tr_size = 0, tr_hash = 7\<rparr> [] = Some (None, k')
    \<and> (\<forall>a b. Sys_rename a b \<notin> set k')"
proof -
  let ?tr = "\<lparr>tr_off = 0, tr_size = 0, tr_hash = 7\<rparr>"
  let ?d = "cache_dir (Some ''c'') None (tr_hash ?tr)"
  let ?I = "\<lambda>ops. \<forall>a b. Sys_rename a b \<notin> set ops"
  have m: "mkdirs demo_kernel ?d [] = (True, dir_ops ?d)"
    using mkdirs_ok [OF demo_kernel_obliging demo_dir(2,1)] by (simp add: demo_run)
  have x: "extract_blob demo_kernel [1] (tr_off ?tr) ''w'' (dir_ops ?d) = Some (False, dir_ops ?d)"
    by (simp add: extract_blob_def seek_def extract_tar_end HDR_LEN_def)
  have k: "sys_keeps demo_kernel ''w'' ?I" "removes demo_kernel ''w'' ?I" "?I (dir_ops ?d)"
    by (auto simp: sys_keeps_def removes_def demo_kernel_simps dir_ops_def)
  have e: "ensure_cache 1 demo_kernel (Some ''c'') None [1] ?tr [] = Some (None, dir_ops ?d)"
    using ensure_cache_miss [OF m _ _ x, of 1] by (simp add: demo_kernel_simps)
  from failed_extraction [OF m demo_kernel_simps(2,1) _ x k e] e show ?thesis by auto
qed

theorem driver_first_run_witness:
  "\<exists>self k'. main_czet 1 demo_kernel \<lparr>w_arch = X86_64, w_exe = Some ''czet'', w_self = Some self, w_xdg = Some ''c'', w_home = None\<rparr> [''a.ct''] []
    = Some (R_exec (cache_dir (Some ''c'') None (fnv (tar_bytes (example_fill, TE_dir [] ''x'') @ replicate 512 0)) @ ''/gcc/xgcc'')
        (driver_args X86_64 (cache_dir (Some ''c'') None (fnv (tar_bytes (example_fill, TE_dir [] ''x'') @ replicate 512 0))) [''a.ct'']), k')"
proof -
  let ?blob = "tar_bytes (example_fill, TE_dir [] ''x'') @ replicate 512 0"
  let ?self = "[1] @ ?blob @ trailer_bytes (length [1 :: u8]) (length ?blob) (fnv ?blob)"
  let ?d = "cache_dir (Some ''c'') None (fnv ?blob)"
  have t: "text_ok 155 []" "text_ok 100 ''x''" "text_ok 100 []" by (simp_all add: text_ok_def)
  have "length (tar_header example_fill [] ''x'' CHR ''5'' 0 []) = 512"
    by (rule header_fields(1) [OF example_fill_ok t]) simp
  then have len: "length ?self < 2 ^ 63" by simp
  have "safe_name ''x''" by (simp add: safe_name_iff)
  then have ok: "list_all (\<lambda>(fl, e). fill_ok fl \<and> entry_ok ''w'' e) [(example_fill, TE_dir [] ''x'')]"
    using t by (simp add: example_fill_ok rel_of_def)
  have "?blob = concat (map tar_bytes [(example_fill, TE_dir [] ''x'')]) @ replicate 512 0 @ []" by simp
  note run = driver_first_run [OF demo_kernel_obliging ok this len _ _ _ demo_dir(1) refl demo_kernel_simps(2,1)]
  have "remove_tree 1 demo_kernel ?d k = Some k" for k using demo_kernel_simps(3) [of 0] by simp
  note r = run [OF _ _ _ this, where as = "[''a.ct'']" and path = "''czet''" and ar = X86_64 and k = "[]"]
  have "''-h'' \<notin> set [''a.ct'']" "''--help'' \<notin> set [''a.ct'']" "''--extract-only'' \<notin> set [''a.ct'']" by simp_all
  from r [OF this] obtain st where "main_czet 1 demo_kernel \<lparr>w_arch = X86_64, w_exe = Some ''czet'', w_self = Some ?self, w_xdg = Some ''c'', w_home = None\<rparr> [''a.ct''] [] = Some st"
    "fst st = R_exec (?d @ ''/gcc/xgcc'') (driver_args X86_64 ?d [''a.ct''])" by blast
  then show ?thesis by (intro exI [of _ ?self] exI [of _ "snd st"]) (simp only: prod_eq_iff option.inject fst_conv snd_conv simp_thms)
qed

end
