(* ===== verification/Fibers.thy ===== *)
theory Fibers
  imports Czet_Prelude "HOL-Library.Multiset"
begin

text \<open>
  The cooperative scheduler, stdlib/utils/aco.h.  The context switches of libaco are not modelled: a task is what it
  does from one resumption to the next, a function on the program's state that may spawn tasks and either
  yields, with what is left to do, or returns.  Tasks are coinductive, a task may yield for ever; \<open>ends\<close> says that it
  and everything it spawns does not, whatever the state.  What the allocator answers to a spawn is part of the behaviour.
  Every allocation gets a handle of its own, the records keep the handles the code keeps pointers for, and \<open>None\<close> is a
  run that does not return.
\<close>

subsection \<open>Tasks and scheduler\<close>

record spawn_mem =
  sm_realloc :: bool
  sm_calloc :: bool
  sm_stack :: bool
  sm_create :: bool

codatatype 's co = Co (co_fun: "'s \<Rightarrow> 's \<times> (spawn_mem \<times> 's co) list \<times> 's co option")

record 's co_task =
  ct_self :: nat
  ct_co :: "nat option"
  ct_stack :: "nat option"
  ct_rest :: "'s co option"
  ct_done :: bool

datatype co_resource = R_main nat | R_array nat | R_task nat | R_stack nat | R_co nat

datatype co_event = Get co_resource | Put co_resource

record 's co_sched =
  cs_main :: "nat option"
  cs_array :: "nat option"
  cs_tasks :: "'s co_task list"
  cs_cap :: nat
  cs_current :: "nat option"
  cs_trace :: "co_event list"
  cs_next :: nat

text \<open>A failure leaves the other members as they were.\<close>

definition co_sched_init :: "bool \<Rightarrow> 's co_sched \<Rightarrow> int \<times> 's co_sched" where
  "co_sched_init created sc =
     (if created then (0, \<lparr>cs_main = Some 0, cs_array = None, cs_tasks = [], cs_cap = 0, cs_current = None, cs_trace = [Get (R_main 0)], cs_next = 1\<rparr>)
      else (-1, sc\<lparr>cs_main := None\<rparr>))"

definition add_trace :: "co_event list \<Rightarrow> 's co_sched \<Rightarrow> 's co_sched" where
  "add_trace es sc = sc\<lparr>cs_trace := cs_trace sc @ es\<rparr>"

definition release :: "(nat \<Rightarrow> co_resource) \<Rightarrow> nat option \<Rightarrow> co_event list" where
  "release R h = (case h of None \<Rightarrow> [] | Some a \<Rightarrow> [Put (R a)])"

text \<open>The array doubles from eight places; \<^verbatim>\<open>realloc\<close> releases the old array.\<close>

definition co_grow :: "bool \<Rightarrow> 's co_sched \<Rightarrow> bool \<times> 's co_sched" where
  "co_grow ok sc =
     (if length (cs_tasks sc) = cs_cap sc then
        (if ok then (True, add_trace (release R_array (cs_array sc) @ [Get (R_array (cs_next sc))])
             (sc\<lparr>cs_array := Some (cs_next sc), cs_cap := if cs_cap sc \<noteq> 0 then cs_cap sc * 2 else 8, cs_next := cs_next sc + 1\<rparr>))
         else (False, sc))
      else (True, sc))"

text \<open>Spawning gives the number of the new task, or nothing.\<close>

definition co_spawn :: "spawn_mem \<Rightarrow> 's co option \<Rightarrow> 's co_sched \<Rightarrow> nat option \<times> 's co_sched" where
  "co_spawn m fn sc =
     (if cs_main sc = None \<or> fn = None then (None, sc)
      else
        (case co_grow (sm_realloc m) sc of (grown, sc1) \<Rightarrow>
           let h = cs_next sc1; sc2 = sc1\<lparr>cs_next := h + 3\<rparr> in
           if \<not> grown then (None, sc1)
           else if \<not> sm_calloc m then (None, sc1)
           else if \<not> sm_stack m then (None, add_trace [Get (R_task h), Put (R_task h)] sc2)
           else if \<not> sm_create m
           then (None, add_trace [Get (R_task h), Get (R_stack (h + 1)), Put (R_stack (h + 1)), Put (R_task h)] sc2)
           else (Some (length (cs_tasks sc1)),
                 add_trace [Get (R_task h), Get (R_stack (h + 1)), Get (R_co (h + 2))]
                   (sc2\<lparr>cs_tasks := cs_tasks sc2 @
                      [\<lparr>ct_self = h, ct_co = Some (h + 2), ct_stack = Some (h + 1), ct_rest = fn, ct_done = False\<rparr>]\<rparr>))))"

fun spawn_all :: "(spawn_mem \<times> 's co) list \<Rightarrow> 's co_sched \<Rightarrow> 's co_sched" where
  "spawn_all [] sc = sc"
| "spawn_all ((m, c) # cs) sc = spawn_all cs (snd (co_spawn m (Some c) sc))"

text \<open>
  Resuming a task runs it up to its next yield; when its function returns, \<^verbatim>\<open>co_task_entry\<close> marks it done before
  it yields for the last time.
\<close>

definition resume :: "nat \<Rightarrow> 's co_sched \<Rightarrow> 's \<Rightarrow> 's co_sched \<times> 's" where
  "resume i sc s =
     (case ct_rest (cs_tasks sc ! i) of
        None \<Rightarrow> (sc, s)
      | Some c \<Rightarrow>
          (case co_fun c s of (s', sp, next) \<Rightarrow>
             let sc1 = spawn_all sp sc in
             (sc1\<lparr>cs_tasks := (cs_tasks sc1)[i := (cs_tasks sc1 ! i)\<lparr>ct_rest := next, ct_done := (next = None)\<rparr>]\<rparr>, s')))"

text \<open>One round over the array, which may grow meanwhile; the numbers of the resumed tasks are kept.\<close>

partial_function (option) co_pass :: "nat \<Rightarrow> 's co_sched \<Rightarrow> 's \<Rightarrow> (nat list \<times> 's co_sched \<times> 's) option" where
  "co_pass i sc s =
     (if i < length (cs_tasks sc) then
        (if ct_done (cs_tasks sc ! i) then co_pass (i + 1) sc s
         else Option.bind (co_pass (i + 1) (fst (resume i (sc\<lparr>cs_current := Some i\<rparr>) s)) (snd (resume i (sc\<lparr>cs_current := Some i\<rparr>) s)))
                (\<lambda>r. Some (apfst ((#) i) r)))
      else Some ([], sc, s))"

text \<open>The rounds end when one resumes no task.\<close>

partial_function (option) co_rounds :: "'s co_sched \<Rightarrow> 's \<Rightarrow> (nat list list \<times> 's co_sched \<times> 's) option" where
  "co_rounds sc s =
     Option.bind (co_pass 0 sc s)
       (\<lambda>p. if fst p = [] then Some ([[]], snd p)
            else Option.bind (co_rounds (fst (snd p)) (snd (snd p))) (\<lambda>r. Some (apfst ((#) (fst p)) r)))"

definition co_run :: "'s co_sched option \<Rightarrow> 's \<Rightarrow> (nat list list \<times> 's co_sched option \<times> 's) option" where
  "co_run sc s =
     (case sc of
        None \<Rightarrow> Some ([], None, s)
      | Some sc \<Rightarrow> map_option (\<lambda>(log, sc', s'). (log, Some (sc'\<lparr>cs_current := None\<rparr>), s')) (co_rounds sc s))"

text \<open>Each task releases its own coroutine, stack and record.\<close>

definition co_task_free :: "'s co_task \<Rightarrow> co_event list" where
  "co_task_free t = release R_co (ct_co t) @ release R_stack (ct_stack t) @ [Put (R_task (ct_self t))]"

definition co_sched_free :: "'s co_sched option \<Rightarrow> 's co_sched option" where
  "co_sched_free sc =
     (case sc of
        None \<Rightarrow> None
      | Some sc \<Rightarrow>
          Some (sc\<lparr>cs_main := None, cs_array := None, cs_tasks := [], cs_cap := 0,
                cs_trace := cs_trace sc @ concat (map co_task_free (cs_tasks sc)) @ release R_array (cs_array sc) @ release R_main (cs_main sc)\<rparr>))"

subsection \<open>Tasks that end\<close>

text \<open>What a task may become or spawn at its next resumption.\<close>

definition part :: "('s co \<times> 's co) set" where
  "part = {(d, c). \<exists>s. d \<in> snd ` set (fst (snd (co_fun c s))) \<or> snd (snd (co_fun c s)) = Some d}"

inductive ends :: "'s co \<Rightarrow> bool" where
  ends: "(\<And>d. (d, c) \<in> part \<Longrightarrow> ends d) \<Longrightarrow> ends c"

lemma ends_part: "ends c \<Longrightarrow> (d, c) \<in> part \<Longrightarrow> ends d"
  by (erule ends.cases) blast

definition ending :: "('s co \<times> 's co) set" where
  "ending = {(d, c). (d, c) \<in> part \<and> ends c}"

lemma wf_ending: "wf (ending :: ('s co \<times> 's co) set)"
proof (rule wfUNIVI)
  fix P :: "'s co \<Rightarrow> bool" and x :: "'s co"
  assume step: "\<forall>x. (\<forall>y. (y, x) \<in> ending \<longrightarrow> P y) \<longrightarrow> P x"
  have "P c" if "ends c" for c
    using that
  proof induction
    case (ends c)
    then show ?case using step unfolding ending_def by blast
  qed
  then show "P x" using step unfolding ending_def by blast
qed

definition rests :: "'s co_task list \<Rightarrow> 's co multiset" where
  "rests ts = mset (List.map_filter ct_rest ts)"

lemma rests_simps [simp]:
  "rests [] = {#}" "rests (t # ts) = (case ct_rest t of None \<Rightarrow> {#} | Some c \<Rightarrow> {#c#}) + rests ts"
  "rests (ts @ us) = rests ts + rests us"
proof -
  show "rests [] = {#}" "rests (t # ts) = (case ct_rest t of None \<Rightarrow> {#} | Some c \<Rightarrow> {#c#}) + rests ts"
    by (simp_all add: rests_def List.map_filter_simps split: option.split)
  show "rests (ts @ us) = rests ts + rests us" by (simp add: rests_def List.map_filter_def)
qed

definition all_end :: "'s co_sched \<Rightarrow> bool" where
  "all_end sc \<longleftrightarrow> (\<forall>c \<in># rests (cs_tasks sc). ends c)"

subsection \<open>What a resumption changes\<close>

definition wf_task :: "'s co_task \<Rightarrow> bool" where
  "wf_task t \<longleftrightarrow> ct_done t = (ct_rest t = None)"

definition wf_sched :: "'s co_sched \<Rightarrow> bool" where
  "wf_sched sc \<longleftrightarrow> list_all wf_task (cs_tasks sc) \<and> length (cs_tasks sc) \<le> cs_cap sc"

lemma co_spawn_tasks:
  assumes "co_spawn m fn sc = (r, sc')"
  shows "\<exists>new. cs_tasks sc' = cs_tasks sc @ new \<and> (new = [] \<or> (\<exists>t. new = [t] \<and> ct_rest t = fn \<and> fn \<noteq> None \<and> \<not> ct_done t))
    \<and> (wf_sched sc \<longrightarrow> wf_sched sc')"
  using assms
  by (auto simp: co_spawn_def co_grow_def add_trace_def wf_sched_def wf_task_def Let_def split: if_splits prod.splits)

lemma spawn_all_tasks:
  "\<exists>new. cs_tasks (spawn_all sp sc) = cs_tasks sc @ new \<and> rests new \<subseteq># mset (map snd sp) \<and> list_all (\<lambda>t. \<not> ct_done t) new
    \<and> (wf_sched sc \<longrightarrow> wf_sched (spawn_all sp sc))"
proof (induction sp arbitrary: sc)
  case (Cons x sp)
  obtain m c where x: "x = (m, c)" by fastforce
  obtain r sc1 where r: "co_spawn m (Some c) sc = (r, sc1)" by fastforce
  obtain n where n: "cs_tasks sc1 = cs_tasks sc @ n" "n = [] \<or> (\<exists>t. n = [t] \<and> ct_rest t = Some c \<and> \<not> ct_done t)"
    "wf_sched sc \<longrightarrow> wf_sched sc1"
    using co_spawn_tasks [OF r] by auto
  from Cons.IH [of sc1] obtain new where new: "cs_tasks (spawn_all sp sc1) = cs_tasks sc1 @ new" "rests new \<subseteq># mset (map snd sp)"
    "list_all (\<lambda>t. \<not> ct_done t) new" "wf_sched sc1 \<longrightarrow> wf_sched (spawn_all sp sc1)" by blast
  have "rests (n @ new) \<subseteq># mset (map snd (x # sp))"
    using new(2) n(2) x by (auto intro: subset_mset.order_trans mset_subset_eq_add_right simp: mset_subset_eq_add_mset_cancel)
  moreover have "list_all (\<lambda>t. \<not> ct_done t) (n @ new)" using new(3) n(2) by auto
  ultimately show ?case
    using new n r x by (intro exI [of _ "n @ new"]) auto
qed simp

lemma resume_progress:
  assumes "i < length (cs_tasks sc)" "ct_rest (cs_tasks sc ! i) = Some c" "resume i sc s = (sc', s')"
  shows "all_end sc \<Longrightarrow> (rests (cs_tasks sc'), rests (cs_tasks sc)) \<in> mult ending \<and> all_end sc'"
    "length (cs_tasks sc) \<le> length (cs_tasks sc')"
    "\<forall>j < length (cs_tasks sc). j \<noteq> i \<longrightarrow> cs_tasks sc' ! j = cs_tasks sc ! j"
    "\<forall>j. length (cs_tasks sc) \<le> j \<longrightarrow> j < length (cs_tasks sc') \<longrightarrow> \<not> ct_done (cs_tasks sc' ! j)"
    "wf_sched sc \<Longrightarrow> wf_sched sc'"
proof -
  obtain s1 sp nx where f: "co_fun c s = (s1, sp, nx)" by (cases "co_fun c s") auto
  obtain new where new: "cs_tasks (spawn_all sp sc) = cs_tasks sc @ new" "rests new \<subseteq># mset (map snd sp)" "list_all (\<lambda>t. \<not> ct_done t) new"
    "wf_sched sc \<longrightarrow> wf_sched (spawn_all sp sc)" using spawn_all_tasks by blast
  let ?t = "(cs_tasks sc ! i)\<lparr>ct_rest := nx, ct_done := (nx = None)\<rparr>"
  have sc': "sc' = (spawn_all sp sc)\<lparr>cs_tasks := (cs_tasks sc @ new)[i := ?t]\<rparr>"
    using assms(1,3) unfolding resume_def assms(2) by (simp add: f new(1) nth_append)
  then show "length (cs_tasks sc) \<le> length (cs_tasks sc')" by simp
  show "\<forall>j < length (cs_tasks sc). j \<noteq> i \<longrightarrow> cs_tasks sc' ! j = cs_tasks sc ! j"
    unfolding sc' by (simp add: nth_append)
  show "\<forall>j. length (cs_tasks sc) \<le> j \<longrightarrow> j < length (cs_tasks sc') \<longrightarrow> \<not> ct_done (cs_tasks sc' ! j)"
    unfolding sc' using assms(1) new(3) by (auto simp: nth_append list_all_length)
  show "wf_sched sc'" if "wf_sched sc"
  proof -
    have "list_all wf_task (cs_tasks sc @ new)" "length (cs_tasks sc @ new) \<le> cs_cap (spawn_all sp sc)"
      using new(1,4) that by (simp_all add: wf_sched_def)
    then show ?thesis unfolding sc' wf_sched_def by (auto simp: list_all_iff wf_task_def dest: set_update_subset_insert [THEN subsetD])
  qed
  let ?a = "take i (cs_tasks sc)" and ?b = "drop (Suc i) (cs_tasks sc)"
  let ?new = "(case nx of None \<Rightarrow> {#} | Some d \<Rightarrow> {#d#}) + rests new"
  have split: "cs_tasks sc = ?a @ cs_tasks sc ! i # ?b" using assms(1) by (simp add: id_take_nth_drop)
  have m1: "rests (cs_tasks sc) = (rests ?a + rests ?b) + {#c#}" using arg_cong [OF split, of rests] assms(2) by simp
  have m2: "rests (cs_tasks sc') = (rests ?a + rests ?b) + ?new"
    unfolding sc' using assms(1) by (simp add: upd_conv_take_nth_drop)
  have part: "(d, c) \<in> part" if "d \<in># ?new" for d
  proof -
    have "d \<in> snd ` set sp \<or> nx = Some d"
      using that new(2) by (auto dest: mset_subset_eqD split: option.splits)
    then have "d \<in> snd ` set (fst (snd (co_fun c s))) \<or> snd (snd (co_fun c s)) = Some d" by (simp add: f)
    then show ?thesis unfolding part_def by blast
  qed
  show "(rests (cs_tasks sc'), rests (cs_tasks sc)) \<in> mult ending \<and> all_end sc'" if "all_end sc"
  proof
    have c: "ends c" using that unfolding all_end_def m1 by simp
    with part show "(rests (cs_tasks sc'), rests (cs_tasks sc)) \<in> mult ending"
      unfolding m1 m2 by (intro one_step_implies_mult) (auto simp: ending_def)
    show "all_end sc'" using that part c ends_part unfolding all_end_def m1 m2 by (auto simp del: union_iff)
  qed
qed

subsection \<open>Running\<close>

lemma co_pass_induct [consumes 1, case_names stop skip resume]:
  fixes sc :: "'s co_sched"
  assumes "co_pass i sc s = Some (log, sc', s')"
    and stop: "\<And>i sc s. length (cs_tasks sc) \<le> i \<Longrightarrow> P i sc s [] sc s"
    and skip: "\<And>i sc s log sc' s'. i < length (cs_tasks sc) \<Longrightarrow> ct_done (cs_tasks sc ! i) \<Longrightarrow> P (Suc i) sc s log sc' s' \<Longrightarrow> P i sc s log sc' s'"
    and res: "\<And>i sc s sc1 s1 log sc' s'. i < length (cs_tasks sc) \<Longrightarrow> \<not> ct_done (cs_tasks sc ! i)
      \<Longrightarrow> resume i (sc\<lparr>cs_current := Some i\<rparr>) s = (sc1, s1) \<Longrightarrow> P (Suc i) sc1 s1 log sc' s' \<Longrightarrow> P i sc s (i # log) sc' s'"
  shows "P i sc s log sc' s'"
proof -
  have "P i sc s (fst r) (fst (snd r)) (snd (snd r))" if "co_pass i sc s = Some r" for i and sc :: "'s co_sched" and s r
    using that
  proof (rule co_pass.raw_induct [rotated])
    fix go :: "nat \<Rightarrow> 's co_sched \<Rightarrow> 's \<Rightarrow> (nat list \<times> 's co_sched \<times> 's) option" and i and sc :: "'s co_sched" and s r
    let ?r = "resume i (sc\<lparr>cs_current := Some i\<rparr>) s"
    assume ih: "\<And>i sc s r. go i sc s = Some r \<Longrightarrow> P i sc s (fst r) (fst (snd r)) (snd (snd r))"
    assume r: "(if i < length (cs_tasks sc) then
        (if ct_done (cs_tasks sc ! i) then go (i + 1) sc s else Option.bind (go (i + 1) (fst ?r) (snd ?r)) (\<lambda>r. Some (apfst ((#) i) r)))
      else Some ([], sc, s)) = Some r"
    consider "length (cs_tasks sc) \<le> i" "r = ([], sc, s)"
      | "i < length (cs_tasks sc)" "ct_done (cs_tasks sc ! i)" "go (Suc i) sc s = Some r"
      | r1 where "i < length (cs_tasks sc)" "\<not> ct_done (cs_tasks sc ! i)" "go (Suc i) (fst ?r) (snd ?r) = Some r1" "r = apfst ((#) i) r1"
      using r by (auto simp: bind_eq_Some_conv split: if_splits)
    then show "P i sc s (fst r) (fst (snd r)) (snd (snd r))"
      by cases (use stop skip ih res [of i sc s "fst ?r" "snd ?r"] in auto)
  qed
  from this [OF assms(1)] show ?thesis by simp
qed

definition live_tasks :: "'s co_sched \<Rightarrow> nat \<Rightarrow> nat \<Rightarrow> nat list" where
  "live_tasks sc i n = filter (\<lambda>j. length (cs_tasks sc) \<le> j \<or> \<not> ct_done (cs_tasks sc ! j)) [i..<n]"

lemma live_tasks_step:
  "i < n \<Longrightarrow> live_tasks sc i n =
    (if length (cs_tasks sc) \<le> i \<or> \<not> ct_done (cs_tasks sc ! i) then i # live_tasks sc (Suc i) n else live_tasks sc (Suc i) n)"
  by (simp add: live_tasks_def upt_conv_Cons)

lemma live_tasks_cong:
  assumes "length (cs_tasks sc) \<le> length (cs_tasks sc')"
    "\<forall>j < length (cs_tasks sc). j \<noteq> i \<longrightarrow> cs_tasks sc' ! j = cs_tasks sc ! j"
    "\<forall>j. length (cs_tasks sc) \<le> j \<longrightarrow> j < length (cs_tasks sc') \<longrightarrow> \<not> ct_done (cs_tasks sc' ! j)"
  shows "live_tasks sc' (Suc i) n = live_tasks sc (Suc i) n"
  unfolding live_tasks_def
proof (rule filter_cong)
  fix j assume "j \<in> set [Suc i..<n]"
  then show "(length (cs_tasks sc') \<le> j \<or> \<not> ct_done (cs_tasks sc' ! j)) = (length (cs_tasks sc) \<le> j \<or> \<not> ct_done (cs_tasks sc ! j))"
    using assms by (cases "j < length (cs_tasks sc)") auto
qed simp

lemma unfinished:
  assumes "wf_sched sc" "i < length (cs_tasks sc)" "\<not> ct_done (cs_tasks sc ! i)"
  obtains c where "ct_rest (cs_tasks (sc\<lparr>cs_current := Some i\<rparr>) ! i) = Some c"
  using assms by (auto simp: wf_sched_def list_all_length wf_task_def)

lemma co_pass_round:
  assumes "co_pass i sc s = Some (log, sc', s')" "wf_sched sc"
  shows "wf_sched sc' \<and> length (cs_tasks sc) \<le> length (cs_tasks sc') \<and> log = live_tasks sc i (length (cs_tasks sc'))
    \<and> (if log = [] then sc' = sc \<and> s' = s
       else all_end sc \<longrightarrow> all_end sc' \<and> (rests (cs_tasks sc'), rests (cs_tasks sc)) \<in> mult ending)"
  using assms
proof (induction rule: co_pass_induct)
  case (skip i sc s log sc' s')
  then have "i < length (cs_tasks sc')" by linarith
  from live_tasks_step [OF this, of sc] skip show ?case by simp
next
  case (resume i sc s sc1 s1 log sc' s')
  obtain c where c: "ct_rest (cs_tasks (sc\<lparr>cs_current := Some i\<rparr>) ! i) = Some c"
    using resume by (auto elim: unfinished)
  have i: "i < length (cs_tasks (sc\<lparr>cs_current := Some i\<rparr>))" using resume(1) by simp
  note q = resume_progress [OF i c resume(3)]
  have w: "wf_sched sc1" using q(5) resume.prems by (simp add: wf_sched_def)
  note ih = resume.IH [OF w]
  have l: "live_tasks sc1 (Suc i) n = live_tasks sc (Suc i) n" for n
    using q(2-4) by (intro live_tasks_cong) simp_all
  have "all_end sc' \<and> (rests (cs_tasks sc'), rests (cs_tasks sc)) \<in> mult ending" if "all_end sc"
    using that ih q(1) by (cases "log = []") (auto simp: all_end_def mult_def intro: trancl_trans)
  moreover have "i < length (cs_tasks sc')" using ih q(2) resume(1) by simp
  ultimately show ?case using ih q(2) live_tasks_step [of i "length (cs_tasks sc')" sc] l resume(2) by simp
qed (simp add: live_tasks_def)

lemma co_pass_returns:
  fixes sc :: "'s co_sched"
  assumes "wf_sched sc" "all_end sc"
  shows "co_pass i sc s \<noteq> None"
proof -
  let ?m = "\<lambda>(sc :: 's co_sched, i). (rests (cs_tasks sc), length (cs_tasks sc) - i)"
  have "wf (inv_image (mult (ending :: ('s co \<times> 's co) set) <*lex*> measure id) ?m)"
    by (intro wf_inv_image wf_lex_prod wf_mult wf_ending) simp
  then have "\<forall>s. wf_sched (fst x) \<longrightarrow> all_end (fst x) \<longrightarrow> co_pass (snd x) (fst x) s \<noteq> None" for x :: "'s co_sched \<times> nat"
  proof (induction x rule: wf_induct_rule)
    case (less x)
    obtain sc i where x: "x = (sc, i)" by fastforce
    show ?case unfolding x fst_conv snd_conv
    proof (intro allI impI)
      fix s assume a: "wf_sched sc" "all_end sc"
      consider "length (cs_tasks sc) \<le> i" | "i < length (cs_tasks sc)" "ct_done (cs_tasks sc ! i)"
        | "i < length (cs_tasks sc)" "\<not> ct_done (cs_tasks sc ! i)" by linarith
      then show "co_pass i sc s \<noteq> None"
      proof cases
        case 2
        then have "((sc, Suc i), x) \<in> inv_image (mult ending <*lex*> measure id) ?m" by (simp add: x in_inv_image) linarith
        from less.IH [OF this] a 2 show ?thesis by (subst co_pass.simps) simp
      next
        case 3
        let ?sc = "sc\<lparr>cs_current := Some i\<rparr>"
        obtain sc1 s1 where r: "resume i ?sc s = (sc1, s1)" by fastforce
        obtain c where c: "ct_rest (cs_tasks ?sc ! i) = Some c" using a 3 by (auto elim: unfinished)
        have i: "i < length (cs_tasks ?sc)" using 3 by simp
        note q = resume_progress [OF i c r]
        have w: "wf_sched sc1" "all_end sc1" "(rests (cs_tasks sc1), rests (cs_tasks sc)) \<in> mult ending"
          using q(1,5) a by (simp_all add: wf_sched_def all_end_def)
        then have "((sc1, Suc i), x) \<in> inv_image (mult ending <*lex*> measure id) ?m" by (simp add: x in_inv_image)
        from less.IH [OF this, THEN spec, of s1] w obtain q where "co_pass (Suc i) sc1 s1 = Some q" by auto
        with r 3 show ?thesis by (subst co_pass.simps) simp
      qed (simp add: co_pass.simps)
    qed
  qed
  from this [of "(sc, i)"] assms show ?thesis by simp
qed

lemma co_rounds_induct [consumes 1, case_names last again]:
  fixes sc :: "'s co_sched"
  assumes "co_rounds sc s = Some (logs, sc', s')"
    and last: "\<And>sc s sc' s'. co_pass 0 sc s = Some ([], sc', s') \<Longrightarrow> P sc s [[]] sc' s'"
    and again: "\<And>sc s log sc1 s1 logs sc' s'. co_pass 0 sc s = Some (log, sc1, s1) \<Longrightarrow> log \<noteq> [] \<Longrightarrow> P sc1 s1 logs sc' s' \<Longrightarrow> P sc s (log # logs) sc' s'"
  shows "P sc s logs sc' s'"
proof -
  have "P sc s (fst r) (fst (snd r)) (snd (snd r))" if "co_rounds sc s = Some r" for sc :: "'s co_sched" and s r
    using that
  proof (rule co_rounds.raw_induct [rotated])
    fix go :: "'s co_sched \<Rightarrow> 's \<Rightarrow> (nat list list \<times> 's co_sched \<times> 's) option" and sc s r
    assume ih: "\<And>sc s r. go sc s = Some r \<Longrightarrow> P sc s (fst r) (fst (snd r)) (snd (snd r))"
    assume r: "Option.bind (co_pass 0 sc s) (\<lambda>p. if fst p = [] then Some ([[]], snd p)
        else Option.bind (go (fst (snd p)) (snd (snd p))) (\<lambda>r. Some (apfst ((#) (fst p)) r))) = Some r"
    then obtain log sc1 s1 where p: "co_pass 0 sc s = Some (log, sc1, s1)" by (auto simp: bind_eq_Some_conv)
    show "P sc s (fst r) (fst (snd r)) (snd (snd r))"
    proof (cases "log = []")
      case True
      then show ?thesis using p r last by auto
    next
      case False
      then obtain r1 where "go sc1 s1 = Some r1" "r = apfst ((#) log) r1" using p r by (auto simp: bind_eq_Some_conv)
      then show ?thesis using again [OF p False ih] by simp
    qed
  qed
  from this [OF assms(1)] show ?thesis by simp
qed

text \<open>The log of a run: each round resumes the unfinished tasks in order.\<close>

fun rounds_ok :: "'s co_sched \<Rightarrow> 's \<Rightarrow> nat list list \<Rightarrow> bool" where
  "rounds_ok sc s [] \<longleftrightarrow> False"
| "rounds_ok sc s (log # logs) \<longleftrightarrow>
     (case co_pass 0 sc s of
        None \<Rightarrow> False
      | Some (l, sc', s') \<Rightarrow>
          log = l \<and> l = live_tasks sc 0 (length (cs_tasks sc')) \<and> (if l = [] then logs = [] else rounds_ok sc' s' logs))"

lemma co_rounds_run:
  assumes "co_rounds sc s = Some (logs, sc', s')" "wf_sched sc"
  shows "wf_sched sc' \<and> list_all ct_done (cs_tasks sc') \<and> rounds_ok sc s logs"
  using assms
proof (induction rule: co_rounds_induct)
  case (last sc s sc' s')
  note r = co_pass_round [OF last]
  then have "list_all ct_done (cs_tasks sc)" by (auto simp: live_tasks_def empty_filter_conv list_all_length)
  with r last show ?case by auto
next
  case (again sc s log sc1 s1 logs sc' s')
  from co_pass_round [OF again(1,4)] again(1-3) show ?case by simp
qed

lemma co_rounds_return:
  fixes sc :: "'s co_sched"
  assumes "wf_sched sc" "all_end sc"
  shows "co_rounds sc s \<noteq> None"
proof -
  have "wf (inv_image (mult (ending :: ('s co \<times> 's co) set)) (\<lambda>sc :: 's co_sched. rests (cs_tasks sc)))"
    by (intro wf_inv_image wf_mult wf_ending)
  then show ?thesis using assms
  proof (induction sc arbitrary: s rule: wf_induct_rule)
    case (less sc)
    from co_pass_returns [OF less.prems] obtain l sc1 s1 where p: "co_pass 0 sc s = Some (l, sc1, s1)" by fastforce
    note r = co_pass_round [OF p less.prems(1)]
    show ?case
    proof (cases "l = []")
      case True
      then show ?thesis using p by (subst co_rounds.simps) simp
    next
      case False
      then have "(sc1, sc) \<in> inv_image (mult ending) (\<lambda>sc. rests (cs_tasks sc))" "wf_sched sc1" "all_end sc1"
        using r less.prems(2) by auto
      from less.IH [OF this] obtain q where "co_rounds sc1 s1 = Some q" by blast
      then show ?thesis using False p by (subst co_rounds.simps) simp
    qed
  qed
qed

text \<open>
  When the tasks end, running returns: every task has run to its end, in rounds that resume each
  unfinished task exactly once and in order, the tasks spawned during the round included.
\<close>

theorem co_run_returns:
  assumes "wf_sched sc" "all_end sc"
  shows "\<exists>logs sc' s'. co_run (Some sc) s = Some (logs, Some sc', s') \<and> list_all ct_done (cs_tasks sc') \<and> cs_current sc' = None
    \<and> rounds_ok sc s logs"
proof -
  from co_rounds_return [OF assms] obtain logs sc' s' where r: "co_rounds sc s = Some (logs, sc', s')" by fastforce
  with co_rounds_run [OF r assms(1)] show ?thesis by (auto simp: co_run_def)
qed

definition yielder :: "nat co" where
  "yielder = Co (\<lambda>s. (s + 1, [], Some (Co (\<lambda>s. (s + 10, [], None)))))"

lemma yielder_ends: "ends yielder"
proof -
  have "ends (Co (\<lambda>s::nat. (s + 10, [], None)))" by (rule ends) (simp add: part_def)
  then show ?thesis by (intro ends [of yielder]) (simp add: part_def yielder_def)
qed

text \<open>A task that only yields keeps the scheduler running for ever.\<close>

primcorec forever :: "'s co" where
  "co_fun forever = (\<lambda>s. (s, [], Some forever))"

lemma forever_runs:
  assumes "i < length (cs_tasks sc)" "ct_rest (cs_tasks sc ! i) = Some forever" "wf_sched sc"
  shows "co_run (Some sc) s = None"
proof -
  have pass: "i < length (cs_tasks sc') \<and> ct_rest (cs_tasks sc' ! i) = Some forever"
    if "co_pass j sc s = Some (log, sc', s')" "i < length (cs_tasks sc)" "ct_rest (cs_tasks sc ! i) = Some forever" for j sc s log sc' s'
    using that
  proof (induction rule: co_pass_induct)
    case (resume j sc s sc1 s1 log sc' s')
    have "i < length (cs_tasks sc1) \<and> ct_rest (cs_tasks sc1 ! i) = Some forever"
    proof (cases "ct_rest (cs_tasks sc ! j)")
      case None
      then show ?thesis using resume.hyps(3) resume.prems by (auto simp: resume_def)
    next
      case (Some c)
      then have c: "ct_rest (cs_tasks (sc\<lparr>cs_current := Some j\<rparr>) ! j) = Some c" and j: "j < length (cs_tasks (sc\<lparr>cs_current := Some j\<rparr>))"
        using resume.hyps(1) by simp_all
      show ?thesis
      proof (cases "j = i")
        case True
        then show ?thesis using resume.hyps(3) resume.prems by (auto simp: resume_def)
      next
        case False
        then show ?thesis using resume_progress(2,3) [OF j c resume.hyps(3)] resume.prems by auto
      qed
    qed
    then show ?case using resume.IH by blast
  qed simp_all
  have "False" if "co_rounds sc s = Some (logs, sc', s')" "i < length (cs_tasks sc)" "ct_rest (cs_tasks sc ! i) = Some forever" "wf_sched sc" for sc s logs sc' s'
    using that
  proof (induction rule: co_rounds_induct)
    case (last sc s sc' s')
    then show ?case using co_pass_round [OF last(1,4)] by (auto simp: live_tasks_def empty_filter_conv wf_sched_def wf_task_def list_all_length)
  next
    case (again sc s log sc1 s1 logs sc' s')
    then show ?case using pass [OF again(1)] co_pass_round [OF again(1)] by blast
  qed
  then show ?thesis using assms by (cases "co_rounds sc s") (auto simp: co_run_def)
qed

subsection \<open>Resources\<close>

text \<open>What is held after a trace: nothing is taken twice, and releasing what is not held is an error.\<close>

fun ledger :: "co_event list \<Rightarrow> co_resource set \<Rightarrow> co_resource set option" where
  "ledger [] H = Some H"
| "ledger (Get r # es) H = (if r \<in> H then None else ledger es (insert r H))"
| "ledger (Put r # es) H = (if r \<in> H then ledger es (H - {r}) else None)"

lemma ledger_append: "ledger (es @ fs) H = Option.bind (ledger es H) (ledger fs)"
proof (induction es arbitrary: H)
  case (Cons e es)
  then show ?case by (cases e) simp_all
qed simp

lemma ledger_puts: "distinct rs \<Longrightarrow> set rs \<subseteq> H \<Longrightarrow> ledger (map Put rs) H = Some (H - set rs)"
proof (induction rs arbitrary: H)
  case (Cons r rs)
  then have "ledger (map Put rs) (H - {r}) = Some (H - {r} - set rs)" by (intro Cons.IH) auto
  with Cons.prems show ?case by (simp add: Diff_insert2 [symmetric])
qed simp

fun handle :: "co_resource \<Rightarrow> nat" where
  "handle (R_main h) = h"
| "handle (R_array h) = h"
| "handle (R_task h) = h"
| "handle (R_stack h) = h"
| "handle (R_co h) = h"

definition one :: "(nat \<Rightarrow> co_resource) \<Rightarrow> nat option \<Rightarrow> co_resource list" where
  "one R h = (case h of None \<Rightarrow> [] | Some a \<Rightarrow> [R a])"

lemma one_simps [simp]: "one R None = []" "one R (Some a) = [R a]" "release R h = map Put (one R h)"
  by (simp_all add: one_def release_def split: option.split)

definition task_resources :: "'s co_task \<Rightarrow> co_resource list" where
  "task_resources t = one R_co (ct_co t) @ one R_stack (ct_stack t) @ [R_task (ct_self t)]"

text \<open>What a scheduler has to release.\<close>

definition co_held :: "'s co_sched \<Rightarrow> co_resource list" where
  "co_held sc = concat (map task_resources (cs_tasks sc)) @ one R_array (cs_array sc) @ one R_main (cs_main sc)"

definition books :: "'s co_sched \<Rightarrow> bool" where
  "books sc \<longleftrightarrow> distinct (co_held sc) \<and> ledger (cs_trace sc) {} = Some (set (co_held sc)) \<and> (\<forall>r \<in> set (co_held sc). handle r < cs_next sc)"

lemma co_sched_free_trace: "cs_trace (the (co_sched_free (Some sc))) = cs_trace sc @ map Put (co_held sc)"
proof -
  have "concat (map co_task_free ts) = map Put (concat (map task_resources ts))" for ts :: "'a co_task list"
    by (induction ts) (simp_all add: co_task_free_def task_resources_def)
  then show ?thesis by (simp add: co_sched_free_def co_held_def)
qed

lemma books_free: "books sc \<Longrightarrow> ledger (cs_trace (the (co_sched_free (Some sc)))) {} = Some {}"
  by (simp add: co_sched_free_trace ledger_append books_def ledger_puts)

lemma books_add:
  assumes "books sc" "mset (co_held sc') = mset (new @ co_held sc)" "distinct new" "\<forall>r \<in> set new. r \<notin> set (co_held sc) \<and> handle r < cs_next sc'"
    "ledger (cs_trace sc') {} = Some (set new \<union> set (co_held sc))" "cs_next sc \<le> cs_next sc'"
  shows "books sc'"
proof -
  have "distinct (co_held sc') = distinct (new @ co_held sc)" "set (co_held sc') = set new \<union> set (co_held sc)"
    using mset_eq_imp_distinct_iff [OF assms(2)] mset_eq_setD [OF assms(2)] by auto
  with assms show ?thesis unfolding books_def by (auto intro: order.strict_trans2)
qed

lemmas books_cong = books_add [where new = "[]", simplified]

lemma fresh_not_held: "books sc \<Longrightarrow> cs_next sc \<le> handle r \<Longrightarrow> r \<notin> set (co_held sc)"
  by (auto simp: books_def)

lemma books_grow:
  assumes "books sc"
  shows "books (snd (co_grow ok sc))"
proof (cases "length (cs_tasks sc) = cs_cap sc \<and> ok")
  case True
  let ?n = "R_array (cs_next sc)" and ?old = "one R_array (cs_array sc)"
  let ?H = "set (co_held sc)" and ?rest = "concat (map task_resources (cs_tasks sc))"
  have held: "co_held (snd (co_grow ok sc)) = ?rest @ ?n # one R_main (cs_main sc)"
    using True by (simp add: co_grow_def add_trace_def co_held_def)
  have n: "?n \<notin> ?H" using fresh_not_held [OF assms] by simp
  have d: "distinct (co_held sc)" "ledger (cs_trace sc) {} = Some ?H" "\<forall>r \<in> ?H. handle r < cs_next sc"
    using assms by (simp_all add: books_def)
  have "ledger (map Put ?old) ?H = Some (?H - set ?old)"
    using d(1) by (intro ledger_puts) (auto simp: co_held_def)
  moreover have "?H - set ?old = set (?rest @ one R_main (cs_main sc))"
    using d(1) unfolding co_held_def set_append distinct_append by blast
  ultimately have "ledger (cs_trace (snd (co_grow ok sc))) {} = Some (insert ?n (set (?rest @ one R_main (cs_main sc))))"
    using True d(2) n by (simp add: co_grow_def add_trace_def ledger_append co_held_def)
  moreover have "insert ?n (set (?rest @ one R_main (cs_main sc))) = set (co_held (snd (co_grow ok sc)))" unfolding held by auto
  moreover have "distinct (co_held (snd (co_grow ok sc)))" using d(1) n unfolding held by (auto simp: co_held_def)
  moreover have "\<forall>r \<in> set (co_held (snd (co_grow ok sc))). handle r < cs_next (snd (co_grow ok sc))"
    using d(3) True unfolding held by (auto simp: co_grow_def add_trace_def co_held_def less_Suc_eq)
  ultimately show ?thesis unfolding books_def by simp
next
  case False
  then show ?thesis using assms by (auto simp: co_grow_def)
qed

lemma books_spawn:
  assumes "books sc"
  shows "books (snd (co_spawn m fn sc))"
proof -
  obtain gr sc1 where c: "co_grow (sm_realloc m) sc = (gr, sc1)" by fastforce
  have b: "books sc1" using books_grow [OF assms, of "sm_realloc m"] c by simp
  let ?h = "cs_next sc1"
  have l: "ledger (cs_trace sc1) {} = Some (set (co_held sc1))" using b by (simp add: books_def)
  have new: "R_task ?h \<notin> set (co_held sc1)" "R_stack (Suc ?h) \<notin> set (co_held sc1)" "R_co (Suc (Suc ?h)) \<notin> set (co_held sc1)"
    using fresh_not_held [OF b] by simp_all
  have failed: "books (add_trace es (sc1\<lparr>cs_next := ?h + 3\<rparr>))" if "ledger es (set (co_held sc1)) = Some (set (co_held sc1))" for es
    using that l by (intro books_cong [OF b]) (simp_all add: add_trace_def co_held_def ledger_append)
  have ok: "books (add_trace [Get (R_task ?h), Get (R_stack (?h + 1)), Get (R_co (?h + 2))]
      (sc1\<lparr>cs_next := ?h + 3, cs_tasks := cs_tasks sc1 @ [\<lparr>ct_self = ?h, ct_co = Some (?h + 2), ct_stack = Some (?h + 1), ct_rest = fn, ct_done = False\<rparr>]\<rparr>))"
    (is "books ?ok")
  proof (rule books_add [OF b])
    show "mset (co_held ?ok) = mset ([R_co (?h + 2), R_stack (?h + 1), R_task ?h] @ co_held sc1)"
      by (simp add: add_trace_def co_held_def task_resources_def)
    show "ledger (cs_trace ?ok) {} = Some (set [R_co (?h + 2), R_stack (?h + 1), R_task ?h] \<union> set (co_held sc1))"
      using l new by (simp add: add_trace_def ledger_append)
  qed (use new in \<open>simp_all add: add_trace_def\<close>)
  have "insert (R_stack (Suc ?h)) (insert (R_task ?h) (set (co_held sc1))) - {R_stack (Suc ?h)} - {R_task ?h} = set (co_held sc1)"
    using new by auto
  then show ?thesis
    using assms b new ok
    by (simp add: co_spawn_def c Let_def failed insert_commute)
qed

lemma books_spawn_all: "books sc \<Longrightarrow> books (spawn_all sp sc)"
  by (induction sp sc rule: spawn_all.induct) (simp_all add: books_spawn)

lemma books_resume:
  assumes "books sc" "resume i sc s = (sc', s')"
  shows "books sc'"
proof (cases "ct_rest (cs_tasks sc ! i)")
  case (Some c)
  obtain s1 sp nx where f: "co_fun c s = (s1, sp, nx)" by (cases "co_fun c s") auto
  let ?sc = "spawn_all sp sc"
  have "sc' = ?sc\<lparr>cs_tasks := (cs_tasks ?sc)[i := (cs_tasks ?sc ! i)\<lparr>ct_rest := nx, ct_done := (nx = None)\<rparr>]\<rparr>"
    using assms(2) f Some by (auto simp: resume_def Let_def)
  moreover have "map task_resources ((cs_tasks ?sc)[i := (cs_tasks ?sc ! i)\<lparr>ct_rest := nx, ct_done := (nx = None)\<rparr>]) = map task_resources (cs_tasks ?sc)"
    by (cases "i < length (cs_tasks ?sc)") (auto intro!: nth_equalityI simp: nth_list_update task_resources_def list_update_beyond)
  ultimately show ?thesis using books_cong [OF books_spawn_all [OF assms(1), of sp], of sc'] books_spawn_all [OF assms(1), of sp]
    by (simp add: co_held_def books_def)
qed (use assms in \<open>simp add: resume_def\<close>)

lemma books_current: "books (sc\<lparr>cs_current := c\<rparr>) = books sc"
  by (simp add: books_def co_held_def)

lemma books_pass: "co_pass i sc s = Some (log, sc', s') \<Longrightarrow> books sc \<Longrightarrow> books sc'"
  by (induction rule: co_pass_induct) (simp_all add: books_resume [OF books_current [THEN iffD2]])

lemma books_rounds: "co_rounds sc s = Some (logs, sc', s') \<Longrightarrow> books sc \<Longrightarrow> books sc'"
  by (induction rule: co_rounds_induct) (simp_all add: books_pass)

lemma books_init: "books (snd (co_sched_init True sc0))"
  by (simp add: books_def co_sched_init_def co_held_def)

text \<open>A fresh scheduler with the given tasks.\<close>

definition with_tasks :: "(spawn_mem \<times> 's co) list \<Rightarrow> 's co_sched \<Rightarrow> 's co_sched" where
  "with_tasks sp sc0 = spawn_all sp (snd (co_sched_init True sc0))"

text \<open>
  C24. Whatever tasks a fresh scheduler spawns and whatever allocations fail: when the run returns, each of its rounds
  resumed every unfinished task once and in order, every task is done, and
  freeing the scheduler has released each coroutine, stack, task and array that was ever obtained, each exactly once and by its
  own handle.  So does freeing it before it runs.  The run returns when the tasks end.
\<close>

theorem co_resources:
  "ledger (cs_trace (the (co_sched_free (Some (with_tasks sp sc0))))) {} = Some {}
    \<and> (\<forall>r. co_run (Some (with_tasks sp sc0)) s = Some r \<longrightarrow>
      (\<exists>logs sc s'. r = (logs, Some sc, s') \<and> rounds_ok (with_tasks sp sc0) s logs \<and> list_all ct_done (cs_tasks sc) \<and> ledger (cs_trace (the (co_sched_free (Some sc)))) {} = Some {}))
    \<and> ((\<forall>(m, c) \<in> set sp. ends c) \<longrightarrow> co_run (Some (with_tasks sp sc0)) s \<noteq> None)"
proof (intro conjI allI impI)
  have bk: "books (with_tasks sp sc0)" unfolding with_tasks_def by (intro books_spawn_all books_init)
  then show "ledger (cs_trace (the (co_sched_free (Some (with_tasks sp sc0))))) {} = Some {}" by (rule books_free)
  have "wf_sched (snd (co_sched_init True sc0))" by (simp add: wf_sched_def co_sched_init_def)
  then have wf: "wf_sched (with_tasks sp sc0)" using spawn_all_tasks unfolding with_tasks_def by blast
  fix r assume "co_run (Some (with_tasks sp sc0)) s = Some r"
  then obtain logs sc s' where r: "co_rounds (with_tasks sp sc0) s = Some (logs, sc, s')" "r = (logs, Some (sc\<lparr>cs_current := None\<rparr>), s')"
    by (auto simp: co_run_def)
  from bk have "books (sc\<lparr>cs_current := None\<rparr>)" using books_rounds [OF r(1)] by (simp add: books_current)
  with co_rounds_run [OF r(1) wf] r(2) books_free
  show "\<exists>logs sc s'. r = (logs, Some sc, s') \<and> rounds_ok (with_tasks sp sc0) s logs \<and> list_all ct_done (cs_tasks sc) \<and> ledger (cs_trace (the (co_sched_free (Some sc)))) {} = Some {}"
    by fastforce
next
  assume e: "\<forall>(m, c) \<in> set sp. ends c"
  have "wf_sched (snd (co_sched_init True sc0))" "cs_tasks (snd (co_sched_init True sc0)) = []" by (simp_all add: wf_sched_def co_sched_init_def)
  then have "wf_sched (with_tasks sp sc0)" "rests (cs_tasks (with_tasks sp sc0)) \<subseteq># mset (map snd sp)"
    using spawn_all_tasks [of sp "snd (co_sched_init True sc0)"] unfolding with_tasks_def by auto
  moreover from this(2) e have "all_end (with_tasks sp sc0)" unfolding all_end_def by (fastforce dest: mset_subset_eqD)
  ultimately show "co_run (Some (with_tasks sp sc0)) s \<noteq> None" using co_rounds_return by (auto simp: co_run_def)
qed

definition fine :: spawn_mem where
  "fine = \<lparr>sm_realloc = True, sm_calloc = True, sm_stack = True, sm_create = True\<rparr>"

definition unset :: "nat co_sched" where
  "unset = \<lparr>cs_main = None, cs_array = None, cs_tasks = [], cs_cap = 0, cs_current = None, cs_trace = [], cs_next = 0\<rparr>"

theorem co_resources_witness:
  "\<exists>logs sc s'. co_run (Some (with_tasks [(fine, yielder), (fine\<lparr>sm_create := False\<rparr>, yielder), (fine, yielder)] unset)) 0
      = Some (logs, Some sc, s') \<and> list_all ct_done (cs_tasks sc) \<and> ledger (cs_trace (the (co_sched_free (Some sc)))) {} = Some {}"
proof -
  let ?sp = "[(fine, yielder), (fine\<lparr>sm_create := False\<rparr>, yielder), (fine, yielder)]"
  obtain r where "co_run (Some (with_tasks ?sp unset)) 0 = Some r"
    using co_resources [of ?sp unset 0] yielder_ends by auto
  with co_resources [of ?sp unset 0] show ?thesis by blast
qed

end
