(* ===== verification/Spec2Isabelle.thy ===== *)
theory Spec2Isabelle
  imports Macro_Depth Hashmap Arena Strbuf Slice Buffers Save_Memory Operators Constexpr Thread_Pool
    Generic_Lists Reflect Defer Sockets Driver Fibers
begin

text \<open>
  Verification of the CZet language extensions and of the CZet standard library.

  CZet is a C dialect built on a copy of GCC (src/src/gcc).  What it adds to GCC lives in a few
  regions of the C front end: hygienic macros (\<^verbatim>\<open>_Macro\<close>, gcc/c/c-parser.cc), operator overloading
  (\<^verbatim>\<open>_Operator\<close>, c-decl.cc, c-typeck.cc, c-parser.cc), compile-time evaluation of constexpr functions
  (c-fold.cc), generics (c-decl.cc, c-parser.cc), deferred statements and reflection; a driver that carries the
  compiler as an archive in its own executable (src/src/czet.c); and a standard library of headers
  (src/stdlib/utils).  The development models the macro engine, operator overloading, the constexpr
  evaluator, generics, deferred statements, reflection, the driver and the library's data structures, concurrency
  primitives, fibers and sockets.

  \<^bold>\<open>Macros.\<close>  \<^verbatim>\<open>Tokens\<close> has the tokens and the predicates on them; \<^verbatim>\<open>Token_Stream\<close> the parser's look-ahead,
  the injection stack and error recovery (\<^verbatim>\<open>c_parser_peek_token\<close>, \<^verbatim>\<open>c_czet_push_inject\<close>, ...) with the
  locale \<open>token_source\<close> as the interface the rest uses; \<^verbatim>\<open>Macro_Data\<close> the parameters, arms and the
  registry; \<^verbatim>\<open>Macro_Flat\<close> the flat matcher; \<^verbatim>\<open>Macro_Tree\<close> the parser of repetition trees; \<^verbatim>\<open>Macro_Match\<close> the
  tree matcher with its capture store; \<^verbatim>\<open>Macro_Expand\<close> the expansion; \<^verbatim>\<open>Macro_Hygiene\<close> the renaming;
  \<^verbatim>\<open>Macro_Invoke\<close> invocation (\<^verbatim>\<open>c_czet_try_invoke\<close>) and definition (\<^verbatim>\<open>c_parser_czet_macro_definition\<close>) as whole
  handlers.  The specification is declarative: \<open>pat_lang\<close> and \<open>flat_lang\<close> are the token lists a pattern
  describes, \<open>store_ok\<close> types the capture store, \<open>balanced\<close> and \<open>provenance\<close> describe expansions.
  \<^verbatim>\<open>Macro_Properties\<close> has the results on the engine as a whole: the first arm that matches an invocation is
  expanded with the captures of the match, hygienically; matching has a result when no group can iterate more than seven times, and
  from the eighth iteration on writes past the vector of positions (\<open>list_group_overflows\<close> in \<^verbatim>\<open>Macro_Match\<close>);
  rejected invocations are rolled back, expansions are balanced, definitions keep the registry well
  formed.  \<^verbatim>\<open>Macro_Depth\<close> models the four places of the C parser that expand macros and their counter of nested
  expansions: the limit holds at file scope and for statements whatever the rest of the parser does, while blocks never decrease the counter and
  expand a recursive macro for ever.

  \<^bold>\<open>Operators.\<close>  \<^verbatim>\<open>Operators\<close> models the operator table and registry, the parser of operator definitions and
  the rewriters of binary, unary and assignment expressions.  Rewritten expressions get a meaning over
  a memory, for either order in which a target evaluates the arguments of a call, and the lemmas say what a rewritten expression computes.

  \<^bold>\<open>Constant evaluation.\<close>  \<^verbatim>\<open>Constexpr\<close> models the interpreter of constexpr bodies and proves it sound
  against a deterministic run-time semantics with storage classes and undefined executions, for every folder of
  expressions that is sound and every function without initialized static variables; with one, every call folds
  to the value of the first (\<open>static_local_folds\<close>).

  \<^bold>\<open>Generics.\<close>  \<^verbatim>\<open>Generics\<close> models type parameters, structure templates and instances over a heap of type nodes in
  which shared nodes are rewritten in place, as \<^verbatim>\<open>walk_tree\<close> does.  The lemmas give what every
  substitution leaves alone, that a flat structure is instantiated as written and once, and where the code
  fails: pointer members keep the first argument, structures that point to themselves never
  end, functions on types that are not integers are confused.  \<^verbatim>\<open>Generic_Replay\<close> models the captured bodies,
  the list of pending instances and its flushing at the top level, with the C parser as a parameter.
  \<^verbatim>\<open>Generic_Lists\<close> models the parameter and argument lists in angle brackets and the scope of type parameters:
  what a list reads, that a generic call requests the instance written, and over a translation unit, read from the text
  of its lists, which functions and structures become templates (a list on a tag that is a template is refused); a prototype, and a structure inside a generic function, confuse the scope.

  \<^bold>\<open>Deferred statements.\<close>  \<^verbatim>\<open>Defer\<close> models how \<^verbatim>\<open>defer { ... }\<close> and \<^verbatim>\<open>defer;\<close> are parsed into trees.  Statements have a
  meaning of their own, with a stack of pending cleanups, and the trees of well placed \<open>defer\<close>s refine it; two lemmas
  show how the placement matters.

  \<^bold>\<open>Reflection.\<close>  \<^verbatim>\<open>Reflect\<close> models \<^verbatim>\<open>_Reflect\<close> on a table of type nodes.  The metadata can be followed
  as far as the type goes within the depth limits of the code, every object reached has what the guide documents for the type
  there, and the emitted statics are well formed and named apart.  The
  generic shortcuts of save_memory.h are modelled on top of it.

  \<^bold>\<open>Library.\<close>  \<^verbatim>\<open>Hashmap\<close> (open addressing with tombstones, refined to finite maps, locale \<open>string_map\<close>),
  \<^verbatim>\<open>Arena\<close> (bump allocation on 64-bit addresses), \<^verbatim>\<open>Strbuf\<close> (growable string), \<^verbatim>\<open>Slice\<close>, \<^verbatim>\<open>Buffers\<close> (double and
  triple buffers as interleavings), \<^verbatim>\<open>Save_Memory\<close> (binary save and load over reflection metadata),
  \<^verbatim>\<open>Thread_Pool\<close> (ring buffer behind the locale \<open>task_queue\<close>, critical sections as steps, creation and
  destruction as traces of resources), \<^verbatim>\<open>Sockets\<close> (ipc.h and server.h behind the locale \<open>byte_stream\<close>, the
  results of the kernel's calls as a parameter, descriptors as traces), \<^verbatim>\<open>Fibers\<close> (the scheduler of aco.h over coinductive
  tasks, which may yield for ever; rounds, and resources with a handle for each allocation).  \<^verbatim>\<open>Czet_Prelude\<close> has what they share: 8, 32 and 64-bit words,
  spans of lists, decimal numerals.

  \<^bold>\<open>Driver.\<close>  \<^verbatim>\<open>Posix\<close> has the calls to the kernel, their results and errors, and the record \<open>kernel\<close> that stands for the
  operating system: a parameter of everything that uses files.  \<^verbatim>\<open>Archive\<close> models the trailer of the
  executable, the hash and the extraction of the ustar archive; the lemmas give the calls made for a well formed
  archive, that no archive reaches names beyond those the name check allows, and which names it should not
  allow.  \<^verbatim>\<open>Driver\<close> models the cache of extracted archives and the command line of the embedded compiler,
  with \<^verbatim>\<open>main\<close> as a whole: the vector of arguments fits its memory, a failed extraction leaves earlier
  caches alone, a first run extracts, stamps, installs and starts the compiler.

  \<^bold>\<open>Conventions.\<close>  Handlers return their new state; errors are values of sum types or the C return code.
  Machine integers are words where wrap-around matters.  Loops whose end depends on the input take
  fuel and return \<open>None\<close> when it runs out; each such routine has a result that says how much fuel is
  enough (64 for the doubling of a string buffer, two levels for
  the mutual recursion of put and rehash) or that no fuel is enough where the source diverges.
  The tree matcher needs no fuel: its \<open>None\<close> is a write past the eight slots of a vector.  Writing to a file and running fibers are partial functions whose value \<open>None\<close> is a run that does not end; the
  removal of a directory tree takes the depth as fuel.  Allocation, the expression folder, type compatibility and other routines of GCC or of the C library
  are parameters.

  \<^bold>\<open>Not modelled.\<close>  Of generics, the parser of type names, a parameter.  Of deferred statements, \<^verbatim>\<open>goto\<close> and
  syntax errors inside a block.  Of the driver, failing allocation and the text of its help.  Of fibers, the context switches,
  which are assembly of libaco.  GCC itself, its runtime libraries and zlib are vendored.  The memory
  model of the buffers and of the pool is sequential consistency.
\<close>

section \<open>Components together\<close>

text \<open>
  C9. A value of a type without pointers can be sent to another process: \<^verbatim>\<open>sm_save<T>\<close> writes its bytes, which arrive
  unchanged through a socket however the kernel cuts them, and \<^verbatim>\<open>sm_load<T>\<close> restores the value on the other side.
\<close>

theorem value_crosses_stream:
  assumes "plain_type tys t" "\<forall>n. malloc n" "cover p (value_meta tys t) \<subseteq> {..<length mem}"
    "nbytes (value_meta tys t) \<le> wf_room w" "wf_data w = []"
  shows "\<exists>w'. sm_save tys t le malloc mem (Some w) (Some p) = Some (0, Some w')
    \<and> (\<forall>rs rs' mem0. moving (length (wf_data w')) rs \<longrightarrow> moving (length (wf_data w')) rs' \<longrightarrow> length mem0 = length mem \<longrightarrow>
         (\<exists>out got. ipc_send_all rs (wf_data w') = Some (0, E_none, out)
            \<and> ipc_recv_all rs' (length (wf_data w')) out = Some (0, E_none, got, [])
            \<and> sm_load tys t le mem0 (Some got) (Some p) = Some (0, merge (cover p (value_meta tys t)) mem mem0, Some [])))"
proof -
  obtain w' bs where s: "sm_save tys t le malloc mem (Some w) (Some p) = Some (0, Some w')" "wf_data w' = bs"
    and l: "\<And>mem0 rest. length mem0 = length mem \<Longrightarrow>
      sm_load tys t le mem0 (Some (bs @ rest)) (Some p) = Some (0, merge (cover p (value_meta tys t)) mem mem0, Some rest)"
    using save_load_generic [OF assms(1-4), of le] assms(5) by (metis append_Nil)
  have "\<exists>out got. ipc_send_all rs bs = Some (0, E_none, out) \<and> ipc_recv_all rs' (length bs) out = Some (0, E_none, got, [])
      \<and> sm_load tys t le mem0 (Some got) (Some p) = Some (0, merge (cover p (value_meta tys t)) mem mem0, Some [])"
    if "moving (length bs) rs" "moving (length bs) rs'" "length mem0 = length mem" for rs rs' mem0
    using ipc_stream.transfer [OF that(1,2), of "[]"] l [OF that(3), of "[]"] by auto
  with s show ?thesis by blast
qed

theorem value_crosses_stream_witness:
  "\<exists>w'. sm_save example_types 0 True (\<lambda>n. True) [5] (Some \<lparr>wf_data = [], wf_room = 9\<rparr>) (Some 0) = Some (0, Some w')
    \<and> (\<forall>rs rs' mem0. moving (length (wf_data w')) rs \<longrightarrow> moving (length (wf_data w')) rs' \<longrightarrow> length mem0 = length [5 :: u8] \<longrightarrow>
         (\<exists>out got. ipc_send_all rs (wf_data w') = Some (0, E_none, out)
            \<and> ipc_recv_all rs' (length (wf_data w')) out = Some (0, E_none, got, [])
            \<and> sm_load example_types 0 True mem0 (Some got) (Some 0)
              = Some (0, merge (cover 0 (value_meta example_types 0)) [5] mem0, Some [])))"
proof (rule value_crosses_stream)
  show "plain_type example_types 0" by (simp add: example_simps)
  show "cover 0 (value_meta example_types 0) \<subseteq> {..<length [5 :: u8]}"
    by (simp add: value_meta_def example_simps Let_def cover.simps)
  show "nbytes (value_meta example_types 0) \<le> wf_room \<lparr>wf_data = [], wf_room = 9\<rparr>"
    by (simp add: value_meta_def example_simps Let_def nbytes.simps)
qed simp_all

end
